(* ===== verification/Prelude.thy ===== *)
theory Prelude
  imports Main "HOL-Library.Word" "HOL-Library.AList"
begin

text \<open>
  Shared vocabulary of the development: the outcome type of operations that may throw,
  the loop combinator for sources that run a throwing body over a container, decimal
  printing and reading as done by the C and C++ formatting functions, and the generic
  lemmas the component theories rely on.
\<close>

section \<open>Lemma collections\<close>

named_theorems io_simps \<open>equations of the external calls: result and extended history\<close>
named_theorems outcome_simps \<open>equations that propagate outcomes through sequencing\<close>

section \<open>Outcomes of operations\<close>

text \<open>
  An operation of the source ends normally, throws, or leaves the behaviour defined by
  the language. \<open>ZmqError\<close> carries the errno of a \<open>zmq::error_t\<close>; \<open>StdException\<close>
  names another standard exception class; \<open>Undefined\<close> is undefined behaviour (an index
  past the end of a vector, a null string, a descriptor outside an \<open>fd_set\<close>);
  \<open>Terminated\<close> is a call of \<open>std::terminate\<close>, \<open>Exit\<close> one of \<open>std::exit\<close>.
\<close>

datatype error =
    ZmqError int
  | StdException string
  | Undefined string
  | Terminated string
  | Exit int

type_synonym 'a outcome = "error + 'a"

text \<open>Sequencing: the continuation runs on the state the first part left, unless it threw.\<close>

definition andThen :: "'a outcome \<times> 's \<Rightarrow> ('a \<Rightarrow> 's \<Rightarrow> 'b outcome \<times> 's) \<Rightarrow> 'b outcome \<times> 's" where
  "andThen r f = (case r of (Inl e, s) \<Rightarrow> (Inl e, s) | (Inr a, s) \<Rightarrow> f a s)"

lemma andThen_Inl [simp, outcome_simps]: "andThen (Inl e, s) f = (Inl e, s)"
  by (simp add: andThen_def)

lemma andThen_Inr [simp, outcome_simps]: "andThen (Inr a, s) f = f a s"
  by (simp add: andThen_def)

lemma andThen_ok_iff:
  "andThen r f = (Inr b, t) \<longleftrightarrow> (\<exists>a s. r = (Inr a, s) \<and> f a s = (Inr b, t))"
  by (cases r; cases "fst r") (auto simp: andThen_def)

lemma andThen_error_iff:
  "andThen r f = (Inl err, t) \<longleftrightarrow> r = (Inl err, t) \<or> (\<exists>a s. r = (Inr a, s) \<and> f a s = (Inl err, t))"
  by (cases r; cases "fst r") (auto simp: andThen_def)

lemma andThen_assoc: "andThen (andThen r f) g = andThen r (\<lambda>a s. andThen (f a s) g)"
  by (cases r; cases "fst r") (auto simp: andThen_def)

text \<open>\<open>try { ... } catch (zmq::error_t &e)\<close>: only \<open>zmq::error_t\<close> is caught.\<close>

definition catch_zmq :: "'a outcome \<times> 's \<Rightarrow> (int \<Rightarrow> 's \<Rightarrow> 'a outcome \<times> 's) \<Rightarrow> 'a outcome \<times> 's" where
  "catch_zmq r handler = (case r of (Inl (ZmqError n), s) \<Rightarrow> handler n s | _ \<Rightarrow> r)"

lemma catch_zmq_simps [simp, outcome_simps]:
  "catch_zmq (Inr a, s) f = (Inr a, s)"
  "catch_zmq (Inl (ZmqError n), s) f = f n s"
  "catch_zmq (Inl (StdException m), s) f = (Inl (StdException m), s)"
  "catch_zmq (Inl (Undefined m), s) f = (Inl (Undefined m), s)"
  "catch_zmq (Inl (Terminated m), s) f = (Inl (Terminated m), s)"
  "catch_zmq (Inl (Exit n), s) f = (Inl (Exit n), s)"
  by (simp_all add: catch_zmq_def)

text \<open>An outcome that is not undefined behaviour.\<close>

definition defined :: "'a outcome \<Rightarrow> bool" where
  "defined r \<longleftrightarrow> (case r of Inl (Undefined _) \<Rightarrow> False | _ \<Rightarrow> True)"

lemma defined_simps [simp]:
  "defined (Inr a)" "defined (Inl (ZmqError n))" "defined (Inl (StdException m))"
  "defined (Inl (Terminated m))" "defined (Inl (Exit n))" "\<not> defined (Inl (Undefined m))"
  by (simp_all add: defined_def)

text \<open>A loop over a container whose body may throw: the first throw ends it.\<close>

fun for_each :: "('a \<Rightarrow> 's \<Rightarrow> unit outcome \<times> 's) \<Rightarrow> 'a list \<Rightarrow> 's \<Rightarrow> unit outcome \<times> 's" where
  "for_each f [] s = (Inr (), s)"
| "for_each f (x # xs) s = andThen (f x s) (\<lambda>_. for_each f xs)"

lemma for_each_append:
  "for_each f (xs @ ys) s = andThen (for_each f xs s) (\<lambda>_. for_each f ys)"
proof (induction xs arbitrary: s)
  case Nil
  then show ?case by simp
next
  case (Cons x xs)
  have "for_each f (xs @ ys) = (\<lambda>t. andThen (for_each f xs t) (\<lambda>_. for_each f ys))"
    by (rule ext) (rule Cons.IH)
  then show ?case unfolding append_Cons for_each.simps andThen_assoc by (rule arg_cong)
qed

text \<open>An error of the loop is one of its body.\<close>

lemma for_each_error:
  "for_each f xs s = (Inl err, t) \<Longrightarrow> \<exists>x \<in> set xs. \<exists>s' t'. f x s' = (Inl err, t')"
proof (induction xs arbitrary: s)
  case (Cons x xs)
  then show ?case by (fastforce simp: andThen_error_iff)
qed simp

text \<open>What the body keeps, the loop keeps, also when it ends with a throw.\<close>

lemma for_each_keeps:
  assumes "P s" and "\<And>x s. x \<in> set xs \<Longrightarrow> P s \<Longrightarrow> P (snd (f x s))"
  shows "P (snd (for_each f xs s))"
  using assms
proof (induction xs arbitrary: s)
  case (Cons x xs)
  obtain r t where step: "f x s = (r, t)" by (metis surj_pair)
  have "P t" using Cons.prems(2)[of x s] Cons.prems(1) step by simp
  then show ?case using Cons.IH[of t] Cons.prems(2) step by (cases r) simp_all
qed simp

lemma for_each_invariant:
  assumes "for_each f xs s = (Inr (), t)" and "P s"
    and "\<And>x s t. x \<in> set xs \<Longrightarrow> P s \<Longrightarrow> f x s = (Inr (), t) \<Longrightarrow> P t"
  shows "P t"
  using assms
proof (induction xs arbitrary: s)
  case Nil
  then show ?case by simp
next
  case (Cons x xs)
  from Cons.prems(1) obtain u where u: "f x s = (Inr (), u)" "for_each f xs u = (Inr (), t)"
    by (auto simp: andThen_ok_iff)
  have "P u" by (rule Cons.prems(3)[OF _ Cons.prems(2) u(1)]) simp
  show ?case
  proof (rule Cons.IH[OF u(2) \<open>P u\<close>])
    fix y s' t'
    assume "y \<in> set xs" "P s'" "f y s' = (Inr (), t')"
    then show "P t'" by (intro Cons.prems(3)[of y s' t']) simp_all
  qed
qed

section \<open>Decimal numbers\<close>

definition digit_char :: "nat \<Rightarrow> char" where
  "digit_char d = char_of (48 + d)"

fun show_nat :: "nat \<Rightarrow> string" where
  "show_nat n = (if n < 10 then [digit_char n] else show_nat (n div 10) @ [digit_char (n mod 10)])"

declare show_nat.simps [simp del]

definition show_int :: "int \<Rightarrow> string" where
  "show_int i = (if i < 0 then CHR ''-'' # show_nat (nat (- i)) else show_nat (nat i))"

definition is_digit :: "char \<Rightarrow> bool" where
  "is_digit c \<longleftrightarrow> 48 \<le> (of_char c :: nat) \<and> (of_char c :: nat) \<le> 57"

definition digit_val :: "char \<Rightarrow> nat" where
  "digit_val c = of_char c - 48"

definition digits_value :: "string \<Rightarrow> nat" where
  "digits_value cs = foldl (\<lambda>a c. 10 * a + digit_val c) 0 cs"

lemma of_char_digit_char: "d < 10 \<Longrightarrow> (of_char (digit_char d) :: nat) = 48 + d"
  by (simp add: digit_char_def)

lemma digit_char_simps [simp]:
  "d < 10 \<Longrightarrow> is_digit (digit_char d)"
  "d < 10 \<Longrightarrow> digit_val (digit_char d) = d"
  by (simp_all add: is_digit_def digit_val_def of_char_digit_char)

lemma digits_value_snoc [simp]: "digits_value (cs @ [c]) = 10 * digits_value cs + digit_val c"
  by (simp add: digits_value_def)

lemma show_nat_nonempty [simp]: "show_nat n \<noteq> []"
  by (subst show_nat.simps) simp

lemma show_nat_digits: "c \<in> set (show_nat n) \<Longrightarrow> is_digit c"
proof (induction n rule: show_nat.induct)
  case (1 n)
  show ?case
  proof (cases "n < 10")
    case True
    with "1.prems" show ?thesis by (subst (asm) show_nat.simps) simp
  next
    case False
    with "1.prems" "1.IH" show ?thesis by (subst (asm) show_nat.simps) auto
  qed
qed

lemma digits_value_show_nat [simp]: "digits_value (show_nat n) = n"
proof (induction n rule: show_nat.induct)
  case (1 n)
  show ?case
  proof (cases "n < 10")
    case True
    then show ?thesis by (subst show_nat.simps) (simp add: digits_value_def)
  next
    case False
    with "1.IH" show ?thesis by (subst show_nat.simps) simp
  qed
qed

lemma show_nat_inj: "show_nat m = show_nat n \<longleftrightarrow> m = n"
  by (metis digits_value_show_nat)

lemma not_digit_minus [simp]: "\<not> is_digit (CHR ''-'')" "\<not> is_digit (CHR ''+'')"
  by (simp_all add: is_digit_def)

section \<open>Lists and association lists\<close>

lemma takeWhile_all: "(\<And>x. x \<in> set xs \<Longrightarrow> P x) \<Longrightarrow> takeWhile P xs = xs"
  by (simp add: takeWhile_eq_all_conv)

lemma min_is_0: "min a b = (0 :: nat) \<longleftrightarrow> a = 0 \<or> b = 0"
  by (auto simp: min_def)

lemma map_of_delete_other [simp]: "k \<noteq> k' \<Longrightarrow> map_of (AList.delete k al) k' = map_of al k'"
  by (simp add: delete_conv')

lemma map_of_delete_same [simp]: "map_of (AList.delete k al) k = None"
  by (simp add: delete_conv')

lemma keys_delete: "fst ` set (AList.delete k al) = fst ` set al - {k}"
  by (metis delete_keys list.set_map removeAll_filter_not_eq set_removeAll)

text \<open>\<open>fmt::join\<close> over strings.\<close>

fun fmt_join :: "string \<Rightarrow> string list \<Rightarrow> string" where
  "fmt_join sep [] = []"
| "fmt_join sep [x] = x"
| "fmt_join sep (x # y # zs) = x @ sep @ fmt_join sep (y # zs)"

lemma fmt_join_Cons: "ys \<noteq> [] \<Longrightarrow> fmt_join sep (x # ys) = x @ sep @ fmt_join sep ys"
  by (cases ys) auto

end
