(* ===== verification/Util.thy ===== *)
theory Util
  imports Prelude
begin

text \<open>
  \<open>common/Util.h\<close>: splitting a line on a delimiter with \<open>std::getline\<close>, and reading the
  instance number off the \<open>HOSTNAME\<close> of a stateful-set container.
\<close>

section \<open>split\<close>

text \<open>
  A \<open>std::istringstream\<close> is the text not yet extracted and whether the stream is still
  good; reading past the end sets \<open>eofbit\<close>, after which every extraction fails.
\<close>

record istream =
  rest :: string
  good :: bool

text \<open>
  \<open>std::getline(stream, s, delim)\<close>: the characters up to the delimiter, which is
  extracted and dropped, or up to the end, which clears \<open>good\<close>. The extraction fails when
  the stream is not good or when it extracts no character at all.
\<close>

definition getline :: "char \<Rightarrow> istream \<Rightarrow> string option \<times> istream" where
  "getline delim st =
     (if \<not> good st then (None, st)
      else let line = takeWhile (\<lambda>c. c \<noteq> delim) (rest st);
               after = dropWhile (\<lambda>c. c \<noteq> delim) (rest st)
           in if after = []
              then (if line = [] then None else Some line, \<lparr>rest = [], good = False\<rparr>)
              else (Some line, \<lparr>rest = tl after, good = True\<rparr>))"

lemma getline_shrinks:
  "getline delim st = (Some s, st') \<Longrightarrow>
     length (rest st') + (if good st' then 1 else 0) < length (rest st) + (if good st then 1 else (0::nat))"
proof -
  assume a: "getline delim st = (Some s, st')"
  let ?after = "dropWhile (\<lambda>c. c \<noteq> delim) (rest st)"
  from a have g: "good st" by (auto simp: getline_def split: if_splits)
  show ?thesis
  proof (cases "?after = []")
    case True
    then have "st' = \<lparr>rest = [], good = False\<rparr>" using a g by (simp add: getline_def Let_def split: if_splits)
    then show ?thesis using g by simp
  next
    case False
    then have "st' = \<lparr>rest = tl ?after, good = True\<rparr>" using a g by (simp add: getline_def del: dropWhile_eq_Nil_conv)
    moreover have "length ?after \<le> length (rest st)" by (rule length_dropWhile_le)
    moreover have "length (tl ?after) < length ?after" using False by (cases ?after) auto
    ultimately show ?thesis using g by simp
  qed
qed

function split_loop :: "char \<Rightarrow> istream \<Rightarrow> string list \<Rightarrow> string list" where
  "split_loop delim st strings =
     (case getline delim st of
        (None, _) \<Rightarrow> strings
      | (Some s, st') \<Rightarrow> split_loop delim st' (strings @ [s]))"
  by pat_completeness auto
termination
  by (relation "measure (\<lambda>(d, st, _). length (rest st) + (if good st then 1 else 0))")
     (auto dest!: sym[of "(_, _)" "getline _ _"] getline_shrinks)

declare split_loop.simps [simp del]

definition split :: "string \<Rightarrow> char \<Rightarrow> string list" where
  "split str delim = split_loop delim \<lparr>rest = str, good = True\<rparr> []"

text \<open>The reference: all fields of a text, one more than it has delimiters.\<close>

fun delim_fields :: "char \<Rightarrow> string \<Rightarrow> string list" where
  "delim_fields d [] = [[]]"
| "delim_fields d (c # cs) =
     (if c = d then [] # delim_fields d cs
      else (c # hd (delim_fields d cs)) # tl (delim_fields d cs))"

text \<open>\<open>split\<close> keeps every field but an empty last one.\<close>

definition drop_empty_last :: "string list \<Rightarrow> string list" where
  "drop_empty_last fs = (if last fs = [] then butlast fs else fs)"

lemma fields_nonempty [simp]: "delim_fields d cs \<noteq> []"
  by (cases cs) auto

lemma fields_step:
  "delim_fields d cs =
     (if dropWhile (\<lambda>c. c \<noteq> d) cs = [] then [takeWhile (\<lambda>c. c \<noteq> d) cs]
      else takeWhile (\<lambda>c. c \<noteq> d) cs # delim_fields d (tl (dropWhile (\<lambda>c. c \<noteq> d) cs)))"
  by (induction cs) auto

lemma split_loop_done: "split_loop d \<lparr>rest = r, good = False\<rparr> acc = acc"
  by (simp add: split_loop.simps[of d "\<lparr>rest = r, good = False\<rparr>"] getline_def)

lemma split_loop_good:
  "split_loop d \<lparr>rest = cs, good = True\<rparr> acc = acc @ drop_empty_last (delim_fields d cs)"
proof (induction "length cs" arbitrary: cs acc rule: less_induct)
  case less
  let ?line = "takeWhile (\<lambda>c. c \<noteq> d) cs" and ?after = "dropWhile (\<lambda>c. c \<noteq> d) cs"
  show ?case
  proof (cases "?after = []")
    case True
    then have "?line = cs" by (metis takeWhile_dropWhile_id append_Nil2)
    then show ?thesis using True
      by (subst split_loop.simps)
         (simp add: getline_def fields_step[of d cs] drop_empty_last_def split_loop_done del: dropWhile_eq_Nil_conv)
  next
    case False
    have "length ?after \<le> length cs" by (rule length_dropWhile_le)
    with False have "length (tl ?after) < length cs" by (cases ?after) auto
    from less[OF this] False show ?thesis
      by (subst split_loop.simps)
         (simp add: getline_def fields_step[of d cs] drop_empty_last_def del: dropWhile_eq_Nil_conv)
  qed
qed

lemma split_fields: "split cs d = drop_empty_last (delim_fields d cs)"
  by (simp add: split_def split_loop_good)

text \<open>Joining with the delimiter inverts \<open>delim_fields\<close>, in both directions.\<close>

lemma fields_no_delim: "d \<notin> set p \<Longrightarrow> delim_fields d p = [p]"
  by (induction p) auto

lemma fields_append_delim: "d \<notin> set p \<Longrightarrow> delim_fields d (p @ d # cs) = p # delim_fields d cs"
  by (induction p) auto

lemma fields_fmt_join:
  "ps \<noteq> [] \<Longrightarrow> \<forall>p \<in> set ps. d \<notin> set p \<Longrightarrow> delim_fields d (fmt_join [d] ps) = ps"
proof (induction "[d]" ps rule: fmt_join.induct)
  case (3 x y zs)
  then show ?case by (simp add: fields_append_delim)
qed (auto simp: fields_no_delim)

lemma fmt_join_fields: "fmt_join [d] (delim_fields d cs) = cs"
proof (induction cs)
  case (Cons c cs)
  have hd_extend: "fmt_join [d] ((c # hd fs) # tl fs) = c # fmt_join [d] fs" if "fs \<noteq> []" for fs
  proof -
    from \<open>fs \<noteq> []\<close> obtain f fs' where "fs = f # fs'" by (cases fs) auto
    then show ?thesis by (cases fs') auto
  qed
  show ?case using Cons hd_extend[of "delim_fields d cs"] by (auto simp: fmt_join_Cons)
qed simp

lemma last_fields_empty_iff: "last (delim_fields d cs) = [] \<longleftrightarrow> cs = [] \<or> last cs = d"
proof (induction cs)
  case Nil
  then show ?case by simp
next
  case (Cons c cs)
  show ?case
  proof (cases "c = d \<or> tl (delim_fields d cs) \<noteq> []")
    case True
    then have "last (delim_fields d (c # cs)) = last (delim_fields d cs)" by (auto simp: last_tl)
    moreover have "c \<noteq> d \<Longrightarrow> cs \<noteq> []" using True by auto
    ultimately show ?thesis using Cons.IH by auto
  next
    case False
    then obtain f where f: "delim_fields d cs = [f]" by (cases "delim_fields d cs") auto
    then have "f = cs" using fmt_join_fields[of d cs] by simp
    then show ?thesis using False f Cons.IH by auto
  qed
qed

section \<open>getContainerInstance\<close>

text \<open>\<open>std::string::find_last_of\<close> for one character; \<open>None\<close> is \<open>npos\<close>.\<close>

fun find_last_of :: "string \<Rightarrow> char \<Rightarrow> nat option" where
  "find_last_of [] x = None"
| "find_last_of (c # cs) x =
     (case find_last_of cs x of
        Some p \<Rightarrow> Some (Suc p)
      | None \<Rightarrow> if c = x then Some 0 else None)"

lemma find_last_of_None [simp]: "find_last_of cs x = None \<longleftrightarrow> x \<notin> set cs"
  by (induction cs) (auto split: option.splits)

lemma find_last_of_append: "x \<notin> set q \<Longrightarrow> find_last_of (p @ x # q) x = Some (length p)"
  by (induction p) (auto split: option.splits)

definition is_space :: "char \<Rightarrow> bool" where
  "is_space c \<longleftrightarrow> c = CHR '' '' \<or> (9 \<le> (of_char c :: nat) \<and> (of_char c :: nat) \<le> 13)"

text \<open>
  What the conversions of the C library read from a text in base 10: leading blanks, an
  optional sign, then digits; \<open>None\<close> when there is no digit, otherwise whether the sign is a
  minus, and the magnitude.
\<close>

definition read_number :: "string \<Rightarrow> (bool \<times> nat) option" where
  "read_number s =
     (let s1 = dropWhile is_space s;
          neg = (s1 \<noteq> [] \<and> hd s1 = CHR ''-'');
          s2 = (if s1 \<noteq> [] \<and> (hd s1 = CHR ''-'' \<or> hd s1 = CHR ''+'') then tl s1 else s1);
          ds = takeWhile is_digit s2
      in if ds = [] then None else Some (neg, digits_value ds))"

text \<open>
  \<open>std::stoul\<close> and \<open>std::stoull\<close> in base 10, where \<open>unsigned long\<close> has 64 bits: no digit throws
  \<open>invalid_argument\<close>, a magnitude past the range \<open>out_of_range\<close>, and a minus sign negates
  modulo \<open>2 ^ 64\<close>. \<open>std::stoi\<close> reads the same text and throws past the range of \<open>int\<close>.
\<close>

definition stoul :: "string \<Rightarrow> 64 word outcome" where
  "stoul s =
     (case read_number s of
        None \<Rightarrow> Inl (StdException ''invalid_argument'')
      | Some (neg, n) \<Rightarrow>
          if 2 ^ 64 \<le> n then Inl (StdException ''out_of_range'')
          else Inr (if neg then - of_nat n else of_nat n))"

definition stoi :: "string \<Rightarrow> int outcome" where
  "stoi s =
     (case read_number s of
        None \<Rightarrow> Inl (StdException ''invalid_argument'')
      | Some (neg, n) \<Rightarrow>
          let i = (if neg then - int n else int n)
          in if i < - (2 ^ 31) \<or> 2 ^ 31 \<le> i then Inl (StdException ''out_of_range'') else Inr i)"

text \<open>
  \<open>getContainerInstance\<close>: the argument is what \<open>getenv("HOSTNAME")\<close> returned. A null
  pointer given to the \<open>std::string\<close> constructor is undefined behaviour; any exception of
  \<open>stoul\<close> is contained and leaves the result 0.
\<close>

definition getContainerInstance :: "string option \<Rightarrow> 32 word outcome" where
  "getContainerInstance env_HOSTNAME =
     (case env_HOSTNAME of
        None \<Rightarrow> Inl (Undefined ''std::string from a null pointer'')
      | Some hostname \<Rightarrow>
          (case find_last_of hostname (CHR ''-'') of
             None \<Rightarrow> Inr 0
           | Some pos \<Rightarrow>
               (case stoul (drop (pos + 1) hostname) of
                  Inl _ \<Rightarrow> Inr 0
                | Inr n \<Rightarrow> Inr (ucast n))))"

lemma not_space_digit: "is_digit c \<Longrightarrow> \<not> is_space c"
  by (auto simp: is_digit_def is_space_def)

lemma read_number_show_nat [simp]: "read_number (show_nat n) = Some (False, n)"
proof -
  obtain c cs where show_n: "show_nat n = c # cs" by (cases "show_nat n") auto
  have "is_digit c" using show_nat_digits[of c n] show_n by simp
  then have head: "\<not> is_space c" "c \<noteq> CHR ''-''" "c \<noteq> CHR ''+''"
    by (auto simp: not_space_digit is_digit_def)
  have all: "takeWhile is_digit cs = cs"
    by (rule takeWhile_all) (use show_nat_digits[of _ n] show_n in auto)
  have "digits_value (c # cs) = n" by (simp flip: show_n)
  with head all \<open>is_digit c\<close> show ?thesis 
    by (simp add: read_number_def show_n Let_def del: takeWhile_eq_all_conv)
qed

lemma stoul_show_nat:
  "stoul (show_nat n) =
     (if n < 2 ^ 64 then Inr (of_nat n) else Inl (StdException ''out_of_range''))"
  by (simp add: stoul_def not_le)

section \<open>Standard input\<close>

text \<open>
  \<open>std::getline(std::cin, line)\<close> on the lines still to come: at the end of the input it fails
  and leaves the freshly constructed string empty; none of the callers looks at the stream.
\<close>

fun read_line :: "string list \<Rightarrow> string \<times> string list" where
  "read_line [] = ([], [])"
| "read_line (line # stdin) = (line, stdin)"

section \<open>Properties\<close>

lemma fields_have_no_delim: "p \<in> set (delim_fields d cs) \<Longrightarrow> d \<notin> set p"
proof (induction cs arbitrary: p)
  case (Cons c cs)
  have "hd (delim_fields d cs) \<in> set (delim_fields d cs)" by simp
  moreover have "set (tl (delim_fields d cs)) \<subseteq> set (delim_fields d cs)"
    by (cases "delim_fields d cs") auto
  ultimately show ?case using Cons by (auto split: if_splits)
qed simp

lemma fmt_join_drop_last:
  "fs \<noteq> [] \<Longrightarrow> fmt_join [d] (drop_empty_last fs) =
     (if last fs = [] then butlast (fmt_join [d] fs) else fmt_join [d] fs)"
proof (induction "[d]" fs rule: fmt_join.induct)
  case (3 x y zs)
  then show ?case
    by (cases zs) (auto simp: drop_empty_last_def butlast_append split: if_splits)
qed (auto simp: drop_empty_last_def)

lemma split_pieces: "p \<in> set (split s d) \<Longrightarrow> d \<notin> set p"
  by (auto simp: split_fields drop_empty_last_def dest!: fields_have_no_delim in_set_butlastD split: if_splits)

text \<open>C37: \<open>split\<close> loses nothing but a trailing delimiter. Joining the pieces with the
  delimiter gives back the text, except that a delimiter at the very end is dropped, and no
  piece contains the delimiter.\<close>

theorem split_rejoin:
  "fmt_join [d] (split s d) = (if s \<noteq> [] \<and> last s = d then butlast s else s) \<and>
     d \<notin> \<Union> (set ` set (split s d))"
proof -
  have "d \<notin> \<Union> (set ` set (split s d))" by (auto dest: split_pieces)
  then show ?thesis
    by (auto simp: split_fields fmt_join_drop_last last_fields_empty_iff fmt_join_fields)
qed

text \<open>
  \<open>split\<close> reads back what was joined: any sequence of fields without the delimiter, the last of
  them not empty, is recovered from the line that joins them.
\<close>

lemma split_fmt_join:
  "ps \<noteq> [] \<Longrightarrow> last ps \<noteq> [] \<Longrightarrow> \<forall>p \<in> set ps. d \<notin> set p \<Longrightarrow> split (fmt_join [d] ps) d = ps"
  by (simp add: split_fields fields_fmt_join drop_empty_last_def)

lemma split_Nil [simp]: "split [] d = []"
  by (simp add: split_fields drop_empty_last_def)

lemma getContainerInstance_suffix:
  "getContainerInstance (Some (set_name @ ''-'' @ show_nat n)) = Inr (if n < 2 ^ 64 then of_nat n else 0)"
proof -
  have "CHR ''-'' \<notin> set (show_nat n)" using show_nat_digits[of "CHR ''-''" n] by auto
  then have pos: "find_last_of (set_name @ CHR ''-'' # show_nat n) (CHR ''-'') = Some (length set_name)"
    by (rule find_last_of_append)
  have "(ucast (of_nat n :: 64 word) :: 32 word) = of_nat n"
    by (simp add: unsigned_of_nat word_of_nat_eq_iff)
  then show ?thesis using pos by (simp add: getContainerInstance_def stoul_show_nat)
qed

text \<open>The instance of a stateful-set container is the number after the last dash of its
  host name, whatever dashes come before: it is read off exactly when it fits \<open>unsigned
  long\<close> (then truncated to 32 bits) and is 0 otherwise. The call is undefined exactly when
  \<open>HOSTNAME\<close> is not set.\<close>

theorem instance_of_hostname:
  "getContainerInstance (Some (set_name @ ''-'' @ show_nat n)) = Inr (if n < 2 ^ 64 then of_nat n else 0) \<and>
     defined (getContainerInstance hostname) = (hostname \<noteq> None)"
  unfolding getContainerInstance_suffix
  by (auto simp: getContainerInstance_def split: option.splits sum.splits)

end
