(* ===== verification/Environment.thy ===== *)
theory Environment
  imports Util
begin

text \<open>
  The boundary of the program. Everything outside \<open>src/\<close> (the kernel's sockets, libzmq,
  the logger) is reached by calls. A run of the program is described by its history, the
  list of the calls it has made so far, oldest first; what a call returns is a parameter:
  an \<open>env\<close> is a collection of functions of the history up to the call, so that any
  behaviour of the outside over time is some \<open>env\<close>, and nothing is assumed of it here.
\<close>

section \<open>Addresses\<close>

text \<open>
  \<open>struct sockaddr_in\<close>: the four bytes of the address in memory (network) order and the
  port as stored, in network order.
\<close>

type_synonym in_addr = "8 word \<times> 8 word \<times> 8 word \<times> 8 word"

record sockaddr_in =
  sin_addr :: in_addr
  sin_port :: "16 word"

definition INADDR_ANY :: in_addr where
  "INADDR_ANY = (0, 0, 0, 0)"

text \<open>\<open>htons\<close> and \<open>ntohs\<close> on a little-endian host swap the two bytes.\<close>

definition htons :: "16 word \<Rightarrow> 16 word" where
  "htons x = of_nat (256 * (unat x mod 256) + unat x div 256)"

definition ntohs :: "16 word \<Rightarrow> 16 word" where
  "ntohs = htons"

lemma unat_lt_65536: "unat (x :: 16 word) < 65536"
proof -
  have "unat x < 2 ^ LENGTH(16)" by (rule unsigned_less)
  then show ?thesis by simp
qed

lemma unat_lt_256: "unat (w :: 8 word) < 256"
proof -
  have "unat w < 2 ^ LENGTH(8)" by (rule unsigned_less)
  then show ?thesis by simp
qed

lemma unat_htons: "unat (htons x) = 256 * (unat x mod 256) + unat x div 256"
proof -
  have "unat x < 65536" by (rule unat_lt_65536)
  then have "unat x div 256 < 256" by (simp add: less_mult_imp_div_less)
  moreover have "unat x mod 256 < 256" by simp
  ultimately have "256 * (unat x mod 256) + unat x div 256 < 65536" by linarith
  then show ?thesis by (simp only: htons_def unat_of_nat) simp
qed

lemma ntohs_htons [simp]: "ntohs (htons x) = x"
proof -
  have "unat x < 65536" by (rule unat_lt_65536)
  then have "unat (htons (htons x)) = unat x" by (simp add: unat_htons)
  then show ?thesis by (simp add: ntohs_def word_unat_eq_iff)
qed

lemma htons_ntohs [simp]: "htons (ntohs x) = x"
  using ntohs_htons[of x] by (simp add: ntohs_def)

text \<open>\<open>inet_ntop(AF_INET, ...)\<close> prints the address as a dotted quad.\<close>

definition inet_ntop :: "in_addr \<Rightarrow> string" where
  "inet_ntop ip = (case ip of (a, b, c, d) \<Rightarrow>
     fmt_join ''.'' [show_nat (unat a), show_nat (unat b), show_nat (unat c), show_nat (unat d)])"

text \<open>
  \<open>inet_pton(AF_INET, ...)\<close> reads a dotted quad of one to three digits per byte;
  \<open>None\<close> is the return value 0, which leaves the destination untouched.
\<close>

definition octet :: "string \<Rightarrow> 8 word option" where
  "octet s =
     (if s \<noteq> [] \<and> length s \<le> 3 \<and> list_all is_digit s \<and> digits_value s < 256
      then Some (of_nat (digits_value s)) else None)"

definition inet_pton :: "string \<Rightarrow> in_addr option" where
  "inet_pton s =
     (case map octet (delim_fields (CHR ''.'') s) of
        [Some a, Some b, Some c, Some d] \<Rightarrow> Some (a, b, c, d)
      | _ \<Rightarrow> None)"

lemma octet_show: "octet (show_nat (unat (w :: 8 word))) = Some w"
proof -
  have "unat w < 256" by (rule unat_lt_256)
  moreover have "length (show_nat n) \<le> 3" if "n < 256" for n
  proof -
    have "n div 100 < 10" "n div 10 div 10 = n div 100" using that by auto
    then show ?thesis
      by (simp add: show_nat.simps[of n] show_nat.simps[of "n div 10"] show_nat.simps[of "n div 100"])
  qed
  ultimately show ?thesis using show_nat_digits by (auto simp: octet_def list_all_iff)
qed

lemma inet_pton_ntop: "inet_pton (inet_ntop ip) = Some ip"
proof -
  obtain a b c d where ip: "ip = (a, b, c, d)" by (cases ip)
  have "CHR ''.'' \<notin> set (show_nat n)" for n
    using show_nat_digits[of "CHR ''.''" n] by (auto simp: is_digit_def)
  then have "delim_fields (CHR ''.'') (inet_ntop ip) =
      [show_nat (unat a), show_nat (unat b), show_nat (unat c), show_nat (unat d)]"
    unfolding ip inet_ntop_def prod.case by (intro fields_fmt_join) auto
  then show ?thesis by (simp add: inet_pton_def octet_show ip)
qed

section \<open>Calls\<close>

datatype level = Info | Err

datatype sockopt = SO_REUSEADDR | SO_RCVBUF | SO_SNDBUF

datatype zsockopt = Subscribe string | Unsubscribe string | Linger int | XpubVerbose int | XpubWelcome string

text \<open>
  ZMQ sockets and connected file descriptors are named by numbers. \<open>Http\<close> calls are those of the
  health server (httplib), \<open>Exposer\<close> calls those of the metrics server (prometheus-cpp).
\<close>

datatype call =
    SysInitialize
  | SysSocket int int int
  | SysSetSockOpt int sockopt int
  | SysBind int sockaddr_in
  | SysListen int int
  | SysAccept int
  | SysConnect int sockaddr_in
  | SysClose int
  | SysSelect int "int set"
  | SysRecv int nat
  | SysSend int string
  | SysSendTo int string sockaddr_in
  | SysGetAddrInfo string
  | SysFreeAddrInfo
  | ZmqConnect nat string
  | ZmqDisconnect nat string
  | ZmqBind nat string
  | ZmqSet nat zsockopt
  | ZmqSend nat "string list"
  | ZmqPoll nat
  | ZmqRecv nat
  | ZmqClose nat
  | ZmqProxy nat nat nat
  | HttpGet string
  | HttpListen string "16 word"
  | HttpStop
  | ExposerStart string
  | ExposerRegister
  | Sleep nat
  | Log level string

type_synonym history = "call list"

text \<open>
  What the outside answers, given the history before the call:
  \<open>int_result\<close> the returned integer of a socket call; \<open>errno_of\<close> the value of \<open>errno\<close>;
  \<open>ready_fds\<close> the descriptors \<open>select\<close> finds readable; \<open>recv_bytes\<close> the bytes \<open>recv\<close> has
  for a descriptor (\<open>None\<close> when it fails); \<open>peer_addr\<close> the address of an accepted peer;
  \<open>resolved\<close> the addresses of a resolved name; \<open>zmq_throws\<close> the errno a ZMQ call throws, if
  it does; \<open>zmq_sent\<close> and \<open>zmq_received\<close> whether a multipart send or receive on a socket has a value;
  \<open>exposer_throws\<close> what the constructor of the metrics exposer throws, if it does; \<open>running_flag\<close>
  the flag a signal handler clears; \<open>zmq_pollin\<close> whether the poll of a socket reports
  \<open>ZMQ_POLLIN\<close>; \<open>zmq_frames\<close> the parts received from a socket; \<open>zmq_strerror\<close> the text of a ZMQ error (\<open>e.what()\<close>).
\<close>

record env =
  int_result :: "history \<Rightarrow> call \<Rightarrow> int"
  errno_of :: "history \<Rightarrow> int"
  ready_fds :: "history \<Rightarrow> int set"
  recv_bytes :: "history \<Rightarrow> int \<Rightarrow> string option"
  peer_addr :: "history \<Rightarrow> sockaddr_in"
  resolved :: "history \<Rightarrow> string \<Rightarrow> in_addr list"
  zmq_throws :: "history \<Rightarrow> call \<Rightarrow> int option"
  zmq_sent :: "history \<Rightarrow> nat \<Rightarrow> bool"
  zmq_received :: "history \<Rightarrow> nat \<Rightarrow> bool"
  zmq_pollin :: "history \<Rightarrow> nat \<Rightarrow> bool"
  zmq_frames :: "history \<Rightarrow> nat \<Rightarrow> string list"
  zmq_strerror :: "int \<Rightarrow> string"
  exposer_throws :: "history \<Rightarrow> string \<Rightarrow> string option"
  running_flag :: "history \<Rightarrow> bool"

definition log_info :: "string \<Rightarrow> history \<Rightarrow> history" where
  "log_info msg h = h @ [Log Info msg]"

definition log_error :: "string \<Rightarrow> history \<Rightarrow> history" where
  "log_error msg h = h @ [Log Err msg]"

text \<open>A ZMQ call that only reports failure, by throwing.\<close>

definition zmq_call :: "env \<Rightarrow> call \<Rightarrow> history \<Rightarrow> unit outcome \<times> history" where
  "zmq_call e c h = (case zmq_throws e h c of None \<Rightarrow> Inr () | Some n \<Rightarrow> Inl (ZmqError n), h @ [c])"

text \<open>
  \<open>zmq::send_multipart\<close>: throws, or returns a result that may be empty.
  \<open>zmq::recv_multipart\<close>: throws, or returns the parts read and whether the result has a value.
\<close>

definition send_multipart :: "env \<Rightarrow> nat \<Rightarrow> string list \<Rightarrow> history \<Rightarrow> bool outcome \<times> history" where
  "send_multipart e sock parts h =
     (let c = ZmqSend sock parts
      in (case zmq_throws e h c of None \<Rightarrow> Inr (zmq_sent e h sock) | Some n \<Rightarrow> Inl (ZmqError n), h @ [c]))"

definition recv_multipart :: "env \<Rightarrow> nat \<Rightarrow> history \<Rightarrow> (bool \<times> string list) outcome \<times> history" where
  "recv_multipart e sock h =
     (let c = ZmqRecv sock
      in (case zmq_throws e h c of None \<Rightarrow> Inr (zmq_received e h sock, zmq_frames e h sock)
          | Some n \<Rightarrow> Inl (ZmqError n), h @ [c]))"

definition zmq_poll :: "env \<Rightarrow> nat \<Rightarrow> history \<Rightarrow> bool outcome \<times> history" where
  "zmq_poll e sock h =
     (let c = ZmqPoll sock
      in (case zmq_throws e h c of None \<Rightarrow> Inr (zmq_pollin e h sock) | Some n \<Rightarrow> Inl (ZmqError n), h @ [c]))"

text \<open>Sending on a closed \<open>zmq::socket_t\<close> fails with this errno.\<close>

definition ENOTSOCK :: int where "ENOTSOCK = 88"

lemma zmq_call_history [simp]: "snd (zmq_call e c h) = h @ [c]"
  by (simp add: zmq_call_def)

lemmas zmq_defs [io_simps] =
  zmq_call_def send_multipart_def [unfolded Let_def] recv_multipart_def [unfolded Let_def]
  zmq_poll_def [unfolded Let_def] log_info_def log_error_def

section \<open>Open descriptors\<close>

text \<open>
  The descriptors the program has obtained and not yet closed, read off the history: a
  successful \<open>socket\<close> or \<open>accept\<close> opens one, \<open>close\<close> releases it. The kernel never hands
  out a descriptor that is open, and reports failure as -1; \<open>posix_fds\<close> states that of an
  \<open>env\<close>.
\<close>

fun open_fds_rev :: "env \<Rightarrow> call list \<Rightarrow> int set" where
  "open_fds_rev e [] = {}"
| "open_fds_rev e (c # cs) =
     (case c of
        SysSocket _ _ _ \<Rightarrow>
          (if int_result e (rev cs) c = -1 then open_fds_rev e cs
           else insert (int_result e (rev cs) c) (open_fds_rev e cs))
      | SysAccept _ \<Rightarrow>
          (if int_result e (rev cs) c = -1 then open_fds_rev e cs
           else insert (int_result e (rev cs) c) (open_fds_rev e cs))
      | SysClose fd \<Rightarrow> open_fds_rev e cs - {fd}
      | _ \<Rightarrow> open_fds_rev e cs)"

definition open_fds :: "env \<Rightarrow> history \<Rightarrow> int set" where
  "open_fds e h = open_fds_rev e (rev h)"

definition new_fd_ok :: "env \<Rightarrow> history \<Rightarrow> call \<Rightarrow> bool" where
  "new_fd_ok e h c \<longleftrightarrow>
     int_result e h c = -1 \<or> (0 \<le> int_result e h c \<and> int_result e h c \<notin> open_fds e h)"

definition posix_fds :: "env \<Rightarrow> bool" where
  "posix_fds e \<longleftrightarrow>
     (\<forall>h. (\<forall>d t p. new_fd_ok e h (SysSocket d t p)) \<and> (\<forall>fd. new_fd_ok e h (SysAccept fd)))"

text \<open>Calls that neither open nor close a descriptor.\<close>

fun fd_neutral :: "call \<Rightarrow> bool" where
  "fd_neutral (SysSocket _ _ _) = False"
| "fd_neutral (SysAccept _) = False"
| "fd_neutral (SysClose _) = False"
| "fd_neutral _ = True"

lemma open_fds_Nil [simp]: "open_fds e [] = {}"
  by (simp add: open_fds_def)

lemma open_fds_neutral [simp]: "fd_neutral c \<Longrightarrow> open_fds e (h @ [c]) = open_fds e h"
  by (cases c) (auto simp: open_fds_def)

lemma open_fds_close [simp]: "open_fds e (h @ [SysClose fd]) = open_fds e h - {fd}"
  by (simp add: open_fds_def)

lemma open_fds_accept [simp]:
  "open_fds e (h @ [SysAccept fd]) =
     (if int_result e h (SysAccept fd) = -1 then open_fds e h
      else insert (int_result e h (SysAccept fd)) (open_fds e h))"
  by (simp add: open_fds_def)

lemma open_fds_socket [simp]:
  "open_fds e (h @ [SysSocket d t p]) =
     (if int_result e h (SysSocket d t p) = -1 then open_fds e h
      else insert (int_result e h (SysSocket d t p)) (open_fds e h))"
  by (simp add: open_fds_def)

lemma open_fds_log [simp]:
  "open_fds e (log_info m h) = open_fds e h" "open_fds e (log_error m h) = open_fds e h"
  by (simp_all add: log_info_def log_error_def)

lemma open_fds_append_neutral:
  "list_all fd_neutral cs \<Longrightarrow> open_fds e (h @ cs) = open_fds e h"
proof (induction cs rule: rev_induct)
  case (snoc c cs)
  then have "open_fds e ((h @ cs) @ [c]) = open_fds e (h @ cs)" by (intro open_fds_neutral) simp
  with snoc show ?case by simp
qed simp

lemma posix_accept:
  "posix_fds e \<Longrightarrow> int_result e h (SysAccept fd) \<noteq> -1 \<Longrightarrow>
     0 \<le> int_result e h (SysAccept fd) \<and> int_result e h (SysAccept fd) \<notin> open_fds e h"
  by (auto simp: posix_fds_def new_fd_ok_def)

lemma posix_socket:
  "posix_fds e \<Longrightarrow> int_result e h (SysSocket d t p) \<noteq> -1 \<Longrightarrow>
     0 \<le> int_result e h (SysSocket d t p) \<and> int_result e h (SysSocket d t p) \<notin> open_fds e h"
  by (auto simp: posix_fds_def new_fd_ok_def)

section \<open>Extensions of a history\<close>

text \<open>The calls from \<open>h\<close> to \<open>h'\<close> all satisfy \<open>P\<close>.\<close>

definition ext_by :: "(call \<Rightarrow> bool) \<Rightarrow> history \<Rightarrow> history \<Rightarrow> bool" where
  "ext_by P h h' \<longleftrightarrow> (\<exists>cs. h' = h @ cs \<and> list_all P cs)"

lemma ext_by_refl [simp]: "ext_by P h h"
  by (simp add: ext_by_def)

lemma ext_by_snoc: "ext_by P h h' \<Longrightarrow> P c \<Longrightarrow> ext_by P h (h' @ [c])"
  by (auto simp: ext_by_def)

lemma ext_by_trans [trans]: "ext_by P h h' \<Longrightarrow> ext_by P h' h'' \<Longrightarrow> ext_by P h h''"
  by (auto simp: ext_by_def)

lemma ext_by_mono: "ext_by P h h' \<Longrightarrow> (\<And>c. P c \<Longrightarrow> Q c) \<Longrightarrow> ext_by Q h h'"
  by (auto simp: ext_by_def list_all_iff)

lemma ext_by_for_each:
  assumes "for_each f xs (s, h) = (r, s', h')"
    and "\<And>x s h r s' h'. f x (s, h) = (r, s', h') \<Longrightarrow> ext_by P h h'"
  shows "ext_by P h h'"
  using assms(1)
proof (induction xs arbitrary: s h)
  case Nil
  then show ?case by simp
next
  case (Cons x xs)
  obtain r1 s1 h1 where step: "f x (s, h) = (r1, s1, h1)" by (cases "f x (s, h)")
  note ext = assms(2)[OF step]
  show ?case
  proof (cases r1)
    case (Inl err)
    then show ?thesis using Cons.prems step ext by simp
  next
    case (Inr u)
    then have "for_each f xs (s1, h1) = (r, s', h')" using Cons.prems step by simp
    from Cons.IH[OF this] ext show ?thesis by (blast intro: ext_by_trans)
  qed
qed

text \<open>The calls publishing a message makes.\<close>

fun publishing :: "call \<Rightarrow> bool" where
  "publishing (ZmqSend _ _) = True"
| "publishing (Log _ _) = True"
| "publishing _ = False"

section \<open>Received data\<close>

text \<open>
  The data the program has read from its sockets, oldest first, with the descriptor each
  piece came from: what each \<open>recv\<close> of the history that did not fail or find the end of the
  stream has stored in its buffer.
\<close>

definition received_by :: "env \<Rightarrow> history \<Rightarrow> call \<Rightarrow> (int \<times> string) list" where
  "received_by e h c =
     (case c of
        SysRecv fd len \<Rightarrow>
          (case recv_bytes e h fd of
             None \<Rightarrow> []
           | Some bytes \<Rightarrow> if take len bytes = [] then [] else [(fd, take len bytes)])
      | _ \<Rightarrow> [])"

fun received_rev :: "env \<Rightarrow> call list \<Rightarrow> (int \<times> string) list" where
  "received_rev e [] = []"
| "received_rev e (c # cs) = received_rev e cs @ received_by e (rev cs) c"

definition received :: "env \<Rightarrow> history \<Rightarrow> (int \<times> string) list" where
  "received e h = received_rev e (rev h)"

lemma received_snoc: "received e (h @ [c]) = received e h @ received_by e h c"
  by (simp add: received_def)

lemma received_Nil [simp]: "received e [] = []"
  by (simp add: received_def)

fun no_recv :: "call \<Rightarrow> bool" where
  "no_recv (SysRecv _ _) = False"
| "no_recv _ = True"

lemma received_by_other [simp]: "no_recv c \<Longrightarrow> received_by e h c = []"
  by (cases c) (simp_all add: received_by_def)

lemma publishing_no_recv: "publishing c \<Longrightarrow> no_recv c"
  by (cases c) simp_all

lemma received_append_other: "list_all no_recv cs \<Longrightarrow> received e (h @ cs) = received e h"
proof (induction cs rule: rev_induct)
  case (snoc c cs)
  then have "received e ((h @ cs) @ [c]) = received e (h @ cs)"
    unfolding received_snoc by simp
  with snoc show ?case by simp
qed simp

lemma received_ext: "ext_by P h h' \<Longrightarrow> (\<And>c. P c \<Longrightarrow> no_recv c) \<Longrightarrow> received e h' = received e h"
  by (auto simp: ext_by_def list_all_iff intro!: received_append_other)

section \<open>A concrete outside\<close>

text \<open>
  A kernel that numbers new descriptors upwards from 3, accepts every call, delivers no
  data, and a libzmq that accepts every message: the base of the concrete runs below.
\<close>

definition next_fd :: "history \<Rightarrow> int" where
  "next_fd h = 3 + int (length (filter (\<lambda>c. \<not> fd_neutral c) h))"

fun quiet_int :: "history \<Rightarrow> call \<Rightarrow> int" where
  "quiet_int h (SysSocket _ _ _) = next_fd h"
| "quiet_int h (SysAccept _) = next_fd h"
| "quiet_int h (SysSend _ msg) = int (length msg)"
| "quiet_int h _ = 0"

definition quiet_env :: env where
  "quiet_env =
     \<lparr>int_result = quiet_int,
      errno_of = (\<lambda>_. 0),
      ready_fds = (\<lambda>_. {}),
      recv_bytes = (\<lambda>_ _. Some []),
      peer_addr = (\<lambda>_. \<lparr>sin_addr = (10, 0, 0, 7), sin_port = htons 4242\<rparr>),
      resolved = (\<lambda>_ _. [(127, 0, 0, 1)]),
      zmq_throws = (\<lambda>_ _. None),
      zmq_sent = (\<lambda>_ _. True),
      zmq_received = (\<lambda>_ _. True),
      zmq_pollin = (\<lambda>_ _. False),
      zmq_frames = (\<lambda>_ _. []),
      zmq_strerror = (\<lambda>_. ''error''),
      exposer_throws = (\<lambda>_ _. None),
      running_flag = (\<lambda>_. True)\<rparr>"

text \<open>Any outside that numbers descriptors this way behaves as a kernel does.\<close>

definition numbers_fds :: "env \<Rightarrow> bool" where
  "numbers_fds e \<longleftrightarrow>
     (\<forall>h. (\<forall>d t p. int_result e h (SysSocket d t p) = next_fd h) \<and>
          (\<forall>fd. int_result e h (SysAccept fd) = next_fd h))"

lemma numbers_fds_quiet [simp]: "numbers_fds quiet_env"
  by (simp add: numbers_fds_def quiet_env_def)

lemma open_fds_below: "numbers_fds e \<Longrightarrow> fd \<in> open_fds e h \<Longrightarrow> fd < next_fd h"
proof (induction h rule: rev_induct)
  case (snoc c h)
  then show ?case
    by (cases c) (auto simp: open_fds_def next_fd_def numbers_fds_def split: if_splits)
qed simp

lemma posix_fds_numbers: "numbers_fds e \<Longrightarrow> posix_fds e"
  unfolding posix_fds_def new_fd_ok_def
  using open_fds_below[of e] by (fastforce simp: next_fd_def numbers_fds_def)

end
