(* ===== verification/Publisher.thy ===== *)
theory Publisher
  imports Environment
begin

text \<open>
  \<open>common/Publisher.h\<close> and \<open>common/Publisher.cpp\<close>: a PUB socket with a Prometheus counter of
  the messages handed to it. \<open>pub_total\<close> counts the \<open>Increment\<close> calls on the counter
  registered as \<open>topic = all\<close>; \<open>pub_open\<close> is whether the \<open>zmq::socket_t\<close> still has a handle.
\<close>

record Publisher =
  pub_socket :: nat
  pub_open :: bool
  pub_total :: nat

text \<open>The constructor connects the socket; a failing connect is only logged.\<close>

definition Publisher_new :: "env \<Rightarrow> nat \<Rightarrow> string \<Rightarrow> history \<Rightarrow> Publisher \<times> history" where
  "Publisher_new e sock endpoint h =
     (let h = log_info (''Publisher Connecting to '' @ endpoint) h;
          (r, h) = zmq_call e (ZmqConnect sock endpoint) h;
          h = (case r of
                 Inl (ZmqError n) \<Rightarrow>
                   log_error (''Error connecting to '' @ endpoint @ ''. Error is '' @ zmq_strerror e n) h
               | _ \<Rightarrow> h)
      in (\<lparr>pub_socket = sock, pub_open = True, pub_total = 0\<rparr>, h))"

text \<open>\<open>send_multipart\<close> on this publisher's socket; a closed socket throws.\<close>

definition pub_send :: "env \<Rightarrow> string list \<Rightarrow> Publisher \<times> history \<Rightarrow> bool outcome \<times> Publisher \<times> history" where
  "pub_send e parts ph =
     (case ph of (p, h) \<Rightarrow>
        if \<not> pub_open p then (Inl (ZmqError ENOTSOCK), p, h)
        else let (r, h) = send_multipart e (pub_socket p) parts h in (r, p, h))"

text \<open>\<open>publishMsg(topic, appMsg)\<close>.\<close>

definition publishMsg :: "env \<Rightarrow> string \<Rightarrow> string \<Rightarrow> Publisher \<times> history \<Rightarrow> unit outcome \<times> Publisher \<times> history" where
  "publishMsg e topic appMsg ph =
     andThen (pub_send e [topic, appMsg] ph) (\<lambda>res (p, h).
       let p = p\<lparr>pub_total := pub_total p + 1\<rparr>;
           h = (if \<not> res then log_error (''Error publishing message to topic '' @ topic) h else h)
       in (Inr (), p, h))"

text \<open>\<open>publishMsg(topics, appMsg)\<close>: one send per topic, in the vector's order.\<close>

definition publishMsgs :: "env \<Rightarrow> string list \<Rightarrow> string \<Rightarrow> Publisher \<times> history \<Rightarrow> unit outcome \<times> Publisher \<times> history" where
  "publishMsgs e topics appMsg =
     for_each (\<lambda>topic ph.
       andThen (pub_send e [topic, appMsg] ph) (\<lambda>res (p, h).
         let p = p\<lparr>pub_total := pub_total p + 1\<rparr>;
             h = (if \<not> res then log_error (''Error publishing message to topic '' @ topic) h else h)
         in (Inr (), p, h))) topics"

definition Publisher_Stop :: "Publisher \<Rightarrow> history \<Rightarrow> Publisher \<times> history" where
  "Publisher_Stop p h =
     (if pub_open p then (p\<lparr>pub_open := False\<rparr>, h @ [ZmqClose (pub_socket p)]) else (p, h))"

definition Publisher_delete :: "Publisher \<Rightarrow> history \<Rightarrow> Publisher \<times> history" where
  "Publisher_delete p h = Publisher_Stop p h"

section \<open>Messages on the wire\<close>

text \<open>The multipart messages a socket was given, oldest first.\<close>

definition sent_on :: "nat \<Rightarrow> history \<Rightarrow> string list list" where
  "sent_on sock h =
     List.map_filter (\<lambda>c. case c of ZmqSend k parts \<Rightarrow> if k = sock then Some parts else None | _ \<Rightarrow> None) h"

lemma sent_on_append [simp]: "sent_on sock (h @ h') = sent_on sock h @ sent_on sock h'"
  by (simp add: sent_on_def List.map_filter_def)

lemma sent_on_simps [simp]:
  "sent_on sock [] = []"
  "sent_on sock (ZmqSend k parts # h) = (if k = sock then parts # sent_on sock h else sent_on sock h)"
  "sent_on sock (Log l m # h) = sent_on sock h"
  "sent_on sock (ZmqClose k # h) = sent_on sock h"
  "sent_on sock (ZmqConnect k ep # h) = sent_on sock h"
  "sent_on sock (ZmqDisconnect k ep # h) = sent_on sock h"
  "sent_on sock (ZmqPoll k # h) = sent_on sock h"
  "sent_on sock (ZmqRecv k # h) = sent_on sock h"
  "sent_on sock (SysRecv fd len # h) = sent_on sock h"
  "sent_on sock (SysSend fd msg # h) = sent_on sock h"
  by (simp_all add: sent_on_def List.map_filter_def)

lemma publishMsgs_single: "publishMsgs e [topic] msg = publishMsg e topic msg"
  by (rule ext) (auto simp: publishMsgs_def publishMsg_def andThen_def split: prod.splits sum.splits)

lemma publishMsgs_fold: "publishMsgs e topics msg = for_each (\<lambda>topic. publishMsg e topic msg) topics"
  by (simp only: publishMsgs_def publishMsg_def [abs_def])

lemma publishMsg_ok:
  assumes "publishMsg e topic msg (p, h) = (Inr (), p', h')"
  shows "p' = p\<lparr>pub_total := pub_total p + 1\<rparr>" and "pub_open p"
    and "\<exists>logs. h' = h @ ZmqSend (pub_socket p) [topic, msg] # logs \<and> (\<forall>c \<in> set logs. \<exists>l m. c = Log l m)"
  using assms
  by (auto simp: publishMsg_def pub_send_def andThen_def zmq_defs Let_def
      split: if_splits option.splits prod.splits sum.splits)

lemma sent_on_logs: "\<forall>c \<in> set logs. \<exists>l m. c = Log l m \<Longrightarrow> sent_on sock logs = []"
  by (induction logs) auto

lemma publishMsgs_ok:
  assumes "publishMsgs e topics msg (p, h) = (Inr (), p', h')"
  shows "p' = p\<lparr>pub_total := pub_total p + length topics\<rparr> \<and>
     sent_on (pub_socket p) h' = sent_on (pub_socket p) h @ map (\<lambda>t. [t, msg]) topics"
  using assms unfolding publishMsgs_fold
proof (induction topics arbitrary: p h)
  case Nil
  then show ?case by simp
next
  case (Cons t topics)
  then obtain p1 h1 where step: "publishMsg e t msg (p, h) = (Inr (), p1, h1)"
    and rest: "for_each (\<lambda>topic. publishMsg e topic msg) topics (p1, h1) = (Inr (), p', h')"
    by (auto simp: andThen_ok_iff)
  from publishMsg_ok[OF step] obtain logs where
    "p1 = p\<lparr>pub_total := pub_total p + 1\<rparr>" "h1 = h @ ZmqSend (pub_socket p) [t, msg] # logs"
    "sent_on (pub_socket p) logs = []"
    by (auto simp: sent_on_logs)
  with Cons.IH[OF rest] show ?case by simp
qed

section \<open>Properties\<close>

lemma publishMsg_cases:
  assumes "publishMsg e topic msg (p, h) = (r, p', h')" and "pub_open p"
  shows "sent_on (pub_socket p) h' = sent_on (pub_socket p) h @ [[topic, msg]]"
    and "p' = (if r = Inr () then p\<lparr>pub_total := pub_total p + 1\<rparr> else p)"
  using assms
  by (auto simp: publishMsg_def pub_send_def andThen_def zmq_defs Let_def
      split: if_splits option.splits prod.splits sum.splits)

text \<open>C30: publishing to several topics hands the message to the socket once per topic, in the
  order of the vector. When a send throws, the topics before it have been served and counted,
  the one it failed on is not counted, and the ones behind it are not attempted.\<close>

theorem publish_each_topic_once:
  assumes "publishMsgs e topics msg (p, h) = (r, p', h')" and "pub_open p"
  shows "if r = Inr ()
     then sent_on (pub_socket p) h' = sent_on (pub_socket p) h @ map (\<lambda>t. [t, msg]) topics \<and>
          pub_total p' = pub_total p + length topics
     else \<exists>k < length topics.
          sent_on (pub_socket p) h' = sent_on (pub_socket p) h @ map (\<lambda>t. [t, msg]) (take (Suc k) topics) \<and>
          pub_total p' = pub_total p + k"
  using assms unfolding publishMsgs_fold
proof (induction topics arbitrary: p h)
  case Nil
  then show ?case by simp
next
  case (Cons t topics)
  obtain r1 p1 h1 where step: "publishMsg e t msg (p, h) = (r1, p1, h1)" by (cases "publishMsg e t msg (p, h)")
  note eff = publishMsg_cases[OF step Cons.prems(2)]
  show ?case
  proof (cases r1)
    case (Inl err)
    then show ?thesis using Cons.prems(1) step eff by (intro if_not_P[THEN iffD2]) auto
  next
    case (Inr u)
    then have rest: "for_each (\<lambda>topic. publishMsg e topic msg) topics (p1, h1) = (r, p', h')"
      using Cons.prems(1) step by simp
    have p1: "p1 = p\<lparr>pub_total := pub_total p + 1\<rparr>" using eff(2) Inr by simp
    note tail = Cons.IH[OF rest]
    show ?thesis
    proof (cases "r = Inr ()")
      case True
      then show ?thesis using tail eff(1) Cons.prems(2) by (simp add: p1)
    next
      case False
      then obtain k where "k < length topics"
        "sent_on (pub_socket p) h' = sent_on (pub_socket p) h1 @ map (\<lambda>t. [t, msg]) (take (Suc k) topics)"
        "pub_total p' = pub_total p1 + k"
        using tail Cons.prems(2) by (auto simp: p1)
      with False eff(1) show ?thesis by (auto simp: p1 intro!: exI[of _ "Suc k"])
    qed
  qed
qed

definition sample_publisher :: Publisher where
  "sample_publisher = fst (Publisher_new quiet_env 0 ''inproc://sub'' [])"

text \<open>A socket that refuses topic \<open>b\<close>.\<close>

definition refusing_env :: env where
  "refusing_env = quiet_env\<lparr>zmq_throws := (\<lambda>_ c. if c = ZmqSend 0 [''b'', ''x''] then Some 11 else None)\<rparr>"

theorem publish_each_topic_once_witness:
  "\<exists>p' h'. publishMsgs refusing_env [''a'', ''b'', ''c''] ''x'' (sample_publisher, []) = (Inl (ZmqError 11), p', h') \<and>
     (\<exists>k < 3. sent_on 0 h' = map (\<lambda>t. [t, ''x'']) (take (Suc k) [''a'', ''b'', ''c'']) \<and> pub_total p' = k)"
proof -
  have pub: "pub_open sample_publisher" "pub_socket sample_publisher = 0" "pub_total sample_publisher = 0"
    by (simp_all add: sample_publisher_def Publisher_new_def Let_def zmq_defs)
  have "\<exists>p' h'. publishMsgs refusing_env [''a'', ''b'', ''c''] ''x'' (sample_publisher, []) = (Inl (ZmqError 11), p', h')"
    using pub by (simp add: publishMsgs_def pub_send_def zmq_defs Let_def refusing_env_def quiet_env_def)
  then obtain p' h' where run: "publishMsgs refusing_env [''a'', ''b'', ''c''] ''x'' (sample_publisher, []) = (Inl (ZmqError 11), p', h')"
    by blast
  from publish_each_topic_once[OF run pub(1)]
  have "\<exists>k < 3. sent_on 0 h' = map (\<lambda>t. [t, ''x'']) (take (Suc k) [''a'', ''b'', ''c'']) \<and> pub_total p' = k"
    using pub by simp
  with run show ?thesis by blast
qed

end
