(* ===== verification/Sender.thy ===== *)
theory Sender
  imports Publisher
begin

text \<open>
  \<open>common/Sender.h\<close> and \<open>common/Sender.cpp\<close>: a PUSH socket that is disconnected and connected
  again after every tenth message, so that a Kubernetes service can rebalance it.
\<close>

record Sender =
  snd_socket :: nat
  snd_open :: bool
  snd_endpoint :: string
  snd_count :: "32 word"
  snd_total :: nat

definition Sender_new :: "env \<Rightarrow> nat \<Rightarrow> string \<Rightarrow> history \<Rightarrow> Sender \<times> history" where
  "Sender_new e sock endpoint h =
     (let h = log_info (''Sender Connecting to '' @ endpoint) h;
          (r, h) = zmq_call e (ZmqConnect sock endpoint) h;
          h = (case r of
                 Inl (ZmqError n) \<Rightarrow>
                   log_error (''Error connecting to '' @ endpoint @ ''. Error is '' @ zmq_strerror e n) h
               | _ \<Rightarrow> h)
      in (\<lparr>snd_socket = sock, snd_open = True, snd_endpoint = endpoint, snd_count = 0, snd_total = 0\<rparr>, h))"

text \<open>The reconnection, inside its own \<open>try\<close>: a failing disconnect skips the connect.\<close>

definition reconnect :: "env \<Rightarrow> Sender \<Rightarrow> history \<Rightarrow> history" where
  "reconnect e s h =
     snd (catch_zmq
       (andThen (zmq_call e (ZmqDisconnect (snd_socket s) (snd_endpoint s))
                  (log_info (''Sender Reonnecting to '' @ snd_endpoint s) h))
         (\<lambda>_. zmq_call e (ZmqConnect (snd_socket s) (snd_endpoint s))))
       (\<lambda>n h. (Inr (),
         log_error (''Error reconnecting to '' @ snd_endpoint s @ ''. Error is '' @ zmq_strerror e n) h)))"

text \<open>\<open>sendMsg\<close>: an exception of the send leaves before anything is counted.\<close>

definition sendMsg :: "env \<Rightarrow> string \<Rightarrow> Sender \<times> history \<Rightarrow> unit outcome \<times> Sender \<times> history" where
  "sendMsg e appMsg sh =
     (case sh of (s, h) \<Rightarrow>
      if \<not> snd_open s then (Inl (ZmqError ENOTSOCK), s, h)
      else
      (case send_multipart e (snd_socket s) [appMsg] h of
         (Inl err, h) \<Rightarrow> (Inl err, s, h)
       | (Inr res, h) \<Rightarrow>
           let s = s\<lparr>snd_total := snd_total s + 1\<rparr>;
               h = (if \<not> res then log_error ''Error sending message'' h else h);
               s = s\<lparr>snd_count := snd_count s + 1\<rparr>
           in if snd_count s mod 10 = 0
              then let s = s\<lparr>snd_count := 0\<rparr> in (Inr (), s, reconnect e s h)
              else (Inr (), s, h)))"

definition Sender_Stop :: "Sender \<Rightarrow> history \<Rightarrow> Sender \<times> history" where
  "Sender_Stop s h =
     (if snd_open s then (s\<lparr>snd_open := False\<rparr>, h @ [ZmqClose (snd_socket s)]) else (s, h))"

definition Sender_delete :: "Sender \<Rightarrow> history \<Rightarrow> Sender \<times> history" where
  "Sender_delete s h = Sender_Stop s h"

section \<open>The reconnection schedule\<close>

text \<open>How often the socket has been told to disconnect.\<close>

definition disconnects :: "nat \<Rightarrow> history \<Rightarrow> nat" where
  "disconnects sock h = length (filter (\<lambda>c. \<exists>ep. c = ZmqDisconnect sock ep) h)"

lemma disconnects_append [simp]: "disconnects sock (h @ h') = disconnects sock h + disconnects sock h'"
  by (simp add: disconnects_def)

lemma disconnects_simps [simp]:
  "disconnects sock [] = 0"
  "disconnects sock (ZmqDisconnect k ep # h) = (if k = sock then Suc (disconnects sock h) else disconnects sock h)"
  "disconnects sock (ZmqSend k parts # h) = disconnects sock h"
  "disconnects sock (ZmqConnect k ep # h) = disconnects sock h"
  "disconnects sock (Log l m # h) = disconnects sock h"
  by (auto simp: disconnects_def)

lemma reconnect_effect:
  "disconnects (snd_socket s) (reconnect e s h) = Suc (disconnects (snd_socket s) h)"
  "sent_on sock (reconnect e s h) = sent_on sock h"
  by (auto simp: reconnect_def zmq_defs catch_zmq_def andThen_def split: option.splits)

definition send_all :: "env \<Rightarrow> string list \<Rightarrow> Sender \<times> history \<Rightarrow> unit outcome \<times> Sender \<times> history" where
  "send_all e msgs = for_each (sendMsg e) msgs"

lemma word_below_ten_step:
  assumes "unat (c :: 32 word) < 10"
  shows "(c + 1) mod 10 = 0 \<longleftrightarrow> unat c = 9" and "unat (c + 1) = unat c + 1"
proof -
  show u: "unat (c + 1) = unat c + 1"
    using assms by (subst unat_word_ariths) simp
  have "(c + 1) mod 10 = 0 \<longleftrightarrow> unat ((c + 1) mod 10) = 0" by (simp add: unat_eq_0)
  also have "\<dots> \<longleftrightarrow> (unat c + 1) mod 10 = 0" using u by (simp add: unat_mod)
  also have "\<dots> \<longleftrightarrow> unat c = 9" using assms by presburger
  finally show "(c + 1) mod 10 = 0 \<longleftrightarrow> unat c = 9" .
qed

lemma sendMsg_ok:
  assumes ok: "sendMsg e msg (s, h) = (Inr (), s', h')" and c: "unat (snd_count s) < 10"
  shows "unat (snd_count s') = (unat (snd_count s) + 1) mod 10"
    and "disconnects (snd_socket s) h' = disconnects (snd_socket s) h + (unat (snd_count s) + 1) div 10"
    and "sent_on (snd_socket s) h' = sent_on (snd_socket s) h @ [[msg]]"
    and "snd_total s' = snd_total s + 1" and "snd_socket s' = snd_socket s"
proof -
  let ?s = "s\<lparr>snd_total := snd_total s + 1, snd_count := snd_count s + 1\<rparr>"
  define logs where "logs = (if zmq_sent e h (snd_socket s) then [] else [Log Err ''Error sending message''])"
  have logs: "\<forall>c \<in> set logs. \<exists>l m. c = Log l m" by (simp add: logs_def)
  have h': "h' = (if (snd_count s + 1) mod 10 = 0
         then reconnect e (?s\<lparr>snd_count := 0\<rparr>) (h @ ZmqSend (snd_socket s) [msg] # logs)
         else h @ ZmqSend (snd_socket s) [msg] # logs)"
    and s': "s' = (if (snd_count s + 1) mod 10 = 0 then ?s\<lparr>snd_count := 0\<rparr> else ?s)"
    using ok by (auto simp: sendMsg_def zmq_defs Let_def logs_def split: if_splits option.splits)
  have logs': "disconnects k logs = 0" "sent_on k logs = []" for k
    using logs by (auto simp: disconnects_def sent_on_logs filter_empty_conv)
  note step = word_below_ten_step[OF c]
  show "unat (snd_count s') = (unat (snd_count s) + 1) mod 10"
    using step c by (auto simp: s')
  show "disconnects (snd_socket s) h' = disconnects (snd_socket s) h + (unat (snd_count s) + 1) div 10"
    using step c reconnect_effect(1)[of "?s\<lparr>snd_count := 0\<rparr>"] by (auto simp: h' logs')
  show "sent_on (snd_socket s) h' = sent_on (snd_socket s) h @ [[msg]]"
    by (auto simp: h' reconnect_effect logs')
  show "snd_total s' = snd_total s + 1" "snd_socket s' = snd_socket s" by (auto simp: s')
qed

lemma div_carry: "(a :: nat) div 10 + (a mod 10 + n) div 10 = (a + n) div 10"
proof -
  have "(a + n) div 10 = ((a mod 10 + n) + (a div 10) * 10) div 10"
    by (metis add.assoc add.commute mod_mult_div_eq mult.commute)
  also have "\<dots> = a div 10 + (a mod 10 + n) div 10" by (rule div_mult_self1) simp
  finally show ?thesis by (rule sym)
qed

lemma send_all_ok:
  assumes "send_all e msgs (s, h) = (Inr (), s', h')" and "unat (snd_count s) < 10"
  shows "unat (snd_count s') = (unat (snd_count s) + length msgs) mod 10 \<and>
    disconnects (snd_socket s) h' = disconnects (snd_socket s) h + (unat (snd_count s) + length msgs) div 10 \<and>
    sent_on (snd_socket s) h' = sent_on (snd_socket s) h @ map (\<lambda>m. [m]) msgs \<and>
    snd_total s' = snd_total s + length msgs \<and> snd_socket s' = snd_socket s"
  using assms unfolding send_all_def
proof (induction msgs arbitrary: s h)
  case Nil
  then show ?case by simp
next
  case (Cons m msgs)
  from Cons.prems(1) obtain s1 h1 where step: "sendMsg e m (s, h) = (Inr (), s1, h1)"
    and rest: "for_each (sendMsg e) msgs (s1, h1) = (Inr (), s', h')"
    by (auto simp: andThen_ok_iff)
  note one = sendMsg_ok[OF step Cons.prems(2)]
  have "unat (snd_count s1) < 10" using one(1) by simp
  note tail = Cons.IH[OF rest this]
  have "(unat (snd_count s) + 1) div 10 + ((unat (snd_count s) + 1) mod 10 + length msgs) div 10 =
      (unat (snd_count s) + length (m # msgs)) div 10"
    using div_carry[of "unat (snd_count s) + 1" "length msgs"] by simp
  with one tail show ?case by (auto simp: mod_simps)
qed

section \<open>Properties\<close>



end
