(* ===== verification/Subscriber.thy ===== *)
theory Subscriber
  imports Publisher "HOL-Library.Multiset"
begin

text \<open>
  \<open>common/Subscriber.h\<close>: the SUB socket, its thread \<open>Run\<close>, and the contract of the class it
  delivers messages to (template parameter \<open>T\<close>).
\<close>

record Subscriber =
  sub_socket :: nat
  sub_open :: bool
  sub_shutdown :: bool
  sub_endpoints :: "string list"
  sub_count :: "32 word"
  sub_topics :: "string list"
  sub_total :: nat
  sub_joinable :: bool

text \<open>The constructor; the thread it starts is \<open>sub_Run\<close> below.\<close>

definition Subscriber_new :: "nat \<Rightarrow> string list \<Rightarrow> string list \<Rightarrow> Subscriber" where
  "Subscriber_new sock endpoints topics =
     \<lparr>sub_socket = sock, sub_open = True, sub_shutdown = False, sub_endpoints = endpoints,
      sub_count = 0, sub_topics = topics, sub_total = 0, sub_joinable = True\<rparr>"

definition Subscriber_Stop :: "Subscriber \<Rightarrow> Subscriber" where
  "Subscriber_Stop s =
     (if sub_joinable s then s\<lparr>sub_shutdown := True, sub_joinable := False\<rparr> else s)"

definition Subscriber_delete :: "Subscriber \<Rightarrow> Subscriber" where
  "Subscriber_delete s = Subscriber_Stop s"

text \<open>Setting a socket option on a closed socket throws.\<close>

definition sub_set :: "env \<Rightarrow> zsockopt \<Rightarrow> Subscriber \<Rightarrow> history \<Rightarrow> unit outcome \<times> history" where
  "sub_set e opt s h =
     (if sub_open s then zmq_call e (ZmqSet (sub_socket s) opt) h else (Inl (ZmqError ENOTSOCK), h))"

definition Subscriber_Subscribe :: "env \<Rightarrow> string \<Rightarrow> Subscriber \<Rightarrow> history \<Rightarrow> unit outcome \<times> history" where
  "Subscriber_Subscribe e topic s h = sub_set e (Subscribe topic) s h"

definition Subscriber_Unsubscribe :: "env \<Rightarrow> string \<Rightarrow> Subscriber \<Rightarrow> history \<Rightarrow> unit outcome \<times> history" where
  "Subscriber_Unsubscribe e topic s h = sub_set e (Unsubscribe topic) s h"

definition Subscriber_Count :: "Subscriber \<Rightarrow> 32 word" where
  "Subscriber_Count s = sub_count s"

section \<open>Run\<close>

definition WELCOME_TOPIC :: string where "WELCOME_TOPIC = [CHR 0xF3, CHR 0x00, CHR 0x00]"
definition CTRL_TOPIC :: string where "CTRL_TOPIC = ''ctrl''"

text \<open>The part before the loop, inside one \<open>try\<close>.\<close>

definition sub_setup_try :: "env \<Rightarrow> Subscriber \<Rightarrow> history \<Rightarrow> unit outcome \<times> history" where
  "sub_setup_try e s h =
     andThen (sub_set e (Subscribe WELCOME_TOPIC) s h) (\<lambda>_ h.
     andThen (sub_set e (Subscribe CTRL_TOPIC) s h) (\<lambda>_ h.
     andThen (sub_set e (Linger 0) s h) (\<lambda>_ h.
     andThen (for_each (\<lambda>endpoint. zmq_call e (ZmqConnect (sub_socket s) endpoint)) (sub_endpoints s)
        (log_info (''Subscriber Connecting to '' @ fmt_join '', '' (sub_endpoints s)) h)) (\<lambda>_ h.
     for_each (\<lambda>topic h.
        andThen (sub_set e (Subscribe topic) s h) (\<lambda>_ h.
          (Inr (), log_info (''Subscribing to topic '' @ topic) h))) (sub_topics s) h))))"

definition sub_setup :: "env \<Rightarrow> Subscriber \<Rightarrow> history \<Rightarrow> unit outcome \<times> history" where
  "sub_setup e s h =
     catch_zmq (sub_setup_try e s h) (\<lambda>n h. (Inr (),
       log_error (''Error connecting to '' @ fmt_join '', '' (sub_endpoints s) @ ''. Error is '' @ zmq_strerror e n) h))"

text \<open>The class messages are delivered to: it acts on its own state and the history.\<close>

record 't target =
  onReceivedMessage :: "string list \<Rightarrow> 't \<times> history \<Rightarrow> unit outcome \<times> 't \<times> history"
  onCtrlMessage :: "string list \<Rightarrow> 't \<times> history \<Rightarrow> unit outcome \<times> 't \<times> history"

type_synonym 't sub_state = "Subscriber \<times> 't \<times> history"

text \<open>
  What the loop does with a received message. \<open>True\<close> is "go on with the loop": \<open>continue\<close> and
  the end of the body alike. Both \<open>continue\<close>s skip \<open>m_count++\<close>.
\<close>

definition sub_dispatch :: "'t target \<Rightarrow> string list \<Rightarrow> 't sub_state \<Rightarrow> bool outcome \<times> 't sub_state" where
  "sub_dispatch tg msgs st =
     (case st of (s, t, h) \<Rightarrow>
      (case msgs of
         [] \<Rightarrow> (Inl (Undefined ''msgs[0] of an empty vector''), s, t, h)
       | topic # _ \<Rightarrow>
         if topic = WELCOME_TOPIC then (Inr True, s, t, log_info ''WELCOME_MSG received'' h)
         else if topic = CTRL_TOPIC then
           (case onCtrlMessage tg msgs (t, h) of
              (Inl err, t, h) \<Rightarrow> (Inl err, s, t, h)
            | (Inr _, t, h) \<Rightarrow> (Inr True, s, t, h))
         else
           let s = s\<lparr>sub_total := sub_total s + 1\<rparr> in
           (case onReceivedMessage tg msgs (t, h) of
              (Inl err, t, h) \<Rightarrow> (Inl err, s, t, h)
            | (Inr _, t, h) \<Rightarrow> (Inr True, s\<lparr>sub_count := sub_count s + 1\<rparr>, t, h))))"

text \<open>The body of the loop's \<open>try\<close>.\<close>

definition sub_body :: "env \<Rightarrow> 't target \<Rightarrow> 't sub_state \<Rightarrow> bool outcome \<times> 't sub_state" where
  "sub_body e tg st =
     (case st of (s, t, h) \<Rightarrow>
      (case zmq_poll e (sub_socket s) h of
         (Inl err, h) \<Rightarrow> (Inl err, s, t, h)
       | (Inr pollin, h) \<Rightarrow>
         if \<not> pollin then (Inr True, s\<lparr>sub_count := sub_count s + 1\<rparr>, t, h)
         else
         (case recv_multipart e (sub_socket s) h of
            (Inl err, h) \<Rightarrow> (Inl err, s, t, h)
          | (Inr (res, msgs), h) \<Rightarrow>
            let h = (if \<not> res then log_error ''Error receiving'' h else h)
            in sub_dispatch tg msgs (s, t, h))))"

text \<open>The \<open>catch\<close> logs and leaves the loop.\<close>

definition sub_iteration :: "env \<Rightarrow> 't target \<Rightarrow> 't sub_state \<Rightarrow> bool outcome \<times> 't sub_state" where
  "sub_iteration e tg st =
     catch_zmq (sub_body e tg st) (\<lambda>n (s, t, h).
       (Inr False, s, t, log_error (''Caught exception '' @ zmq_strerror e n) h))"

definition sub_close :: "'t sub_state \<Rightarrow> 't sub_state" where
  "sub_close st = (case st of (s, t, h) \<Rightarrow>
     (s\<lparr>sub_open := False\<rparr>, t, if sub_open s then h @ [ZmqClose (sub_socket s)] else h))"

text \<open>
  The loop for at most \<open>fuel\<close> iterations: \<open>True\<close> when the thread has ended and closed its
  socket, \<open>False\<close> when it is still running.
\<close>

fun sub_loop :: "nat \<Rightarrow> env \<Rightarrow> 't target \<Rightarrow> 't sub_state \<Rightarrow> bool outcome \<times> 't sub_state" where
  "sub_loop 0 e tg st = (Inr False, st)"
| "sub_loop (Suc fuel) e tg st =
     (if sub_shutdown (fst st) then (Inr True, sub_close st)
      else andThen (sub_iteration e tg st)
             (\<lambda>go st. if go then sub_loop fuel e tg st else (Inr True, sub_close st)))"

definition sub_Run :: "nat \<Rightarrow> env \<Rightarrow> 't target \<Rightarrow> 't sub_state \<Rightarrow> bool outcome \<times> 't sub_state" where
  "sub_Run fuel e tg st =
     (case st of (s, t, h) \<Rightarrow>
      (case sub_setup e s h of
         (Inl err, h) \<Rightarrow> (Inl err, s, t, h)
       | (Inr _, h) \<Rightarrow> sub_loop fuel e tg (s, t, h)))"

section \<open>What a received message does\<close>

datatype delivery = Idle | Welcome | Control | Application | Empty

definition delivery_of :: "env \<Rightarrow> nat \<Rightarrow> history \<Rightarrow> delivery" where
  "delivery_of e sock h =
     (if \<not> zmq_pollin e h sock then Idle
      else case zmq_frames e (h @ [ZmqPoll sock]) sock of
             [] \<Rightarrow> Empty
           | topic # _ \<Rightarrow> if topic = WELCOME_TOPIC then Welcome
                         else if topic = CTRL_TOPIC then Control else Application)"

lemma sub_iteration_counts:
  assumes "sub_iteration e tg (s, t, h) = (Inr True, s', t', h')"
  shows "sub_count s' = sub_count s + (if delivery_of e (sub_socket s) h \<in> {Idle, Application} then 1 else 0)"
    and "sub_total s' = sub_total s + (if delivery_of e (sub_socket s) h = Application then 1 else 0)"
    and "s' = s\<lparr>sub_count := sub_count s', sub_total := sub_total s'\<rparr>"
  using assms
  by (auto simp: sub_iteration_def catch_zmq_def sub_body_def sub_dispatch_def delivery_of_def zmq_defs Let_def
      split: option.splits if_splits list.splits prod.splits sum.splits error.splits)

lemma sub_iteration_socket:
  "sub_iteration e tg st = (Inr go, st') \<Longrightarrow> sub_socket (fst st') = sub_socket (fst st)"
  by (auto simp: sub_iteration_def catch_zmq_def sub_body_def sub_dispatch_def zmq_defs Let_def
      split: option.splits if_splits list.splits prod.splits sum.splits error.splits)

section \<open>The contract of the target\<close>

text \<open>An operation that, if it fails, throws a \<open>zmq::error_t\<close> and nothing else.\<close>

definition only_zmq :: "'a outcome \<Rightarrow> bool" where
  "only_zmq r \<longleftrightarrow> (case r of Inl (ZmqError _) \<Rightarrow> True | Inl _ \<Rightarrow> False | Inr _ \<Rightarrow> True)"

lemma only_zmq_simps [simp]:
  "only_zmq (Inr a)" "only_zmq (Inl (ZmqError n))" "\<not> only_zmq (Inl (StdException m))"
  "\<not> only_zmq (Inl (Undefined m))" "\<not> only_zmq (Inl (Terminated m))" "\<not> only_zmq (Inl (Exit n))"
  by (simp_all add: only_zmq_def)

lemma only_zmq_andThen:
  "only_zmq (fst r) \<Longrightarrow> (\<And>a s. r = (Inr a, s) \<Longrightarrow> only_zmq (fst (f a s))) \<Longrightarrow> only_zmq (fst (andThen r f))"
  by (cases r; cases "fst r") (auto simp: andThen_def only_zmq_def split: error.splits)

lemma only_zmq_for_each:
  "(\<And>x s. only_zmq (fst (f x s))) \<Longrightarrow> only_zmq (fst (for_each f xs s))"
  by (induction xs arbitrary: s) (auto intro!: only_zmq_andThen)

text \<open>
  A target whose handlers accept every message of a topic and a payload: they may throw what
  libzmq throws, but nothing else.
\<close>

locale message_target =
  fixes tg :: "'t target"
  assumes received_law: "2 \<le> length msgs \<Longrightarrow> only_zmq (fst (onReceivedMessage tg msgs (t, h)))"
    and ctrl_law: "2 \<le> length msgs \<Longrightarrow> only_zmq (fst (onCtrlMessage tg msgs (t, h)))"
begin

text \<open>One iteration never ends in anything but a decision to go on or to stop.\<close>

lemma sub_dispatch_only_zmq:
  assumes "2 \<le> length msgs"
  shows "only_zmq (fst (sub_dispatch tg msgs (s, t, h)))"
proof -
  obtain topic rest where msgs: "msgs = topic # rest" using assms by (cases msgs) auto
  show ?thesis
    using received_law[OF assms, of t h] ctrl_law[OF assms, of t h] unfolding msgs
    by (cases "onReceivedMessage tg (topic # rest) (t, h)"; cases "onCtrlMessage tg (topic # rest) (t, h)")
       (auto simp: sub_dispatch_def Let_def only_zmq_def split: sum.splits error.splits)
qed

lemma sub_body_only_zmq:
  assumes "\<And>h. 2 \<le> length (zmq_frames e h (sub_socket s))"
  shows "only_zmq (fst (sub_body e tg (s, t, h)))"
  using sub_dispatch_only_zmq[OF assms]
  by (auto simp: sub_body_def zmq_defs Let_def split: option.splits)

lemma sub_iteration_returns:
  assumes "\<And>h. 2 \<le> length (zmq_frames e h (sub_socket (fst st)))"
  shows "\<exists>go st'. sub_iteration e tg st = (Inr go, st')"
proof -
  obtain s t h where st: "st = (s, t, h)" by (cases st)
  have "only_zmq (fst (sub_body e tg st))"
    unfolding st by (rule sub_body_only_zmq) (use assms in \<open>simp add: st\<close>)
  then show ?thesis
    by (cases "sub_body e tg st")
       (auto simp: sub_iteration_def catch_zmq_def only_zmq_def split: sum.splits error.splits prod.splits)
qed

lemma sub_loop_returns:
  assumes "\<And>h. 2 \<le> length (zmq_frames e h (sub_socket (fst st)))"
  shows "\<exists>fin. fst (sub_loop fuel e tg st) = Inr fin"
  using assms
proof (induction fuel arbitrary: st)
  case 0
  show ?case by (rule exI[of _ False]) simp
next
  case (Suc fuel)
  obtain go st' where step: "sub_iteration e tg st = (Inr go, st')"
    using sub_iteration_returns[OF Suc.prems] by blast
  have "sub_socket (fst st') = sub_socket (fst st)" by (rule sub_iteration_socket[OF step])
  then have "\<exists>fin. fst (sub_loop fuel e tg st') = Inr fin" using Suc.IH[of st'] Suc.prems by simp
  then show ?case using step by auto
qed

end

section \<open>The filter of the socket\<close>

text \<open>
  A SUB socket keeps its topics as a multiset: each \<open>subscribe\<close> that did not throw adds one
  instance, each \<open>unsubscribe\<close> removes one.
\<close>

definition filter_step :: "env \<Rightarrow> nat \<Rightarrow> history \<Rightarrow> call \<Rightarrow> string multiset \<Rightarrow> string multiset" where
  "filter_step e sock h c F =
     (case c of
        ZmqSet k opt \<Rightarrow>
          if k = sock \<and> zmq_throws e h c = None then
            (case opt of Subscribe t \<Rightarrow> add_mset t F | Unsubscribe t \<Rightarrow> F - {#t#} | _ \<Rightarrow> F)
          else F
      | _ \<Rightarrow> F)"

fun filters_rev :: "env \<Rightarrow> nat \<Rightarrow> call list \<Rightarrow> string multiset" where
  "filters_rev e sock [] = {#}"
| "filters_rev e sock (c # cs) = filter_step e sock (rev cs) c (filters_rev e sock cs)"

definition filters :: "env \<Rightarrow> nat \<Rightarrow> history \<Rightarrow> string multiset" where
  "filters e sock h = filters_rev e sock (rev h)"

lemma filters_snoc: "filters e sock (h @ [c]) = filter_step e sock h c (filters e sock h)"
  by (simp add: filters_def)

lemma filters_Nil [simp]: "filters e sock [] = {#}"
  by (simp add: filters_def)

lemma filter_step_simps [simp]:
  "filter_step e sock h (Log l m) F = F"
  "filter_step e sock h (ZmqConnect k ep) F = F"
  "filter_step e sock h (ZmqSet k (Linger n)) F = F"
  by (simp_all add: filter_step_def)

lemma sub_set_filters:
  assumes "sub_set e opt s h = (Inr (), h')"
  shows "filters e (sub_socket s) h' =
     (case opt of Subscribe t \<Rightarrow> add_mset t (filters e (sub_socket s) h)
      | Unsubscribe t \<Rightarrow> filters e (sub_socket s) h - {#t#}
      | _ \<Rightarrow> filters e (sub_socket s) h)"
  using assms
  by (auto simp: sub_set_def zmq_call_def filters_snoc filter_step_def split: if_splits option.splits zsockopt.splits)

lemma connect_all_filters:
  "for_each (\<lambda>endpoint. zmq_call e (ZmqConnect k endpoint)) endpoints h = (Inr (), h') \<Longrightarrow>
     filters e sock h' = filters e sock h"
proof (induction endpoints arbitrary: h)
  case (Cons ep endpoints)
  then obtain h1 where conn: "zmq_call e (ZmqConnect k ep) h = (Inr (), h1)"
    and rest: "for_each (\<lambda>endpoint. zmq_call e (ZmqConnect k endpoint)) endpoints h1 = (Inr (), h')"
    by (auto simp: andThen_ok_iff)
  have "h1 = h @ [ZmqConnect k ep]" using conn by (simp add: zmq_call_def)
  then show ?case using Cons.IH[OF rest] by (simp add: filters_snoc)
qed simp

lemma subscribe_all_filters:
  "for_each (\<lambda>topic h. andThen (sub_set e (Subscribe topic) s h) (\<lambda>_ h.
        (Inr (), log_info (''Subscribing to topic '' @ topic) h))) topics h = (Inr (), h') \<Longrightarrow>
     filters e (sub_socket s) h' = filters e (sub_socket s) h + mset topics"
proof (induction topics arbitrary: h)
  case (Cons topic topics)
  then obtain h1 where set: "sub_set e (Subscribe topic) s h = (Inr (), h1)"
    and rest: "for_each (\<lambda>topic h. andThen (sub_set e (Subscribe topic) s h) (\<lambda>_ h.
        (Inr (), log_info (''Subscribing to topic '' @ topic) h))) topics
        (log_info (''Subscribing to topic '' @ topic) h1) = (Inr (), h')"
    by (auto simp: andThen_ok_iff)
  show ?case using Cons.IH[OF rest] sub_set_filters[OF set] by (simp add: log_info_def filters_snoc)
qed simp

section \<open>Properties\<close>

text \<open>When nothing throws, the start of the thread leaves the socket subscribed to the
  welcome message, the control topic and every configured topic, once for each time it is
  listed, and to nothing else.\<close>

theorem setup_subscribes_topics:
  assumes "sub_setup_try e s h = (Inr (), h')"
  shows "filters e (sub_socket s) h' =
     filters e (sub_socket s) h + {#WELCOME_TOPIC, CTRL_TOPIC#} + mset (sub_topics s)"
proof -
  obtain h1 h2 h3 h4 where steps: "sub_set e (Subscribe WELCOME_TOPIC) s h = (Inr (), h1)"
    "sub_set e (Subscribe CTRL_TOPIC) s h1 = (Inr (), h2)" "sub_set e (Linger 0) s h2 = (Inr (), h3)"
    "for_each (\<lambda>endpoint. zmq_call e (ZmqConnect (sub_socket s) endpoint)) (sub_endpoints s)
        (log_info (''Subscriber Connecting to '' @ fmt_join '', '' (sub_endpoints s)) h3) = (Inr (), h4)"
    "for_each (\<lambda>topic h. andThen (sub_set e (Subscribe topic) s h) (\<lambda>_ h.
        (Inr (), log_info (''Subscribing to topic '' @ topic) h))) (sub_topics s) h4 = (Inr (), h')"
    using assms unfolding sub_setup_try_def by (auto simp: andThen_ok_iff)
  show ?thesis
    using sub_set_filters[OF steps(1)] sub_set_filters[OF steps(2)] sub_set_filters[OF steps(3)]
      connect_all_filters[OF steps(4)] subscribe_all_filters[OF steps(5)]
    by (simp add: log_info_def filters_snoc)
qed

theorem setup_subscribes_topics_witness:
  "\<exists>h'. sub_setup_try quiet_env (Subscriber_new 1 [''tcp://proxy:9200''] [''a'', ''a'', ''b'']) [] = (Inr (), h') \<and>
     filters quiet_env 1 h' = {#WELCOME_TOPIC, CTRL_TOPIC, ''a'', ''a'', ''b''#}"
proof -
  have "\<exists>h'. sub_setup_try quiet_env (Subscriber_new 1 [''tcp://proxy:9200''] [''a'', ''a'', ''b'']) [] = (Inr (), h')"
    by (simp add: sub_setup_try_def sub_set_def Subscriber_new_def zmq_defs quiet_env_def)
  then obtain h' where run:
    "sub_setup_try quiet_env (Subscriber_new 1 [''tcp://proxy:9200''] [''a'', ''a'', ''b'']) [] = (Inr (), h')" by blast
  from setup_subscribes_topics[OF run] run show ?thesis by (simp add: Subscriber_new_def)
qed

text \<open>What the loop's iterations have met, one entry for each that was completed.\<close>

fun deliveries :: "nat \<Rightarrow> env \<Rightarrow> 't target \<Rightarrow> 't sub_state \<Rightarrow> delivery list" where
  "deliveries 0 e tg st = []"
| "deliveries (Suc fuel) e tg st =
     (if sub_shutdown (fst st) then []
      else case sub_iteration e tg st of
             (Inr True, st') \<Rightarrow> delivery_of e (sub_socket (fst st)) (snd (snd st)) # deliveries fuel e tg st'
           | _ \<Rightarrow> [])"

definition counted :: "delivery \<Rightarrow> bool" where
  "counted d \<longleftrightarrow> d = Idle \<or> d = Application"

lemma sub_loop_counts:
  assumes "sub_loop fuel e tg (s, t, h) = (Inr False, s', t', h')"
  shows "sub_count s' = sub_count s + of_nat (length (filter counted (deliveries fuel e tg (s, t, h)))) \<and>
     sub_total s' = sub_total s + length (filter (\<lambda>d. d = Application) (deliveries fuel e tg (s, t, h))) \<and>
     length (deliveries fuel e tg (s, t, h)) = fuel"
  using assms
proof (induction fuel arbitrary: s t h)
  case 0
  then show ?case by simp
next
  case (Suc fuel)
  then have run: "\<not> sub_shutdown s" by auto
  obtain go s1 t1 h1 where step: "sub_iteration e tg (s, t, h) = (Inr go, s1, t1, h1)"
    using Suc.prems run by (auto simp: andThen_ok_iff)
  with Suc.prems run have "go" by (cases go) (auto simp: sub_close_def)
  with Suc.prems run step have rest: "sub_loop fuel e tg (s1, t1, h1) = (Inr False, s', t', h')" by simp
  have ok: "sub_iteration e tg (s, t, h) = (Inr True, s1, t1, h1)" using step \<open>go\<close> by simp
  note eff = sub_iteration_counts[OF ok]
  have ds: "deliveries (Suc fuel) e tg (s, t, h) = delivery_of e (sub_socket s) h # deliveries fuel e tg (s1, t1, h1)"
    using run ok by simp
  show ?case unfolding ds using Suc.IH[OF rest] eff(1,2) by (simp add: counted_def)
qed

lemmas sub_loop_count = sub_loop_counts [THEN conjunct1]

text \<open>C26: the thread's counter, which the health check watches, counts the polls that timed out
  and the application messages; welcome and control messages do not count. The Prometheus
  counter counts the application messages only. The counter has 32 bits and wraps.\<close>

theorem subscriber_counts_deliveries:
  assumes "sub_loop fuel e tg (s, t, h) = (Inr False, s', t', h')"
  shows "sub_count s' = sub_count s + of_nat (length (filter counted (deliveries fuel e tg (s, t, h)))) \<and>
     sub_total s' = sub_total s + length (filter (\<lambda>d. d = Application) (deliveries fuel e tg (s, t, h))) \<and>
     length (deliveries fuel e tg (s, t, h)) = fuel"
  using assms by (rule sub_loop_counts)

text \<open>A socket that always has a control message.\<close>

definition ctrl_env :: env where
  "ctrl_env = quiet_env\<lparr>zmq_pollin := (\<lambda>_ _. True), zmq_frames := (\<lambda>_ _. [CTRL_TOPIC, ''x''])\<rparr>"

definition mute_target :: "unit target" where
  "mute_target = \<lparr>onReceivedMessage = (\<lambda>_ th. (Inr (), th)), onCtrlMessage = (\<lambda>_ th. (Inr (), th))\<rparr>"

lemma ctrl_iteration:
  "sub_iteration ctrl_env mute_target (s, t, h) = (Inr True, s, t, h @ [ZmqPoll (sub_socket s), ZmqRecv (sub_socket s)])"
  by (simp add: sub_iteration_def sub_body_def sub_dispatch_def ctrl_env_def quiet_env_def mute_target_def zmq_defs
      CTRL_TOPIC_def WELCOME_TOPIC_def)

lemma ctrl_loop:
  "\<not> sub_shutdown s \<Longrightarrow> \<exists>h'. sub_loop fuel ctrl_env mute_target (s, t, h) = (Inr False, s, t, h') \<and>
     deliveries fuel ctrl_env mute_target (s, t, h) = replicate fuel Control"
proof (induction fuel arbitrary: h)
  case (Suc fuel)
  then show ?case using Suc.IH[OF Suc.prems, of "h @ [ZmqPoll (sub_socket s), ZmqRecv (sub_socket s)]"]
    by (auto simp: ctrl_iteration delivery_of_def) (auto simp: ctrl_env_def CTRL_TOPIC_def WELCOME_TOPIC_def)
qed simp

theorem subscriber_counts_deliveries_witness:
  "\<exists>s' h'. sub_loop 7 ctrl_env mute_target (Subscriber_new 1 [] [], (), []) = (Inr False, s', (), h') \<and>
     sub_count s' = 0 \<and> sub_total s' = 0"
proof -
  have "\<not> sub_shutdown (Subscriber_new 1 [] [])" by (simp add: Subscriber_new_def)
  from ctrl_loop[OF this, of 7 "()" "[]"] obtain h' where
    run: "sub_loop 7 ctrl_env mute_target (Subscriber_new 1 [] [], (), []) = (Inr False, Subscriber_new 1 [] [], (), h')"
    and ds: "deliveries 7 ctrl_env mute_target (Subscriber_new 1 [] [], (), []) = replicate 7 Control" by blast
  from subscriber_counts_deliveries[OF run] ds
  have "sub_count (Subscriber_new 1 [] []) = 0 \<and> sub_total (Subscriber_new 1 [] []) = 0"
    by (simp add: counted_def Subscriber_new_def)
  with run show ?thesis by blast
qed

end
