(* ===== verification/Receiver.thy ===== *)
theory Receiver
  imports Subscriber
begin

text \<open>
  \<open>common/Receiver.h\<close>: the PULL socket and its thread. Messages from a PUSH socket have one
  part, so the class it delivers to must take those as well.
\<close>

record Receiver =
  rcv_socket :: nat
  rcv_open :: bool
  rcv_shutdown :: bool
  rcv_endpoint :: string
  rcv_count :: "32 word"
  rcv_total :: nat
  rcv_joinable :: bool

definition Receiver_new :: "nat \<Rightarrow> string \<Rightarrow> Receiver" where
  "Receiver_new sock endpoint =
     \<lparr>rcv_socket = sock, rcv_open = True, rcv_shutdown = False, rcv_endpoint = endpoint,
      rcv_count = 0, rcv_total = 0, rcv_joinable = True\<rparr>"

definition Receiver_Stop :: "Receiver \<Rightarrow> Receiver" where
  "Receiver_Stop r =
     (if rcv_joinable r then r\<lparr>rcv_shutdown := True, rcv_joinable := False\<rparr> else r)"

definition Receiver_delete :: "Receiver \<Rightarrow> Receiver" where
  "Receiver_delete r = Receiver_Stop r"

definition Receiver_Count :: "Receiver \<Rightarrow> 32 word" where
  "Receiver_Count r = rcv_count r"

definition rcv_setup :: "env \<Rightarrow> Receiver \<Rightarrow> history \<Rightarrow> unit outcome \<times> history" where
  "rcv_setup e r h =
     catch_zmq
       (andThen (zmq_call e (ZmqSet (rcv_socket r) (Linger 0)) h) (\<lambda>_ h.
          zmq_call e (ZmqBind (rcv_socket r) (rcv_endpoint r))
            (log_info (''Receiver Binding to '' @ rcv_endpoint r) h)))
       (\<lambda>n h. (Inr (),
          log_error (''Error binding to '' @ rcv_endpoint r @ ''. Error is '' @ zmq_strerror e n) h))"

type_synonym 't rcv_state = "Receiver \<times> 't \<times> history"

definition rcv_body :: "env \<Rightarrow> 't target \<Rightarrow> 't rcv_state \<Rightarrow> bool outcome \<times> 't rcv_state" where
  "rcv_body e tg st =
     (case st of (r, t, h) \<Rightarrow>
      (case zmq_poll e (rcv_socket r) h of
         (Inl err, h) \<Rightarrow> (Inl err, r, t, h)
       | (Inr pollin, h) \<Rightarrow>
         if \<not> pollin then (Inr True, r\<lparr>rcv_count := rcv_count r + 1\<rparr>, t, h)
         else
         (case recv_multipart e (rcv_socket r) h of
            (Inl err, h) \<Rightarrow> (Inl err, r, t, h)
          | (Inr (res, msgs), h) \<Rightarrow>
            let h = (if \<not> res then log_error ''Error receiving'' h else h);
                r = r\<lparr>rcv_total := rcv_total r + 1\<rparr> in
            (case onReceivedMessage tg msgs (t, h) of
               (Inl err, t, h) \<Rightarrow> (Inl err, r, t, h)
             | (Inr _, t, h) \<Rightarrow> (Inr True, r\<lparr>rcv_count := rcv_count r + 1\<rparr>, t, h)))))"

definition rcv_iteration :: "env \<Rightarrow> 't target \<Rightarrow> 't rcv_state \<Rightarrow> bool outcome \<times> 't rcv_state" where
  "rcv_iteration e tg st =
     catch_zmq (rcv_body e tg st) (\<lambda>n (r, t, h).
       (Inr False, r, t, log_error (''Caught exception '' @ zmq_strerror e n) h))"

definition rcv_close :: "'t rcv_state \<Rightarrow> 't rcv_state" where
  "rcv_close st = (case st of (r, t, h) \<Rightarrow>
     (r\<lparr>rcv_open := False\<rparr>, t,
      let h = log_info ''Receiver::Run() exiting'' h
      in if rcv_open r then h @ [ZmqClose (rcv_socket r)] else h))"

fun rcv_loop :: "nat \<Rightarrow> env \<Rightarrow> 't target \<Rightarrow> 't rcv_state \<Rightarrow> bool outcome \<times> 't rcv_state" where
  "rcv_loop 0 e tg st = (Inr False, st)"
| "rcv_loop (Suc fuel) e tg st =
     (if rcv_shutdown (fst st) then (Inr True, rcv_close st)
      else andThen (rcv_iteration e tg st)
             (\<lambda>go st. if go then rcv_loop fuel e tg st else (Inr True, rcv_close st)))"

definition rcv_Run :: "nat \<Rightarrow> env \<Rightarrow> 't target \<Rightarrow> 't rcv_state \<Rightarrow> bool outcome \<times> 't rcv_state" where
  "rcv_Run fuel e tg st =
     (case st of (r, t, h) \<Rightarrow>
      (case rcv_setup e r h of
         (Inl err, h) \<Rightarrow> (Inl err, r, t, h)
       | (Inr _, h) \<Rightarrow> rcv_loop fuel e tg (r, t, h)))"

lemma rcv_iteration_socket:
  "rcv_iteration e tg st = (Inr go, st') \<Longrightarrow> rcv_socket (fst st') = rcv_socket (fst st)"
  by (auto simp: rcv_iteration_def catch_zmq_def rcv_body_def zmq_defs Let_def
      split: option.splits if_splits list.splits prod.splits sum.splits error.splits)

text \<open>A target that also takes messages of one part.\<close>

locale pull_target = message_target tg for tg :: "'t target" +
  assumes single_law: "only_zmq (fst (onReceivedMessage tg [m] (t, h)))"
begin

lemma received_nonempty: "msgs \<noteq> [] \<Longrightarrow> only_zmq (fst (onReceivedMessage tg msgs (t, h)))"
  using single_law[of "hd msgs" t h] received_law[of msgs t h]
  by (cases msgs rule: list.exhaust; cases "tl msgs") auto

lemma rcv_body_only_zmq:
  assumes frames: "\<And>h. zmq_frames e h (rcv_socket r) \<noteq> []"
  shows "only_zmq (fst (rcv_body e tg (r, t, h)))"
proof -
  have "only_zmq (fst (case onReceivedMessage tg msgs (t, h) of
               (Inl err, t, h) \<Rightarrow> (Inl err, r, t, h)
             | (Inr _, t, h) \<Rightarrow> (Inr True, r'\<lparr>rcv_count := rcv_count r' + 1\<rparr>, t, h)))"
    if "msgs \<noteq> []" for msgs h r r'
    using received_nonempty[OF that, of t h]
    by (cases "onReceivedMessage tg msgs (t, h)")
       (auto simp: only_zmq_def split: sum.splits error.splits)
  from this[OF frames] show ?thesis
    by (auto simp: rcv_body_def zmq_defs Let_def split: option.splits)
qed

lemma rcv_iteration_returns:
  assumes "\<And>h. zmq_frames e h (rcv_socket (fst st)) \<noteq> []"
  shows "\<exists>go st'. rcv_iteration e tg st = (Inr go, st')"
proof -
  obtain r t h where st: "st = (r, t, h)" by (cases st)
  have "only_zmq (fst (rcv_body e tg st))"
    unfolding st by (rule rcv_body_only_zmq) (use assms in \<open>simp add: st\<close>)
  then show ?thesis
    by (cases "rcv_body e tg st")
       (auto simp: rcv_iteration_def catch_zmq_def only_zmq_def split: sum.splits error.splits prod.splits)
qed

lemma rcv_loop_returns:
  assumes "\<And>h. zmq_frames e h (rcv_socket (fst st)) \<noteq> []"
  shows "\<exists>fin. fst (rcv_loop fuel e tg st) = Inr fin"
  using assms
proof (induction fuel arbitrary: st)
  case 0
  show ?case by (rule exI[of _ False]) simp
next
  case (Suc fuel)
  obtain go st' where step: "rcv_iteration e tg st = (Inr go, st')"
    using rcv_iteration_returns[OF Suc.prems] by blast
  have "rcv_socket (fst st') = rcv_socket (fst st)" by (rule rcv_iteration_socket[OF step])
  then have "\<exists>fin. fst (rcv_loop fuel e tg st') = Inr fin" using Suc.IH[of st'] Suc.prems by simp
  then show ?case using step by auto
qed

end

end
