(* ===== verification/HealthStatus.thy ===== *)
theory HealthStatus
  imports Environment
begin

text \<open>
  \<open>common/HealthStatus.h\<close>: the liveness endpoint. The HTTP server (httplib) is outside and is
  reached by calls: registering the route, listening (which blocks its thread until the server
  is stopped) and stopping. The source adds the object's life and the handler of \<open>/healthz\<close>,
  which asks the service and answers with a status code. The service is the template parameter
  \<open>T\<close>: its \<open>Health()\<close> reads and may change its own state.
\<close>

section \<open>The object\<close>

record HealthStatus =
  hs_port :: "16 word"
  hs_joinable :: bool

text \<open>The constructor registers the route, then starts the thread that runs \<open>Run\<close>.\<close>

definition HealthStatus_new :: "16 word \<Rightarrow> history \<Rightarrow> HealthStatus \<times> history" where
  "HealthStatus_new port h = (\<lparr>hs_port = port, hs_joinable = True\<rparr>, h @ [HttpGet ''/healthz''])"

definition HealthStatus_Run :: "HealthStatus \<Rightarrow> history \<Rightarrow> history" where
  "HealthStatus_Run hs h = h @ [HttpListen ''0.0.0.0'' (hs_port hs)]"

definition HealthStatus_stop :: "HealthStatus \<Rightarrow> history \<Rightarrow> history" where
  "HealthStatus_stop hs h = h @ [HttpStop]"

text \<open>The destructor stops the server and joins the thread.\<close>

definition HealthStatus_delete :: "HealthStatus \<Rightarrow> history \<Rightarrow> HealthStatus \<times> history" where
  "HealthStatus_delete hs h = (hs\<lparr>hs_joinable := False\<rparr>, h @ [HttpStop])"

section \<open>The handler\<close>

definition HEALTHY :: int where "HEALTHY = 200"
definition UNHEALTHY_BASE :: int where "UNHEALTHY_BASE = 400"

definition healthz :: "('s \<Rightarrow> int \<times> 's) \<Rightarrow> 's \<Rightarrow> int \<times> 's" where
  "healthz Health s =
     (let (health, s) = Health s
      in (if health = 0 then HEALTHY else UNHEALTHY_BASE + health, s))"

text \<open>
  The contract of a service: \<open>Health\<close> returns 0 exactly when the service is well (a
  predicate on its state), and 1 otherwise.
\<close>

locale health_service =
  fixes Health :: "'s \<Rightarrow> int \<times> 's" and well :: "'s \<Rightarrow> bool"
  assumes health_law: "fst (Health s) = (if well s then 0 else 1)"
begin

lemma healthz_status: "fst (healthz Health s) = (if well s then 200 else 401)"
  using health_law[of s] by (cases "Health s") (auto simp: healthz_def HEALTHY_def UNHEALTHY_BASE_def)

lemma healthz_state: "snd (healthz Health s) = snd (Health s)"
  by (simp add: healthz_def split: prod.splits)

end

end
