(* ===== verification/ZmqStack.thy ===== *)
theory ZmqStack
  imports Publisher Sender Receiver HealthStatus
begin

text \<open>
  \<open>common/ZmqStack.h\<close> and \<open>common/ZmqStack.cpp\<close>: the base service, a publisher, a subscriber
  and, when their endpoints are given, a receiver and a sender. \<open>m_subscriptions\<close> is a
  \<open>std::set\<close>. Regions under \<open>m_mutex\<close> are single steps.
\<close>

record ZmqStack =
  zs_name :: string
  zs_subscriptions :: "string set"
  zs_publisher :: Publisher
  zs_subscriber :: Subscriber
  zs_receiver :: "Receiver option"
  zs_sender :: "Sender option"

text \<open>
  The constructor: members in the order of their declaration (publisher, then subscriber,
  whose thread starts here), then the body. The ZMQ sockets it creates are numbered from
  \<open>sock\<close> on.
\<close>

definition ZmqStack_new ::
  "env \<Rightarrow> nat \<Rightarrow> string \<Rightarrow> string list \<Rightarrow> string \<Rightarrow> string \<Rightarrow> string \<Rightarrow> string list \<Rightarrow> history
     \<Rightarrow> ZmqStack \<times> history" where
  "ZmqStack_new e sock name pubEndpoints subEndpoint receiverEndpoint senderEndpoint topics h =
     (let (publisher, h) = Publisher_new e sock subEndpoint h;
          subscriber = Subscriber_new (sock + 1) pubEndpoints topics;
          receiver = (if receiverEndpoint \<noteq> [] then Some (Receiver_new (sock + 2) receiverEndpoint) else None);
          (sender, h) = (if senderEndpoint \<noteq> []
                         then let (s, h) = Sender_new e (sock + 3) senderEndpoint h in (Some s, h)
                         else (None, h))
      in (\<lparr>zs_name = name, zs_subscriptions = set topics, zs_publisher = publisher,
           zs_subscriber = subscriber, zs_receiver = receiver, zs_sender = sender\<rparr>, h))"

text \<open>
  \<open>onReceivedMessage\<close> and \<open>onCtrlMessage\<close> only log; the parts they name must be there.
\<close>

definition ZmqStack_onReceivedMessage :: "string list \<Rightarrow> 'z \<times> history \<Rightarrow> unit outcome \<times> 'z \<times> history" where
  "ZmqStack_onReceivedMessage msgs zh =
     (case zh of (z, h) \<Rightarrow>
      (case msgs of
         [m] \<Rightarrow> (Inr (), z, log_info (''Received message '' @ m) h)
       | m0 # m1 # _ \<Rightarrow> (Inr (), z, log_info (''Received message '' @ m1 @ '' on topic '' @ m0) h)
       | [] \<Rightarrow> (Inl (Undefined ''msgs[1] of a shorter vector''), z, h)))"

definition ZmqStack_onCtrlMessage :: "string list \<Rightarrow> 'z \<times> history \<Rightarrow> unit outcome \<times> 'z \<times> history" where
  "ZmqStack_onCtrlMessage msgs zh =
     (case zh of (z, h) \<Rightarrow>
      (case msgs of
         m0 # m1 # _ \<Rightarrow> (Inr (), z, log_info (''Received ctrl message '' @ m1 @ '' on topic '' @ m0) h)
       | _ \<Rightarrow> (Inl (Undefined ''msgs[1] of a shorter vector''), z, h)))"

text \<open>
  \<open>Subscribe\<close> and \<open>Unsubscribe\<close> update the set before the socket option is set, and keep the
  update when that throws.
\<close>

definition ZmqStack_Subscribe :: "env \<Rightarrow> string \<Rightarrow> ZmqStack \<times> history \<Rightarrow> unit outcome \<times> ZmqStack \<times> history" where
  "ZmqStack_Subscribe e topic zh =
     (case zh of (z, h) \<Rightarrow>
      let z = z\<lparr>zs_subscriptions := insert topic (zs_subscriptions z)\<rparr>;
          (r, h) = Subscriber_Subscribe e topic (zs_subscriber z) h
      in (r, z, h))"

definition ZmqStack_Unsubscribe :: "env \<Rightarrow> string \<Rightarrow> ZmqStack \<times> history \<Rightarrow> unit outcome \<times> ZmqStack \<times> history" where
  "ZmqStack_Unsubscribe e topic zh =
     (case zh of (z, h) \<Rightarrow>
      let z = z\<lparr>zs_subscriptions := zs_subscriptions z - {topic}\<rparr>;
          (r, h) = Subscriber_Unsubscribe e topic (zs_subscriber z) h
      in (r, z, h))"

definition Subscriptions :: "ZmqStack \<Rightarrow> string set" where
  "Subscriptions z = zs_subscriptions z"

definition ZmqStack_Publish :: "env \<Rightarrow> string \<Rightarrow> string \<Rightarrow> ZmqStack \<times> history \<Rightarrow> unit outcome \<times> ZmqStack \<times> history" where
  "ZmqStack_Publish e topic msg zh =
     (case zh of (z, h) \<Rightarrow>
      let h = log_info (''Published message '' @ msg @ '' to topic '' @ topic) h;
          (r, p, h) = publishMsg e topic msg (zs_publisher z, h)
      in (r, z\<lparr>zs_publisher := p\<rparr>, h))"

definition ZmqStack_Publish_all ::
  "env \<Rightarrow> string list \<Rightarrow> string \<Rightarrow> ZmqStack \<times> history \<Rightarrow> unit outcome \<times> ZmqStack \<times> history" where
  "ZmqStack_Publish_all e topics msg zh =
     (case zh of (z, h) \<Rightarrow>
      let h = log_info (''Published message '' @ msg @ '' to topics '' @ fmt_join '' '' topics) h;
          (r, p, h) = publishMsgs e topics msg (zs_publisher z, h)
      in (r, z\<lparr>zs_publisher := p\<rparr>, h))"

definition ZmqStack_Send :: "env \<Rightarrow> string \<Rightarrow> ZmqStack \<times> history \<Rightarrow> unit outcome \<times> ZmqStack \<times> history" where
  "ZmqStack_Send e msg zh =
     (case zh of (z, h) \<Rightarrow>
      (case zs_sender z of
         None \<Rightarrow> (Inr (), z, h)
       | Some s \<Rightarrow>
           (case sendMsg e msg (s, h) of
              (Inl err, s, h) \<Rightarrow> (Inl err, z\<lparr>zs_sender := Some s\<rparr>, h)
            | (Inr _, s, h) \<Rightarrow>
                (Inr (), z\<lparr>zs_sender := Some s\<rparr>,
                 log_info (''Published message '' @ msg @ '' to server'') h))))"

text \<open>\<open>Stop\<close> stops subscriber, publisher and receiver; the sender is left running.\<close>

definition ZmqStack_Stop :: "ZmqStack \<times> history \<Rightarrow> ZmqStack \<times> history" where
  "ZmqStack_Stop zh =
     (case zh of (z, h) \<Rightarrow>
      let z = z\<lparr>zs_subscriber := Subscriber_Stop (zs_subscriber z)\<rparr>;
          (p, h) = Publisher_Stop (zs_publisher z) h
      in (z\<lparr>zs_publisher := p, zs_receiver := map_option Receiver_Stop (zs_receiver z)\<rparr>, h))"

text \<open>The destructor, and then those of the members, the last one first.\<close>

definition ZmqStack_delete :: "ZmqStack \<times> history \<Rightarrow> ZmqStack \<times> history" where
  "ZmqStack_delete zh =
     (let (z, h) = ZmqStack_Stop zh;
          (s, h) = (case zs_sender z of
                      None \<Rightarrow> (None, h)
                    | Some s \<Rightarrow> let (s, h) = Sender_delete s h in (Some s, h));
          r = map_option Receiver_delete (zs_receiver z);
          t = Subscriber_delete (zs_subscriber z);
          (p, h) = Publisher_delete (zs_publisher z) h
      in (z\<lparr>zs_sender := s, zs_receiver := r, zs_subscriber := t, zs_publisher := p\<rparr>, h))"

text \<open>After \<open>Stop\<close> there is nothing left to do for them but for the sender, whose socket \<open>Stop\<close> leaves open.\<close>

lemma Stop_twice:
  "Subscriber_Stop (Subscriber_Stop t) = Subscriber_Stop t" "Receiver_Stop (Receiver_Stop r) = Receiver_Stop r"
  "Publisher_Stop q h = (p, h1) \<Longrightarrow> Publisher_Stop p h2 = (p, h2)"
  by (auto simp: Subscriber_Stop_def Receiver_Stop_def Publisher_Stop_def split: if_splits)

lemma ZmqStack_delete_eq:
  "ZmqStack_delete zh =
     (let (z, h) = ZmqStack_Stop zh
      in (case zs_sender z of
            None \<Rightarrow> (z, h)
          | Some s \<Rightarrow> let (s, h) = Sender_Stop s h in (z\<lparr>zs_sender := Some s\<rparr>, h)))"
proof -
  obtain z h where zh: "zh = (z, h)" by (cases zh)
  obtain p h1 where pub: "Publisher_Stop (zs_publisher z) h = (p, h1)" by (metis surj_pair)
  show ?thesis
    using Stop_twice(3)[OF pub] unfolding zh
    by (auto simp: ZmqStack_delete_def ZmqStack_Stop_def pub Sender_delete_def Receiver_delete_def Subscriber_delete_def
        Publisher_delete_def Stop_twice(1,2) option.map_comp comp_def Let_def split: option.split prod.split)
qed

lemma ZmqStack_delete_keeps:
  "ZmqStack_delete (z, h) = (z', h') \<Longrightarrow> zs_subscriptions z' = zs_subscriptions z \<and> zs_name z' = zs_name z"
  by (auto simp: ZmqStack_delete_eq ZmqStack_Stop_def Let_def split: option.splits prod.splits)

lemma ZmqStack_delete_ok:
  assumes "ZmqStack_delete (z, h) = (z', h')"
  shows "(\<exists>closed. h' = h @ map ZmqClose closed) \<and>
     \<not> pub_open (zs_publisher z') \<and> \<not> sub_joinable (zs_subscriber z') \<and>
     pred_option (\<lambda>r. \<not> rcv_joinable r) (zs_receiver z') \<and> pred_option (\<lambda>s. \<not> snd_open s) (zs_sender z')"
proof -
  have one_close: "\<exists>closed. [ZmqClose sock] = map ZmqClose closed" for sock
    by (rule exI[of _ "[sock]"]) simp
  obtain p h1 where pub: "Publisher_Stop (zs_publisher z) h = (p, h1)" by (metis surj_pair)
  have pub_ok: "\<not> pub_open p" "\<exists>closed. h1 = h @ map ZmqClose closed"
    using pub by (auto simp: Publisher_Stop_def intro: one_close split: if_splits)
  have joined: "\<not> sub_joinable (Subscriber_Stop t)" "\<not> rcv_joinable (Receiver_Stop r)" for t r
    by (simp_all add: Subscriber_Stop_def Receiver_Stop_def)
  have receiver: "pred_option (\<lambda>r. \<not> rcv_joinable r) (map_option Receiver_Stop (zs_receiver z))"
    using joined(2) by (simp add: option.pred_map option.pred_True comp_def)
  show ?thesis
  proof (cases "zs_sender z")
    case None
    then have "z' = z\<lparr>zs_subscriber := Subscriber_Stop (zs_subscriber z), zs_publisher := p,
        zs_receiver := map_option Receiver_Stop (zs_receiver z)\<rparr>" "h' = h1"
      using assms pub by (simp_all add: ZmqStack_delete_eq ZmqStack_Stop_def)
    then show ?thesis using None pub_ok joined(1) receiver by simp
  next
    case (Some s)
    obtain s' h2 where snd: "Sender_Stop s h1 = (s', h2)" by (metis surj_pair)
    have snd_ok: "\<not> snd_open s'" "\<exists>closed. h2 = h1 @ map ZmqClose closed"
      using snd by (auto simp: Sender_Stop_def intro: one_close split: if_splits)
    have "z' = z\<lparr>zs_subscriber := Subscriber_Stop (zs_subscriber z), zs_publisher := p,
        zs_receiver := map_option Receiver_Stop (zs_receiver z), zs_sender := Some s'\<rparr>" "h' = h2"
      using assms pub snd Some by (simp_all add: ZmqStack_delete_eq ZmqStack_Stop_def)
    moreover have "\<exists>closed. h2 = h @ map ZmqClose closed"
      using pub_ok(2) snd_ok(2) by (metis append.assoc map_append)
    ultimately show ?thesis using pub_ok(1) snd_ok(1) joined(1) receiver by simp
  qed
qed

text \<open>
  \<open>Health\<close>: \<open>lastCount\<close> is a function-static variable, one for the whole process. The state
  is the static and the service.
\<close>

definition ZmqStack_Health :: "32 word \<times> ZmqStack \<Rightarrow> int \<times> 32 word \<times> ZmqStack" where
  "ZmqStack_Health sz =
     (case sz of (lastCount, z) \<Rightarrow>
      let count = Subscriber_Count (zs_subscriber z);
          status = (if lastCount \<noteq> count then 0 else 1)
      in (status, count, z))"

definition progressed :: "32 word \<times> ZmqStack \<Rightarrow> bool" where
  "progressed sz \<longleftrightarrow> sub_count (zs_subscriber (snd sz)) \<noteq> fst sz"

interpretation zmq_health: health_service ZmqStack_Health progressed
  by unfold_locales (auto simp: ZmqStack_Health_def progressed_def Subscriber_Count_def Let_def)

definition ZmqStack_target :: "'z target" where
  "ZmqStack_target =
     \<lparr>onReceivedMessage = ZmqStack_onReceivedMessage, onCtrlMessage = ZmqStack_onCtrlMessage\<rparr>"

interpretation zmq_target: pull_target "ZmqStack_target :: 'z target"
  by unfold_locales
     (auto simp: ZmqStack_target_def ZmqStack_onReceivedMessage_def ZmqStack_onCtrlMessage_def
       split: prod.splits list.splits)

section \<open>Properties\<close>

text \<open>C27: the health check judges by the subscriber's counter. Between two checks, with the
  static holding the count of the first, the answer is 200 or 401 according to whether the
  number of polls that timed out and application messages is not, or is, a multiple of
  \<open>2 ^ 32\<close>; in particular a service that gets nothing but control and welcome messages is
  reported as unhealthy.\<close>

theorem health_between_checks:
  assumes "sub_loop fuel e tg (zs_subscriber z, t, h) = (Inr False, s', t', h')"
  shows "fst (healthz ZmqStack_Health (Subscriber_Count (zs_subscriber z), z\<lparr>zs_subscriber := s'\<rparr>)) =
     (if 2 ^ 32 dvd length (filter counted (deliveries fuel e tg (zs_subscriber z, t, h))) then 401 else 200)"
proof -
  let ?n = "length (filter counted (deliveries fuel e tg (zs_subscriber z, t, h)))"
  have count: "sub_count s' = sub_count (zs_subscriber z) + of_nat ?n"
    by (rule sub_loop_count[OF assms])
  have "of_nat ?n = (0 :: 32 word) \<longleftrightarrow> 2 ^ 32 dvd ?n"
    using word_of_nat_eq_0_iff[where 'a = 32] by simp
  then show ?thesis
    unfolding zmq_health.healthz_status by (simp add: progressed_def Subscriber_Count_def count)
qed

theorem health_between_checks_witness:
  "\<exists>s' h'. sub_loop 7 ctrl_env mute_target (Subscriber_new 1 [] [], (), []) = (Inr False, s', (), h') \<and>
     fst (healthz ZmqStack_Health (0, (fst (ZmqStack_new ctrl_env 0 ''s'' [] ''inproc://sub'' [] [] [] []))\<lparr>zs_subscriber := s'\<rparr>)) = 401"
proof -
  let ?z = "fst (ZmqStack_new ctrl_env 0 ''s'' [] ''inproc://sub'' [] [] [] [])"
  have sub: "zs_subscriber ?z = Subscriber_new 1 [] []"
    by (simp add: ZmqStack_new_def Let_def split: prod.splits)
  have "\<not> sub_shutdown (Subscriber_new 1 [] [])" by (simp add: Subscriber_new_def)
  from ctrl_loop[OF this, of 7 "()" "[]"] obtain h' where
    run: "sub_loop 7 ctrl_env mute_target (Subscriber_new 1 [] [], (), []) = (Inr False, Subscriber_new 1 [] [], (), h')"
    and ds: "deliveries 7 ctrl_env mute_target (Subscriber_new 1 [] [], (), []) = replicate 7 Control" by blast
  from health_between_checks[of 7 ctrl_env mute_target ?z "()" "[]", unfolded sub, OF run] run ds
  show ?thesis by (auto simp: counted_def Subscriber_Count_def Subscriber_new_def)
qed

text \<open>Commands that change the subscriptions of a running stack.\<close>

datatype sub_command = AddTopic string | DropTopic string

fun run_sub_command :: "env \<Rightarrow> sub_command \<Rightarrow> ZmqStack \<times> history \<Rightarrow> unit outcome \<times> ZmqStack \<times> history" where
  "run_sub_command e (AddTopic t) = ZmqStack_Subscribe e t"
| "run_sub_command e (DropTopic t) = ZmqStack_Unsubscribe e t"

lemma sub_command_filters:
  assumes "run_sub_command e cmd (z, h) = (Inr (), z', h')"
  shows "zs_subscriber z' = zs_subscriber z" and
    "filters e (sub_socket (zs_subscriber z)) h' =
       (case cmd of AddTopic t \<Rightarrow> add_mset t (filters e (sub_socket (zs_subscriber z)) h)
        | DropTopic t \<Rightarrow> filters e (sub_socket (zs_subscriber z)) h - {#t#})" and
    "Subscriptions z' = (case cmd of AddTopic t \<Rightarrow> insert t (Subscriptions z) | DropTopic t \<Rightarrow> Subscriptions z - {t})"
  using assms
  by (cases cmd;
      auto simp: ZmqStack_Subscribe_def ZmqStack_Unsubscribe_def Subscriber_Subscribe_def Subscriber_Unsubscribe_def
        Subscriptions_def Let_def split: prod.splits dest: sub_set_filters)+

lemma mset_keeps: "S \<subseteq> set_mset F \<Longrightarrow> S - {t} \<subseteq> set_mset (F - {#t#})"
proof
  fix x
  assume "S \<subseteq> set_mset F" and x: "x \<in> S - {t}"
  then have "0 < count F x" by auto
  with x show "x \<in># F - {#t#}" by (auto simp: in_diff_count)
qed


definition sample_stack :: "ZmqStack \<times> history" where
  "sample_stack = ZmqStack_new quiet_env 0 ''stack'' [] ''inproc://sub'' [] [] [] []"

lemma sample_stack_fields:
  "sub_open (zs_subscriber (fst sample_stack))" "sub_socket (zs_subscriber (fst sample_stack)) = 1"
  "Subscriptions (fst sample_stack) = {}"
  by (simp_all add: sample_stack_def ZmqStack_new_def Subscriber_new_def Subscriptions_def Let_def split: prod.splits)

lemma sample_commands:
  "\<exists>z' h'. for_each (run_sub_command quiet_env) cmds (z, h) = (Inr (), z', h')"
  if "sub_open (zs_subscriber z)"
  using that
proof (induction cmds arbitrary: z h)
  case (Cons cmd cmds)
  obtain z1 h1 where step: "run_sub_command quiet_env cmd (z, h) = (Inr (), z1, h1)"
    using Cons.prems
    by (cases cmd) (auto simp: ZmqStack_Subscribe_def ZmqStack_Unsubscribe_def Subscriber_Subscribe_def
        Subscriber_Unsubscribe_def sub_set_def zmq_call_def quiet_env_def)
  show ?case using Cons.IH[of z1 h1] Cons.prems step sub_command_filters(1)[OF step] by simp
qed simp


text \<open>The converse fails after a repeated subscription. The stack's subscriptions are a
  set, the socket's filter counts: subscribing to a topic twice and unsubscribing once leaves
  the topic unlisted, while the socket still receives its messages.\<close>

theorem repeated_subscription_goes_stale:
  assumes "for_each (run_sub_command e) [AddTopic t, AddTopic t, DropTopic t] (z, h) = (Inr (), z', h')"
  shows "t \<notin> Subscriptions z' \<and> t \<in># filters e (sub_socket (zs_subscriber z')) h'"
proof -
  obtain z1 h1 z2 h2 where steps: "run_sub_command e (AddTopic t) (z, h) = (Inr (), z1, h1)"
    "run_sub_command e (AddTopic t) (z1, h1) = (Inr (), z2, h2)"
    "run_sub_command e (DropTopic t) (z2, h2) = (Inr (), z', h')"
    using assms by (auto simp: andThen_ok_iff)
  show ?thesis
    using sub_command_filters[OF steps(1)] sub_command_filters[OF steps(2)] sub_command_filters[OF steps(3)] by simp
qed

theorem repeated_subscription_goes_stale_witness:
  "\<exists>z' h'. for_each (run_sub_command quiet_env) [AddTopic ''a'', AddTopic ''a'', DropTopic ''a''] sample_stack = (Inr (), z', h') \<and>
     ''a'' \<notin> Subscriptions z' \<and> ''a'' \<in># filters quiet_env (sub_socket (zs_subscriber z')) h'"
proof -
  obtain z h where st: "sample_stack = (z, h)" by (cases sample_stack)
  obtain z' h' where run: "for_each (run_sub_command quiet_env) [AddTopic ''a'', AddTopic ''a'', DropTopic ''a''] (z, h) = (Inr (), z', h')"
    using sample_commands sample_stack_fields(1)[unfolded st fst_conv] by blast
  from repeated_subscription_goes_stale[OF run] run show ?thesis unfolding st by blast
qed

end
