(* ===== verification/Config.thy ===== *)
theory Config
  imports Util Environment "HOL-Library.List_Lexorder" "HOL-Library.Char_ord"
begin

text \<open>
  What the \<open>main\<close> functions share: the loop over \<open>getopt\<close>, the optional YAML file whose keys
  override the command line, the variables all the stacks have, and the topics derived from
  a stack's name and container instance.
\<close>

section \<open>Command line\<close>

text \<open>
  The options are the results of \<open>getopt\<close> in turn, each with its \<open>optarg\<close> (empty for a flag);
  \<open>getopt\<close> itself, and its \<open>?\<close> for an unknown option, is the C library's. A handler may throw
  (\<open>std::stoi\<close>) or exit.
\<close>

type_synonym 'c handler = "string \<Rightarrow> 'c \<Rightarrow> unit outcome \<times> 'c"

definition set_text :: "(string \<Rightarrow> 'c \<Rightarrow> 'c) \<Rightarrow> 'c handler" where
  "set_text upd optarg cfg = (Inr (), upd optarg cfg)"

definition set_stoi :: "(int \<Rightarrow> 'c \<Rightarrow> 'c) \<Rightarrow> 'c handler" where
  "set_stoi upd optarg cfg = (case stoi optarg of Inl err \<Rightarrow> (Inl err, cfg) | Inr i \<Rightarrow> (Inr (), upd i cfg))"

definition set_stoul :: "(64 word \<Rightarrow> 'c \<Rightarrow> 'c) \<Rightarrow> 'c handler" where
  "set_stoul upd optarg cfg = (case stoul optarg of Inl err \<Rightarrow> (Inl err, cfg) | Inr n \<Rightarrow> (Inr (), upd n cfg))"

definition usage_exit :: "'c handler" where
  "usage_exit optarg cfg = (Inl (Exit 1), cfg)"

definition parse_options :: "(char \<Rightarrow> 'c handler) \<Rightarrow> (char \<times> string) list \<Rightarrow> 'c \<Rightarrow> unit outcome \<times> 'c" where
  "parse_options handler opts = for_each (\<lambda>(c, optarg). handler c optarg) opts"

text \<open>
  The ends a program may come to while it reads its command line: the options are read, a
  standard exception leaves \<open>main\<close> (a number that cannot be read), or the usage is printed.
\<close>

definition option_end :: "'a outcome \<Rightarrow> bool" where
  "option_end r \<longleftrightarrow>
     (case r of Inr _ \<Rightarrow> True | Inl (StdException _) \<Rightarrow> True | Inl (Exit code) \<Rightarrow> code = 1 | _ \<Rightarrow> False)"

lemma option_end_simps [simp]: "option_end (Inr a)" "option_end (Inl (StdException m))"
  "option_end (Inl (Exit n)) \<longleftrightarrow> n = 1" "\<not> option_end (Inl (Undefined m))"
  "\<not> option_end (Inl (Terminated m))" "\<not> option_end (Inl (ZmqError k))"
  by (simp_all add: option_end_def)

lemma handlers_end [simp]:
  "option_end (fst (set_text upd optarg cfg))" "option_end (fst (set_stoi iupd optarg cfg))"
  "option_end (fst (set_stoul lupd optarg cfg))" "option_end (fst (usage_exit optarg cfg))"
  by (auto simp: set_text_def set_stoi_def set_stoul_def usage_exit_def stoi_def stoul_def Let_def
      split: option.splits)

lemma parse_options_end:
  assumes "\<And>c optarg cfg. (c, optarg) \<in> set opts \<Longrightarrow> option_end (fst (handler c optarg cfg))"
  shows "option_end (fst (parse_options handler opts cfg))"
proof (cases "parse_options handler opts cfg")
  case (Pair r t)
  show ?thesis
  proof (cases r)
    case (Inl err)
    with Pair obtain c optarg s' t' where "(c, optarg) \<in> set opts" "handler c optarg s' = (Inl err, t')"
      using for_each_error[of _ opts cfg err t] unfolding parse_options_def by fastforce
    with assms[of c optarg s'] show ?thesis using Pair Inl by simp
  qed (simp add: Pair)
qed

section \<open>The YAML file\<close>

text \<open>
  \<open>yaml-cpp\<close> is outside; of it the programs use \<open>YAML::Load\<close> (which may throw), the lookup of
  a key, the conversions \<open>as<T>()\<close> (which may throw, here \<open>None\<close>), \<open>IsSequence\<close>, \<open>IsMap\<close> and the
  iteration over a map. Its node type stays abstract.
\<close>

record 'n yaml_lib =
  yl_load :: "string \<Rightarrow> (string \<Rightarrow> 'n option) option"
  yl_int :: "'n \<Rightarrow> int option"
  yl_uint16 :: "'n \<Rightarrow> 16 word option"
  yl_string :: "'n \<Rightarrow> string option"
  yl_strings :: "'n \<Rightarrow> string list option"
  yl_is_sequence :: "'n \<Rightarrow> bool"
  yl_is_map :: "'n \<Rightarrow> bool"
  yl_entries :: "'n \<Rightarrow> ('n \<times> 'n) list"

text \<open>A library that can read nothing.\<close>

definition no_yaml :: "unit yaml_lib" where
  "no_yaml = \<lparr>yl_load = (\<lambda>_. None), yl_int = (\<lambda>_. None), yl_uint16 = (\<lambda>_. None), yl_string = (\<lambda>_. None),
     yl_strings = (\<lambda>_. None), yl_is_sequence = (\<lambda>_. False), yl_is_map = (\<lambda>_. False), yl_entries = (\<lambda>_. [])\<rparr>"

text \<open>\<open>if (m_yaml[key]) var = m_yaml[key].as<T>();\<close>\<close>

definition yaml_set ::
  "(string \<Rightarrow> 'n option) \<Rightarrow> string \<Rightarrow> ('n \<Rightarrow> 'a option) \<Rightarrow> ('a \<Rightarrow> 'c \<Rightarrow> 'c) \<Rightarrow> 'c \<Rightarrow> unit outcome \<times> 'c" where
  "yaml_set y key conv upd cfg =
     (case y key of
        None \<Rightarrow> (Inr (), cfg)
      | Some n \<Rightarrow>
          (case conv n of
             None \<Rightarrow> (Inl (StdException ''YAML::BadConversion''), cfg)
           | Some a \<Rightarrow> (Inr (), upd a cfg)))"

text \<open>The same under \<open>if (m_yaml[key].IsSequence())\<close>.\<close>

definition yaml_set_sequence ::
  "'n yaml_lib \<Rightarrow> (string \<Rightarrow> 'n option) \<Rightarrow> string \<Rightarrow> (string list \<Rightarrow> 'c \<Rightarrow> 'c) \<Rightarrow> 'c \<Rightarrow> unit outcome \<times> 'c" where
  "yaml_set_sequence yl y key upd cfg =
     (case y key of
        None \<Rightarrow> (Inr (), cfg)
      | Some n \<Rightarrow> if yl_is_sequence yl n then yaml_set y key (yl_strings yl) upd cfg else (Inr (), cfg))"

text \<open>
  The file: \<open>None\<close> when the stream is not good. Whatever is thrown inside is caught; the
  assignments made before stay.
\<close>

definition read_config ::
  "'n yaml_lib \<Rightarrow> ((string \<Rightarrow> 'n option) \<Rightarrow> ('c \<Rightarrow> unit outcome \<times> 'c) list) \<Rightarrow> string option \<Rightarrow> 'c \<times> history
     \<Rightarrow> 'c \<times> history" where
  "read_config yl keys file ch =
     (case ch of (cfg, h) \<Rightarrow>
      (case file of
         None \<Rightarrow> (cfg, h)
       | Some content \<Rightarrow>
           (case yl_load yl content of
              None \<Rightarrow> (cfg, log_error ''Error parsing config file'' h)
            | Some y \<Rightarrow>
                (case for_each (\<lambda>set_key. set_key) (keys y) cfg of
                   (Inl err, cfg) \<Rightarrow> (cfg, log_error ''Error parsing config file'' h)
                 | (Inr _, cfg) \<Rightarrow> (cfg, h)))))"

text \<open>
  What every assignment keeps, the reading of the file keeps, whether or not it is cut short by
  an exception.
\<close>

lemma read_config_keeps:
  assumes "P cfg" and "\<And>y set_key cfg. set_key \<in> set (keys y) \<Longrightarrow> P cfg \<Longrightarrow> P (snd (set_key cfg))"
  shows "P (fst (read_config yl keys file (cfg, h)))"
proof (cases "\<exists>content y. file = Some content \<and> yl_load yl content = Some y")
  case True
  then obtain content y where loaded: "file = Some content" "yl_load yl content = Some y" by blast
  obtain r t where run: "for_each (\<lambda>set_key. set_key) (keys y) cfg = (r, t)" by (metis surj_pair)
  have "P t"
    using for_each_keeps[of P cfg "keys y" "\<lambda>set_key. set_key"] assms run by simp
  then show ?thesis using loaded run by (cases r) (simp_all add: read_config_def)
next
  case False
  then show ?thesis using assms(1) by (auto simp: read_config_def split: option.splits)
qed

section \<open>Metrics and signals\<close>

text \<open>
  The exposer of prometheus-cpp serves the metrics on a port of its own; its constructor throws
  when it cannot, which no \<open>main\<close> catches.
\<close>

definition Exposer_new :: "env \<Rightarrow> 16 word \<Rightarrow> history \<Rightarrow> unit outcome \<times> history" where
  "Exposer_new e port h =
     (let endpoint = ''0.0.0.0:'' @ show_nat (unat port)
      in (case exposer_throws e h endpoint of None \<Rightarrow> Inr () | Some what \<Rightarrow> Inl (StdException what),
          h @ [ExposerStart endpoint]))"

definition RegisterCollectable :: "history \<Rightarrow> history" where
  "RegisterCollectable h = h @ [ExposerRegister]"

definition sleep_for :: "nat \<Rightarrow> history \<Rightarrow> history" where
  "sleep_for ms h = h @ [Sleep ms]"

text \<open>
  \<open>while (running.load()) sleep_for(500ms)\<close>, for at most \<open>fuel\<close> rounds: \<open>True\<close> when the flag was
  found cleared.
\<close>

fun await_signal :: "nat \<Rightarrow> env \<Rightarrow> history \<Rightarrow> bool \<times> history" where
  "await_signal 0 e h = (False, h)"
| "await_signal (Suc fuel) e h =
     (if running_flag e h then await_signal fuel e (sleep_for 500 h) else (True, h))"

section \<open>Variables of the stacks\<close>

record Settings =
  logLevel :: int
  configFile :: string
  stackName :: string
  pubEndpoints :: "string list"
  subEndpoint :: string
  healthStatusPort :: "16 word"
  metricsPort :: "16 word"
  subTopics :: "string list"

text \<open>\<open>spdlog::level::trace\<close>.\<close>

definition level_trace :: int where "level_trace = 0"

definition log_endpoints :: "'a Settings_scheme \<Rightarrow> history \<Rightarrow> history" where
  "log_endpoints cfg h =
     log_info (''XPUB Endpoint '' @ fmt_join '','' (pubEndpoints cfg) @ '' XSUB Endpoint '' @ subEndpoint cfg) h"

definition log_each :: "string \<Rightarrow> string list \<Rightarrow> history \<Rightarrow> history" where
  "log_each prefix topics h = foldl (\<lambda>h topic. log_info (prefix @ topic) h) h topics"

text \<open>A \<open>std::set<std::string>\<close> is iterated in lexicographic order.\<close>

definition set_order :: "string set \<Rightarrow> string list" where
  "set_order S = sorted_list_of_set S"

section \<open>Names and topics of an instance\<close>

definition instance_name :: "string \<Rightarrow> 32 word \<Rightarrow> string" where
  "instance_name name inst = name @ ''-'' @ show_nat (unat inst)"

definition ingress_topic :: "string \<Rightarrow> string" where
  "ingress_topic name = name @ ''-ingress''"

definition egress_topic :: "string \<Rightarrow> string" where
  "egress_topic name = name @ ''-egress''"

text \<open>A suffix that starts at the last dash determines where it starts.\<close>

lemma last_dash_unique:
  assumes "p @ CHR ''-'' # q = p' @ CHR ''-'' # q'" and "CHR ''-'' \<notin> set q" and "CHR ''-'' \<notin> set q'"
  shows "p = p' \<and> q = q'"
proof -
  have "length p = length p'"
    using find_last_of_append[OF assms(2), of p] find_last_of_append[OF assms(3), of p'] assms(1) by simp
  with assms(1) show ?thesis by simp
qed

lemma show_nat_no_dash: "CHR ''-'' \<notin> set (show_nat n)"
  using show_nat_digits[of "CHR ''-''" n] by auto

lemma instance_name_inj: "instance_name m i = instance_name n j \<longleftrightarrow> m = n \<and> i = j"
proof
  assume "instance_name m i = instance_name n j"
  then have "m @ CHR ''-'' # show_nat (unat i) = n @ CHR ''-'' # show_nat (unat j)"
    by (simp add: instance_name_def)
  from last_dash_unique[OF this show_nat_no_dash show_nat_no_dash] show "m = n \<and> i = j"
    by (simp add: show_nat_inj word_unat_eq_iff)
qed simp

text \<open>Stacks never share topics by accident. The topics a stack derives from its name and
  instance are those of another stack only when name and instance are the same, and no
  stack's ingress is any stack's egress, so none receives what it or another one publishes
  there without a converter in between.\<close>

theorem topics_of_instances:
  "(ingress_topic (instance_name m i) = ingress_topic (instance_name n j)) = (m = n \<and> i = j) \<and>
     (egress_topic (instance_name m i) = egress_topic (instance_name n j)) = (m = n \<and> i = j) \<and>
     ingress_topic (instance_name m i) \<noteq> egress_topic (instance_name n j)"
proof -
  have "ingress_topic (instance_name m i) \<noteq> egress_topic (instance_name n j)"
    using last_dash_unique[of "instance_name m i" "''ingress''" "instance_name n j" "''egress''"]
    by (auto simp: ingress_topic_def egress_topic_def)
  then show ?thesis by (simp add: ingress_topic_def egress_topic_def instance_name_inj)
qed

end
