(* ===== verification/ZmqStackMain.thy ===== *)
theory ZmqStackMain
  imports ZmqStack Config
begin

text \<open>
  \<open>zmq-stack/ZmqStackMain.cpp\<close>: the variables of the service, its options, its YAML keys, the
  topics of the instance, and the main thread: exposer, stack and health server, then the
  interactive commands, or a message to the converter every half second until a signal. The
  threads of subscriber, receiver and health server are \<open>sub_Run\<close>, \<open>rcv_Run\<close> and
  \<open>HealthStatus_Run\<close>.
\<close>

record ZmqSettings = Settings +
  zm_receiverEndpoint :: string
  zm_senderEndpoint :: string
  zm_pubTopics :: "string list"
  zm_interactive :: bool

definition zmq_defaults :: ZmqSettings where
  "zmq_defaults =
     \<lparr>logLevel = level_trace, configFile = ''zmq-stack.yaml'', stackName = ''zmqStack'', pubEndpoints = [],
      subEndpoint = ''tcp://localhost:9210'', healthStatusPort = 6000, metricsPort = 6001, subTopics = [],
      zm_receiverEndpoint = [], zm_senderEndpoint = [], zm_pubTopics = [], zm_interactive = False\<rparr>"

definition zmq_option :: "char \<Rightarrow> ZmqSettings handler" where
  "zmq_option c =
     (if c = CHR ''f'' then set_text (\<lambda>v cfg. cfg\<lparr>configFile := v\<rparr>)
      else if c = CHR ''n'' then set_text (\<lambda>v cfg. cfg\<lparr>stackName := v\<rparr>)
      else if c = CHR ''l'' then set_stoi (\<lambda>v cfg. cfg\<lparr>logLevel := v\<rparr>)
      else if c = CHR ''p'' then set_text (\<lambda>v cfg. cfg\<lparr>pubEndpoints := pubEndpoints cfg @ [v]\<rparr>)
      else if c = CHR ''s'' then set_text (\<lambda>v cfg. cfg\<lparr>subEndpoint := v\<rparr>)
      else if c = CHR ''P'' then set_text (\<lambda>v cfg. cfg\<lparr>zm_pubTopics := zm_pubTopics cfg @ [v]\<rparr>)
      else if c = CHR ''S'' then set_text (\<lambda>v cfg. cfg\<lparr>subTopics := subTopics cfg @ [v]\<rparr>)
      else if c = CHR ''i'' then set_text (\<lambda>_ cfg. cfg\<lparr>zm_interactive := True\<rparr>)
      else if c = CHR ''h'' then set_stoul (\<lambda>v cfg. cfg\<lparr>healthStatusPort := ucast v\<rparr>)
      else if c = CHR ''m'' then set_stoi (\<lambda>v cfg. cfg\<lparr>metricsPort := word_of_int v\<rparr>)
      else usage_exit)"

definition zmq_keys ::
  "'n yaml_lib \<Rightarrow> (string \<Rightarrow> 'n option) \<Rightarrow> (ZmqSettings \<Rightarrow> unit outcome \<times> ZmqSettings) list" where
  "zmq_keys yl y =
     [yaml_set y ''log-level'' (yl_int yl) (\<lambda>v cfg. cfg\<lparr>logLevel := v\<rparr>),
      yaml_set y ''health-port'' (yl_uint16 yl) (\<lambda>v cfg. cfg\<lparr>healthStatusPort := v\<rparr>),
      yaml_set y ''metrics-port'' (yl_uint16 yl) (\<lambda>v cfg. cfg\<lparr>metricsPort := v\<rparr>),
      yaml_set y ''receiver-endpoint'' (yl_string yl) (\<lambda>v cfg. cfg\<lparr>zm_receiverEndpoint := v\<rparr>),
      yaml_set y ''sender-endpoint'' (yl_string yl) (\<lambda>v cfg. cfg\<lparr>zm_senderEndpoint := v\<rparr>),
      yaml_set y ''name'' (yl_string yl) (\<lambda>v cfg. cfg\<lparr>stackName := v\<rparr>),
      yaml_set y ''pub-endpoints'' (yl_strings yl) (\<lambda>v cfg. cfg\<lparr>pubEndpoints := v\<rparr>),
      yaml_set y ''sub-endpoint'' (yl_string yl) (\<lambda>v cfg. cfg\<lparr>subEndpoint := v\<rparr>),
      yaml_set_sequence yl y ''sub-topics'' (\<lambda>v cfg. cfg\<lparr>subTopics := v\<rparr>),
      yaml_set_sequence yl y ''pub-topics'' (\<lambda>v cfg. cfg\<lparr>zm_pubTopics := v\<rparr>)]"

text \<open>The instance goes into the name, and the topics are replaced by those of the instance.\<close>

definition zmq_instance :: "32 word \<Rightarrow> ZmqSettings \<Rightarrow> ZmqSettings" where
  "zmq_instance inst cfg =
     (let name = instance_name (stackName cfg) inst
      in cfg\<lparr>stackName := name, zm_pubTopics := [ingress_topic name], subTopics := [egress_topic name]\<rparr>)"

definition zmq_configure ::
  "'n yaml_lib \<Rightarrow> (string \<Rightarrow> string option) \<Rightarrow> string option \<Rightarrow> (char \<times> string) list \<Rightarrow> history
     \<Rightarrow> ZmqSettings outcome \<times> history" where
  "zmq_configure yl files HOSTNAME opts h =
     (case getContainerInstance HOSTNAME of
        Inl err \<Rightarrow> (Inl err, h)
      | Inr inst \<Rightarrow>
          (case parse_options zmq_option opts zmq_defaults of
             (Inl err, _) \<Rightarrow> (Inl err, h)
           | (Inr _, cfg) \<Rightarrow>
               (let (cfg, h) = read_config yl (zmq_keys yl) (files (configFile cfg)) (cfg, h)
                in (Inr (zmq_instance inst cfg), h))))"

text \<open>One interactive command.\<close>

definition zmq_command :: "env \<Rightarrow> string \<Rightarrow> string \<Rightarrow> ZmqStack \<times> history \<Rightarrow> unit outcome \<times> ZmqStack \<times> history" where
  "zmq_command e name line zh =
     (case zh of (z, h) \<Rightarrow>
      let h = (if line = ''list''
               then log_info (''Stack '' @ name @ '' subscriptions '' @ fmt_join '' '' (set_order (Subscriptions z))) h
               else h)
      in (case split line (CHR ''|'') of
            [cmd, data] \<Rightarrow>
              (case split cmd (CHR '' '') of
                 [] \<Rightarrow> (Inr (), z, h)
               | cmd0 # cmds \<Rightarrow>
                   if cmd0 = ''sub'' then
                     ZmqStack_Subscribe e data (z, log_info (''Subscribing to topic '' @ data) h)
                   else if cmd0 = ''unsub'' then
                     ZmqStack_Unsubscribe e data (z, log_info (''Unsubscribing from topic '' @ data) h)
                   else if cmd0 = ''send'' then ZmqStack_Send e data (z, h)
                   else ZmqStack_Publish_all e (cmd0 # cmds) data (z, h))
          | _ \<Rightarrow> (Inr (), z, h)))"

text \<open>The command loop for at most \<open>fuel\<close> lines: \<open>True\<close> after \<open>quit\<close>.\<close>

fun zmq_interactive ::
  "nat \<Rightarrow> env \<Rightarrow> string \<Rightarrow> string list \<Rightarrow> ZmqStack \<times> history \<Rightarrow> bool outcome \<times> ZmqStack \<times> history" where
  "zmq_interactive 0 e name stdin zh = (Inr False, zh)"
| "zmq_interactive (Suc fuel) e name stdin zh =
     (let (line, stdin) = read_line stdin
      in if line = ''quit'' then (Inr True, zh)
         else andThen (zmq_command e name line zh) (\<lambda>_. zmq_interactive fuel e name stdin))"

text \<open>
  The loop of the service for at most \<open>fuel\<close> half seconds: \<open>True\<close> when a signal has cleared
  \<open>running\<close>. The counter is an \<open>int\<close>.
\<close>

fun zmq_service :: "nat \<Rightarrow> env \<Rightarrow> string \<Rightarrow> int \<Rightarrow> ZmqStack \<times> history \<Rightarrow> bool outcome \<times> ZmqStack \<times> history" where
  "zmq_service 0 e name cnt zh = (Inr False, zh)"
| "zmq_service (Suc fuel) e name cnt zh =
     (if \<not> running_flag e (snd zh) then (Inr True, zh)
      else if cnt = 2 ^ 31 - 1 then (Inl (Undefined ''signed overflow''), zh)
      else andThen (ZmqStack_Send e (''Message from '' @ name @ '' to conv-stack '' @ show_int cnt) zh)
             (\<lambda>_ (z, h). zmq_service fuel e name (cnt + 1) (z, sleep_for 500 h)))"

text \<open>
  \<open>main\<close>; the sockets are numbered from 0. When the loop has been left, the health server and
  the stack are destroyed, in this order.
\<close>

definition zmq_main ::
  "nat \<Rightarrow> env \<Rightarrow> 'n yaml_lib \<Rightarrow> (string \<Rightarrow> string option) \<Rightarrow> string option \<Rightarrow> (char \<times> string) list \<Rightarrow> string list
     \<Rightarrow> history \<Rightarrow> bool outcome \<times> ZmqStack option \<times> history" where
  "zmq_main fuel e yl files HOSTNAME opts stdin h =
     (case zmq_configure yl files HOSTNAME opts h of
        (Inl err, h) \<Rightarrow> (Inl err, None, h)
      | (Inr cfg, h) \<Rightarrow>
          let h = log_endpoints cfg h;
              h = log_each ''    Pub topic '' (zm_pubTopics cfg) h;
              h = log_each ''    Sub topic '' (subTopics cfg) h;
              h = (if zm_receiverEndpoint cfg \<noteq> [] then log_info (''Receiver endpoint '' @ zm_receiverEndpoint cfg) h else h);
              h = (if zm_senderEndpoint cfg \<noteq> [] then log_info (''Client endpoint '' @ zm_senderEndpoint cfg) h else h);
              (started, h) = Exposer_new e (metricsPort cfg) h
          in (case started of
                Inl err \<Rightarrow> (Inl err, None, h)
              | Inr _ \<Rightarrow>
                  let (z, h) = ZmqStack_new e 0 (stackName cfg) (pubEndpoints cfg) (subEndpoint cfg)
                                 (zm_receiverEndpoint cfg) (zm_senderEndpoint cfg) (subTopics cfg) h;
                      (hs, h) = HealthStatus_new (healthStatusPort cfg) h;
                      h = RegisterCollectable h
                  in (case (if zm_interactive cfg then zmq_interactive fuel e (stackName cfg) stdin (z, h)
                            else zmq_service fuel e (stackName cfg) 0 (z, h)) of
                        (Inr True, z, h) \<Rightarrow>
                          let (_, h) = HealthStatus_delete hs h;
                              (z, h) = ZmqStack_delete (z, h)
                          in (Inr True, Some z, h)
                      | (r, z, h) \<Rightarrow> (r, Some z, h))))"

section \<open>Properties\<close>

lemma split_command:
  assumes "topics \<noteq> []" and "last topics \<noteq> []" and "\<forall>t \<in> set topics. CHR '' '' \<notin> set t \<and> CHR ''|'' \<notin> set t"
    and "msg \<noteq> []" and "CHR ''|'' \<notin> set msg"
  shows "split (fmt_join '' '' topics @ ''|'' @ msg) (CHR ''|'') = [fmt_join '' '' topics, msg]"
    and "split (fmt_join '' '' topics) (CHR '' '') = topics"
proof -
  have "CHR ''|'' \<notin> set (fmt_join '' '' ts)" if "\<forall>t \<in> set ts. CHR ''|'' \<notin> set t" for ts
    using that by (induction "'' ''" ts rule: fmt_join.induct) auto
  then have "CHR ''|'' \<notin> set (fmt_join '' '' topics)" using assms(3) by simp
  then show "split (fmt_join '' '' topics @ ''|'' @ msg) (CHR ''|'') = [fmt_join '' '' topics, msg]"
    using split_fmt_join[of "[fmt_join '' '' topics, msg]" "CHR ''|''"] assms(4,5) by simp
  show "split (fmt_join '' '' topics) (CHR '' '') = topics"
    by (rule split_fmt_join[OF assms(1,2)]) (use assms(3) in auto)
qed

text \<open>The command line \<open>topic1 ... topicn|msg\<close> publishes \<open>msg\<close> once on each of the topics, in
  their order, for every list of topics without blanks and bars whose first is not one of the
  command words, and every non-empty message without a bar.\<close>

theorem command_publishes_to_topics:
  assumes "zmq_command e name (fmt_join '' '' topics @ ''|'' @ msg) (z, h) = (Inr (), z', h')"
    and "topics \<noteq> []" and "last topics \<noteq> []" and "\<forall>t \<in> set topics. CHR '' '' \<notin> set t \<and> CHR ''|'' \<notin> set t"
    and "msg \<noteq> []" and "CHR ''|'' \<notin> set msg" and "hd topics \<notin> {''sub'', ''unsub'', ''send''}"
  shows "sent_on (pub_socket (zs_publisher z)) h' =
     sent_on (pub_socket (zs_publisher z)) h @ map (\<lambda>t. [t, msg]) topics"
proof -
  obtain topic0 rest where topics: "topics = topic0 # rest" using assms(2) by (cases topics) auto
  have "fmt_join '' '' topics @ ''|'' @ msg \<noteq> ''list''"
  proof
    assume line: "fmt_join '' '' topics @ ''|'' @ msg = ''list''"
    have "CHR ''|'' \<in> set (fmt_join '' '' topics @ ''|'' @ msg)" by simp
    then show False unfolding line by simp
  qed
  then have "ZmqStack_Publish_all e topics msg (z, h) = (Inr (), z', h')"
    using assms(1,7) split_command[OF assms(2-6)] topics by (simp add: zmq_command_def)
  then show ?thesis using publishMsgs_ok[of e topics msg "zs_publisher z"]
    by (auto simp: ZmqStack_Publish_all_def Let_def log_info_def split: prod.splits)
qed

theorem command_publishes_to_topics_witness:
  "\<exists>z' h'. zmq_command quiet_env ''stack'' ''topic1 group|hello'' sample_stack = (Inr (), z', h') \<and>
     sent_on 0 h' = [[''topic1'', ''hello''], [''group'', ''hello'']]"
proof -
  obtain z h where st: "sample_stack = (z, h)" by (cases sample_stack)
  have f: "pub_open (zs_publisher z)" "pub_socket (zs_publisher z) = 0" "sent_on 0 h = []"
    using st by (auto simp: sample_stack_def ZmqStack_new_def Publisher_new_def zmq_defs quiet_env_def Let_def)
  have line: "''topic1 group|hello'' = fmt_join '' '' [''topic1'', ''group''] @ ''|'' @ ''hello''" by simp
  note parts = split_command[of "[''topic1'', ''group'']" "''hello''"]
  have "\<exists>z' h'. zmq_command quiet_env ''stack'' (fmt_join '' '' [''topic1'', ''group''] @ ''|'' @ ''hello'') (z, h) = (Inr (), z', h')"
    unfolding zmq_command_def using f parts
    by (simp add: ZmqStack_Publish_all_def publishMsgs_def pub_send_def zmq_defs quiet_env_def Let_def)
  then obtain z' h' where run:
    "zmq_command quiet_env ''stack'' (fmt_join '' '' [''topic1'', ''group''] @ ''|'' @ ''hello'') (z, h) = (Inr (), z', h')" by blast
  from command_publishes_to_topics[OF run] f
  have "sent_on 0 h' = [[''topic1'', ''hello''], [''group'', ''hello'']]" by simp
  with run show ?thesis unfolding st line by blast
qed

text \<open>C33: a zmq-stack that is told to quit goes down in order. When \<open>main\<close> returns, after \<open>quit\<close> or
  a signal, its last acts are to stop the health server and only then to take the stack down:
  no more than sockets are closed after that, the publisher's and the sender's are closed, and
  the threads of the subscriber and of the receiver have been joined.\<close>

theorem zmq_stack_ends_in_order:
  assumes "zmq_main fuel e yl files HOSTNAME opts stdin h = (Inr True, Some z, h')"
  shows "(\<exists>h1 closed. h' = h1 @ HttpStop # map ZmqClose closed) \<and>
     \<not> pub_open (zs_publisher z) \<and> \<not> sub_joinable (zs_subscriber z) \<and>
     pred_option (\<lambda>r. \<not> rcv_joinable r) (zs_receiver z) \<and> pred_option (\<lambda>s. \<not> snd_open s) (zs_sender z)"
proof -
  obtain hs hs' z1 h1 h2 where "HealthStatus_delete hs h1 = (hs', h2)" "ZmqStack_delete (z1, h2) = (z, h')"
    using assms unfolding zmq_main_def Let_def
    by (simp split: prod.splits sum.splits bool.splits)
  then have "ZmqStack_delete (z1, h1 @ [HttpStop]) = (z, h')" by (simp add: HealthStatus_delete_def)
  from ZmqStack_delete_ok[OF this] show ?thesis by auto
qed

theorem zmq_stack_ends_in_order_witness:
  "\<exists>z h1 closed. zmq_main 1 quiet_env no_yaml (\<lambda>_. None) (Some ''zmq-stack'') [(CHR ''i'', [])] [''quit''] [] =
     (Inr True, Some z, h1 @ HttpStop # map ZmqClose closed) \<and> \<not> pub_open (zs_publisher z)"
proof -
  define cfg where "cfg = zmq_instance 0 (zmq_defaults\<lparr>zm_interactive := True\<rparr>)"
  have "find_last_of ''zmq-stack'' (CHR ''-'') = Some 3" "stoul (drop 4 ''zmq-stack'') = Inl (StdException ''invalid_argument'')"
    by code_simp+
  then have "getContainerInstance (Some ''zmq-stack'') = Inr 0" by (simp add: getContainerInstance_def)
  moreover have "parse_options zmq_option [(CHR ''i'', [])] zmq_defaults = (Inr (), zmq_defaults\<lparr>zm_interactive := True\<rparr>)"
    by (simp add: parse_options_def zmq_option_def set_text_def)
  ultimately have conf: "zmq_configure no_yaml (\<lambda>_. None) (Some ''zmq-stack'') [(CHR ''i'', [])] [] = (Inr cfg, [])"
    by (simp add: zmq_configure_def read_config_def cfg_def)
  have "zm_interactive cfg" by (simp add: cfg_def zmq_instance_def Let_def)
  moreover have "exposer_throws quiet_env h1 t = None" for h1 t by (simp add: quiet_env_def)
  ultimately have "\<exists>z h'. zmq_main 1 quiet_env no_yaml (\<lambda>_. None) (Some ''zmq-stack'') [(CHR ''i'', [])] [''quit''] [] =
      (Inr True, Some z, h')"
    by (simp add: zmq_main_def conf Exposer_new_def Let_def case_prod_unfold)
  then obtain z h' where run:
    "zmq_main 1 quiet_env no_yaml (\<lambda>_. None) (Some ''zmq-stack'') [(CHR ''i'', [])] [''quit''] [] = (Inr True, Some z, h')" by blast
  from zmq_stack_ends_in_order[OF run] run show ?thesis by auto
qed

text \<open>Whatever the options and the configuration file say about topics, a stack that starts
  publishes on the ingress topic and subscribes to the egress topic of its own name and
  instance, and to nothing else.\<close>

theorem zmq_stack_uses_instance_topics:
  assumes "zmq_configure yl files (Some (set_name @ ''-'' @ show_nat n)) opts h = (Inr cfg, h')" and "n < 2 ^ 32"
  shows "\<exists>name. stackName cfg = name @ ''-'' @ show_nat n \<and>
     zm_pubTopics cfg = [name @ ''-'' @ show_nat n @ ''-ingress''] \<and>
     subTopics cfg = [name @ ''-'' @ show_nat n @ ''-egress'']"
proof -
  have "getContainerInstance (Some (set_name @ ''-'' @ show_nat n)) = Inr (of_nat n)"
    using getContainerInstance_suffix[of set_name n] assms(2) by simp
  moreover have "unat (of_nat n :: 32 word) = n" using assms(2) by (simp add: unat_of_nat take_bit_nat_eq_self)
  ultimately show ?thesis using assms(1)
    by (auto simp: zmq_configure_def zmq_instance_def instance_name_def ingress_topic_def egress_topic_def Let_def
        split: prod.splits sum.splits)
qed

theorem zmq_stack_uses_instance_topics_witness:
  "\<exists>cfg h'. zmq_configure no_yaml (\<lambda>_. None) (Some ''zmq-stack-3'') [(CHR ''n'', ''a''), (CHR ''P'', ''x'')] [] = (Inr cfg, h') \<and>
     (\<exists>name. zm_pubTopics cfg = [name @ ''-3-ingress''])"
proof -
  have three: "show_nat 3 = ''3''" by code_simp
  have host: "''zmq-stack-3'' = ''zmq-stack'' @ ''-'' @ show_nat 3" unfolding three by simp
  have "\<exists>cfg h'. zmq_configure no_yaml (\<lambda>_. None) (Some (''zmq-stack'' @ ''-'' @ show_nat 3)) [(CHR ''n'', ''a''), (CHR ''P'', ''x'')] [] = (Inr cfg, h')"
    using getContainerInstance_suffix[of "''zmq-stack''" 3]
    by (simp add: zmq_configure_def parse_options_def zmq_option_def set_text_def read_config_def)
  then obtain cfg h' where run: "zmq_configure no_yaml (\<lambda>_. None) (Some (''zmq-stack'' @ ''-'' @ show_nat 3)) [(CHR ''n'', ''a''), (CHR ''P'', ''x'')] [] = (Inr cfg, h')"
    by blast
  from zmq_stack_uses_instance_topics[OF run] have "\<exists>name. zm_pubTopics cfg = [name @ ''-3-ingress'']"
    unfolding three by auto
  with run show ?thesis unfolding host by blast
qed

end
