(* ===== verification/ConvStack.thy ===== *)
theory ConvStack
  imports ZmqStack
begin

text \<open>
  \<open>conv-stack/ConvStack.h\<close> and \<open>conv-stack/ConvStack.cpp\<close>: the converter, which publishes
  every message it receives on the topics its conversion map gives for the message's topic.
\<close>

record ConvStack =
  cv_base :: ZmqStack
  cv_map :: "string \<rightharpoonup> string list"

definition ConvStack_new ::
  "env \<Rightarrow> nat \<Rightarrow> string \<Rightarrow> string list \<Rightarrow> string \<Rightarrow> string \<Rightarrow> string list \<Rightarrow> (string \<rightharpoonup> string list)
     \<Rightarrow> history \<Rightarrow> ConvStack \<times> history" where
  "ConvStack_new e sock name pubEndpoints subEndpoint receiverEndpoint subTopics conversionMap h =
     (let (base, h) = ZmqStack_new e sock name pubEndpoints subEndpoint receiverEndpoint [] subTopics h
      in (\<lparr>cv_base = base, cv_map = conversionMap\<rparr>, h))"

text \<open>
  \<open>onReceivedMessage\<close>: a message of one part comes from the receiver and is filed under a
  fixed topic.
\<close>

definition receiver_topic :: string where
  "receiver_topic = ''zmqStack-0-ingress''"

definition convert :: "env \<Rightarrow> string \<Rightarrow> string \<Rightarrow> ConvStack \<times> history \<Rightarrow> unit outcome \<times> ConvStack \<times> history" where
  "convert e topic msg vh =
     (case vh of (v, h) \<Rightarrow>
      (case cv_map v topic of
         None \<Rightarrow> (Inr (), v, h)
       | Some topics \<Rightarrow>
           (case ZmqStack_Publish_all e topics msg (cv_base v, h) of
              (Inl err, z, h) \<Rightarrow> (Inl err, v\<lparr>cv_base := z\<rparr>, h)
            | (Inr _, z, h) \<Rightarrow>
                (Inr (), v\<lparr>cv_base := z\<rparr>,
                 log_info (zs_name z @ '' receive message '' @ msg @ '' on topic '' @ topic @
                   '' publishing to '' @ fmt_join '' '' topics) h))))"

definition ConvStack_onReceivedMessage ::
  "env \<Rightarrow> string list \<Rightarrow> ConvStack \<times> history \<Rightarrow> unit outcome \<times> ConvStack \<times> history" where
  "ConvStack_onReceivedMessage e msgs vh =
     (case vh of (v, h) \<Rightarrow>
      (case msgs of
         [] \<Rightarrow> (Inl (Undefined ''msgs[0] of an empty vector''), v, h)
       | [m] \<Rightarrow> convert e receiver_topic m
                 (v, log_info (zs_name (cv_base v) @ '' Receiver received message '' @ m @ '' '') h)
       | topic # m # _ \<Rightarrow> convert e topic m (v, h)))"

definition ConvStack_onCtrlMessage :: "string list \<Rightarrow> ConvStack \<times> history \<Rightarrow> unit outcome \<times> ConvStack \<times> history" where
  "ConvStack_onCtrlMessage msgs vh =
     (case vh of (v, h) \<Rightarrow>
      (case msgs of
         m0 # m1 # _ \<Rightarrow> (Inr (), v, log_info (''Received ctrl message '' @ m1 @ '' on topic '' @ m0) h)
       | _ \<Rightarrow> (Inl (Undefined ''msgs[1] of a shorter vector''), v, h)))"

text \<open>
  \<open>AddConversion\<close> and \<open>RemoveConversion\<close>: the subscription first, so a throwing socket leaves
  the map as it was.
\<close>

definition AddConversion ::
  "env \<Rightarrow> string \<Rightarrow> string list \<Rightarrow> ConvStack \<times> history \<Rightarrow> unit outcome \<times> ConvStack \<times> history" where
  "AddConversion e subTopic pubTopics vh =
     (case vh of (v, h) \<Rightarrow>
      (case ZmqStack_Subscribe e subTopic (cv_base v, h) of
         (Inl err, z, h) \<Rightarrow> (Inl err, v\<lparr>cv_base := z\<rparr>, h)
       | (Inr _, z, h) \<Rightarrow>
           (Inr (), v\<lparr>cv_base := z, cv_map := (cv_map v)(subTopic \<mapsto> pubTopics)\<rparr>, h)))"

definition RemoveConversion ::
  "env \<Rightarrow> string \<Rightarrow> ConvStack \<times> history \<Rightarrow> unit outcome \<times> ConvStack \<times> history" where
  "RemoveConversion e subTopic vh =
     (case vh of (v, h) \<Rightarrow>
      (case ZmqStack_Unsubscribe e subTopic (cv_base v, h) of
         (Inl err, z, h) \<Rightarrow> (Inl err, v\<lparr>cv_base := z\<rparr>, h)
       | (Inr _, z, h) \<Rightarrow> (Inr (), v\<lparr>cv_base := z, cv_map := (cv_map v)(subTopic := None)\<rparr>, h)))"

definition ConvStack_Health :: "32 word \<times> ConvStack \<Rightarrow> int \<times> 32 word \<times> ConvStack" where
  "ConvStack_Health sv =
     (case sv of (lastCount, v) \<Rightarrow>
      let (status, lastCount, z) = ZmqStack_Health (lastCount, cv_base v)
      in (status, lastCount, v\<lparr>cv_base := z\<rparr>))"

interpretation conv_health: health_service ConvStack_Health "\<lambda>(l, v). progressed (l, cv_base v)"
  by unfold_locales
     (auto simp: ConvStack_Health_def ZmqStack_Health_def progressed_def Subscriber_Count_def Let_def)

definition ConvStack_target :: "env \<Rightarrow> ConvStack target" where
  "ConvStack_target e =
     \<lparr>onReceivedMessage = ConvStack_onReceivedMessage e, onCtrlMessage = ConvStack_onCtrlMessage\<rparr>"

section \<open>What publishing can do\<close>

lemma publishMsg_only_zmq: "only_zmq (fst (publishMsg e topic msg ph))"
  by (cases ph)
     (auto simp: publishMsg_def pub_send_def zmq_defs Let_def andThen_def only_zmq_def
       split: option.splits sum.splits error.splits prod.splits if_splits)

lemma publishMsgs_only_zmq: "only_zmq (fst (publishMsgs e topics msg ph))"
  unfolding publishMsgs_fold by (rule only_zmq_for_each) (rule publishMsg_only_zmq)

lemma Publish_all_only_zmq: "only_zmq (fst (ZmqStack_Publish_all e topics msg zh))"
  using publishMsgs_only_zmq[of e topics msg]
  by (auto simp: ZmqStack_Publish_all_def Let_def split: prod.splits) (metis fst_conv)

lemma convert_only_zmq: "only_zmq (fst (convert e topic msg (v, h)))"
proof (cases "cv_map v topic")
  case None
  then show ?thesis by (simp add: convert_def)
next
  case (Some topics)
  then show ?thesis using Publish_all_only_zmq[of e topics msg "(cv_base v, h)"]
    by (auto simp: convert_def only_zmq_def split: prod.splits sum.splits error.splits)
qed

interpretation conv_target: pull_target "ConvStack_target e" for e
  by unfold_locales
     (auto simp: ConvStack_target_def ConvStack_onReceivedMessage_def ConvStack_onCtrlMessage_def
       convert_only_zmq split: list.splits prod.splits)

section \<open>Routing\<close>

lemma Publish_all_ok:
  assumes "ZmqStack_Publish_all e topics msg (z, h) = (Inr (), z', h')"
  shows "sent_on (pub_socket (zs_publisher z)) h' =
      sent_on (pub_socket (zs_publisher z)) h @ map (\<lambda>t. [t, msg]) topics"
    and "zs_publisher z' = (zs_publisher z)\<lparr>pub_total := pub_total (zs_publisher z) + length topics\<rparr>"
    and "z' = z\<lparr>zs_publisher := zs_publisher z'\<rparr>"
  using assms publishMsgs_ok[of e topics msg "zs_publisher z"]
  by (auto simp: ZmqStack_Publish_all_def Let_def log_info_def split: prod.splits)
     (force+)?

text \<open>
  The specification: where a message of a topic goes under a conversion map, as the list of
  messages to publish.
\<close>

definition routed :: "(string \<rightharpoonup> string list) \<Rightarrow> string \<Rightarrow> string \<Rightarrow> string list list" where
  "routed m topic msg = (case m topic of None \<Rightarrow> [] | Some topics \<Rightarrow> map (\<lambda>t. [t, msg]) topics)"

lemma convert_ok:
  assumes "convert e topic msg (v, h) = (Inr (), v', h')"
  shows "sent_on (pub_socket (zs_publisher (cv_base v))) h' =
      sent_on (pub_socket (zs_publisher (cv_base v))) h @ routed (cv_map v) topic msg"
    and "cv_map v' = cv_map v"
    and "pub_total (zs_publisher (cv_base v')) =
      pub_total (zs_publisher (cv_base v)) + length (routed (cv_map v) topic msg)"
    and "pub_socket (zs_publisher (cv_base v')) = pub_socket (zs_publisher (cv_base v))"
proof -
  have "sent_on (pub_socket (zs_publisher (cv_base v))) h' =
      sent_on (pub_socket (zs_publisher (cv_base v))) h @ routed (cv_map v) topic msg \<and>
    cv_map v' = cv_map v \<and>
    pub_total (zs_publisher (cv_base v')) =
      pub_total (zs_publisher (cv_base v)) + length (routed (cv_map v) topic msg) \<and>
    pub_socket (zs_publisher (cv_base v')) = pub_socket (zs_publisher (cv_base v))"
  proof (cases "cv_map v topic")
    case None
    then show ?thesis using assms by (simp add: convert_def routed_def)
  next
    case (Some topics)
    then obtain z h1 where pub: "ZmqStack_Publish_all e topics msg (cv_base v, h) = (Inr (), z, h1)"
      and v': "v' = v\<lparr>cv_base := z\<rparr>" and h': "sent_on k h' = sent_on k h1" for k
      using assms by (auto simp: convert_def log_info_def split: prod.splits sum.splits)
    show ?thesis using Publish_all_ok(1,2)[OF pub] Some by (simp add: v' h' routed_def)
  qed
  then show "sent_on (pub_socket (zs_publisher (cv_base v))) h' =
      sent_on (pub_socket (zs_publisher (cv_base v))) h @ routed (cv_map v) topic msg"
    and "cv_map v' = cv_map v"
    and "pub_total (zs_publisher (cv_base v')) =
      pub_total (zs_publisher (cv_base v)) + length (routed (cv_map v) topic msg)"
    and "pub_socket (zs_publisher (cv_base v')) = pub_socket (zs_publisher (cv_base v))"
    by simp_all
qed

section \<open>Properties\<close>

text \<open>The topic and payload a received message is routed by.\<close>

fun route_key :: "string list \<Rightarrow> string \<times> string" where
  "route_key [] = ([], [])"
| "route_key [m] = (receiver_topic, m)"
| "route_key (topic # m # _) = (topic, m)"

definition routed_message :: "(string \<rightharpoonup> string list) \<Rightarrow> string list \<Rightarrow> string list list" where
  "routed_message m msgs = routed m (fst (route_key msgs)) (snd (route_key msgs))"

abbreviation conv_socket :: "ConvStack \<Rightarrow> nat" where
  "conv_socket v \<equiv> pub_socket (zs_publisher (cv_base v))"

lemma onReceivedMessage_ok:
  assumes "ConvStack_onReceivedMessage e msgs (v, h) = (Inr (), v', h')"
  shows "sent_on (conv_socket v) h' = sent_on (conv_socket v) h @ routed_message (cv_map v) msgs"
    and "cv_map v' = cv_map v" and "conv_socket v' = conv_socket v"
  using assms
  by (cases msgs rule: route_key.cases;
      auto simp: ConvStack_onReceivedMessage_def routed_message_def log_info_def dest: convert_ok)+

text \<open>C18: the converter publishes exactly what its map says. Over any sequence of received
  messages whose handling did not throw, the messages sent are, in order, each payload on each
  topic the map gives for its topic, in the order of that entry; unmapped topics produce
  nothing; a message of one part, from the receiver, is routed as \<open>zmqStack-0-ingress\<close>.\<close>

theorem converter_publishes_routes:
  assumes "for_each (ConvStack_onReceivedMessage e) messages (v, h) = (Inr (), v', h')"
  shows "sent_on (conv_socket v) h' = sent_on (conv_socket v) h @ concat (map (routed_message (cv_map v)) messages) \<and>
     cv_map v' = cv_map v"
  using assms
proof (induction messages arbitrary: v h)
  case Nil
  then show ?case by simp
next
  case (Cons msgs messages)
  then obtain v1 h1 where step: "ConvStack_onReceivedMessage e msgs (v, h) = (Inr (), v1, h1)"
    and rest: "for_each (ConvStack_onReceivedMessage e) messages (v1, h1) = (Inr (), v', h')"
    by (auto simp: andThen_ok_iff)
  show ?case using Cons.IH[OF rest] onReceivedMessage_ok[OF step] by simp
qed

definition sample_converter :: "ConvStack \<times> history" where
  "sample_converter = ConvStack_new quiet_env 0 ''conv'' [] ''inproc://sub'' [] [''in'']
     [''in'' \<mapsto> [''out1'', ''out2''], receiver_topic \<mapsto> [''out3'']] []"

lemma sample_converter_fields:
  "pub_open (zs_publisher (cv_base (fst sample_converter)))" "conv_socket (fst sample_converter) = 0"
  "cv_map (fst sample_converter) = [''in'' \<mapsto> [''out1'', ''out2''], receiver_topic \<mapsto> [''out3'']]"
  "sent_on 0 (snd sample_converter) = []" "sub_open (zs_subscriber (cv_base (fst sample_converter)))"
  by (simp_all add: sample_converter_def ConvStack_new_def ZmqStack_new_def Publisher_new_def Subscriber_new_def
      zmq_defs quiet_env_def)

lemma quiet_publishMsgs:
  "pub_open p \<Longrightarrow> \<exists>h'. publishMsgs quiet_env topics msg (p, h) = (Inr (), p\<lparr>pub_total := pub_total p + length topics\<rparr>, h')"
  unfolding publishMsgs_fold
proof (induction topics arbitrary: p h)
  case (Cons topic topics)
  have "publishMsg quiet_env topic msg (p, h) =
      (Inr (), p\<lparr>pub_total := pub_total p + 1\<rparr>, h @ [ZmqSend (pub_socket p) [topic, msg]])"
    using Cons.prems by (simp add: publishMsg_def pub_send_def zmq_defs quiet_env_def)
  then show ?case
    using Cons.IH[of "p\<lparr>pub_total := pub_total p + 1\<rparr>" "h @ [ZmqSend (pub_socket p) [topic, msg]]"] Cons.prems by simp
qed simp

lemma quiet_onReceivedMessage:
  assumes "pub_open (zs_publisher (cv_base v))" and "msgs \<noteq> []"
  shows "\<exists>v' h'. ConvStack_onReceivedMessage quiet_env msgs (v, h) = (Inr (), v', h') \<and>
     pub_open (zs_publisher (cv_base v'))"
proof -
  have "\<exists>v' h'. convert quiet_env topic msg (v, h) = (Inr (), v', h') \<and> pub_open (zs_publisher (cv_base v'))"
    for topic msg h
  proof (cases "cv_map v topic")
    case None
    then show ?thesis using assms(1) by (simp add: convert_def)
  next
    case (Some topics)
    with quiet_publishMsgs[OF assms(1), of topics msg
        "log_info (''Published message '' @ msg @ '' to topics '' @ fmt_join '' '' topics) h"] assms(1)
    show ?thesis by (auto simp: convert_def ZmqStack_Publish_all_def)
  qed
  then show ?thesis using assms(2)
    by (cases msgs rule: route_key.cases) (auto simp: ConvStack_onReceivedMessage_def)
qed

theorem converter_publishes_routes_witness:
  "\<exists>v' h'. for_each (ConvStack_onReceivedMessage quiet_env) [[''in'', ''x''], [''other'', ''y''], [''z'']] sample_converter = (Inr (), v', h') \<and>
     sent_on 0 h' = [[''out1'', ''x''], [''out2'', ''x''], [''out3'', ''z'']]"
proof -
  obtain v h where st: "sample_converter = (v, h)" by (cases sample_converter)
  note f = sample_converter_fields[unfolded st fst_conv snd_conv]
  have "\<exists>v' h'. for_each (ConvStack_onReceivedMessage quiet_env) ms (v, h) = (Inr (), v', h')"
    if "pub_open (zs_publisher (cv_base v))" "\<forall>m \<in> set ms. m \<noteq> []" for ms v h
    using that
  proof (induction ms arbitrary: v h)
    case (Cons m ms)
    then show ?case using quiet_onReceivedMessage[of v m h] by auto
  qed simp
  from this[OF f(1), of "[[''in'', ''x''], [''other'', ''y''], [''z'']]" h] obtain v' h' where
    run: "for_each (ConvStack_onReceivedMessage quiet_env) [[''in'', ''x''], [''other'', ''y''], [''z'']] (v, h) = (Inr (), v', h')"
    by auto
  from converter_publishes_routes[OF run] f
  have "sent_on 0 h' = [[''out1'', ''x''], [''out2'', ''x''], [''out3'', ''z'']]"
    by (simp add: routed_message_def routed_def receiver_topic_def)
  with run show ?thesis unfolding st by blast
qed

text \<open>Adding a conversion and removing it again. After \<open>AddConversion\<close> messages of the
  topic go to its new targets and all others as before; \<open>RemoveConversion\<close> of the topic stops
  it. When the socket refuses the subscription the map is left as it was, although the set of
  subscriptions has already changed.\<close>

theorem conversion_update:
  assumes "AddConversion e from to (v, h) = (r, v1, h1)"
  shows "if r = Inr ()
     then cv_map v1 = (cv_map v)(from \<mapsto> to) \<and> from \<in># filters e (sub_socket (zs_subscriber (cv_base v1))) h1 \<and>
          (\<forall>v2 h2. RemoveConversion e from (v1, h1) = (Inr (), v2, h2) \<longrightarrow> cv_map v2 = (cv_map v)(from := None))
     else cv_map v1 = cv_map v \<and> from \<in> Subscriptions (cv_base v1)"
proof -
  obtain r0 z h0 where sub: "ZmqStack_Subscribe e from (cv_base v, h) = (r0, z, h0)"
    by (cases "ZmqStack_Subscribe e from (cv_base v, h)")
  have listed: "from \<in> Subscriptions z"
    using sub by (auto simp: ZmqStack_Subscribe_def Subscriptions_def Let_def split: prod.splits)
  have filtered: "from \<in># filters e (sub_socket (zs_subscriber z)) h0" if "r0 = Inr ()"
    using sub_command_filters(1,2)[of e "AddTopic from" "cv_base v" h z h0] sub that by simp
  have removed: "cv_map v2 = (cv_map v1)(from := None)" if "RemoveConversion e from (v1, h1) = (Inr (), v2, h2)" for v2 h2
    using that by (auto simp: RemoveConversion_def split: prod.splits sum.splits)
  show ?thesis
  proof (cases r0)
    case (Inl err)
    then show ?thesis using assms sub listed by (auto simp: AddConversion_def)
  next
    case (Inr u)
    then have "r = Inr ()" "v1 = v\<lparr>cv_base := z, cv_map := (cv_map v)(from \<mapsto> to)\<rparr>" "h1 = h0"
      using assms sub by (auto simp: AddConversion_def)
    then show ?thesis using removed filtered Inr by simp
  qed
qed

theorem conversion_update_witness:
  "\<exists>v1 h1. AddConversion quiet_env ''new'' [''t''] sample_converter = (Inr (), v1, h1) \<and> cv_map v1 ''new'' = Some [''t'']"
proof -
  obtain v h where st: "sample_converter = (v, h)" by (cases sample_converter)
  have "\<exists>v1 h1. AddConversion quiet_env ''new'' [''t''] (v, h) = (Inr (), v1, h1)"
    using sample_converter_fields(5)[unfolded st fst_conv]
    by (simp add: AddConversion_def ZmqStack_Subscribe_def Subscriber_Subscribe_def sub_set_def zmq_call_def
        quiet_env_def)
  then obtain v1 h1 where run: "AddConversion quiet_env ''new'' [''t''] (v, h) = (Inr (), v1, h1)" by blast
  from conversion_update[OF run] run show ?thesis unfolding st by auto
qed

end
