(* ===== verification/ConvStackMain.thy ===== *)
theory ConvStackMain
  imports ConvStack ZmqStackMain
begin

text \<open>
  \<open>conv-stack/ConvStackMain.cpp\<close>: options, YAML keys and main thread of the converter. The
  \<open>std::map\<close> of conversions is kept as an association list while it is built.
\<close>

record ConvSettings = Settings +
  cm_pubEndpoint :: string
  cm_receiverEndpoint :: string
  cm_conversions :: "(string \<times> string list) list"
  cm_interactive :: bool

definition conv_defaults :: ConvSettings where
  "conv_defaults =
     \<lparr>logLevel = level_trace, configFile = ''conv-stack.yaml'', stackName = ''zmqStack'', pubEndpoints = [],
      subEndpoint = ''tcp://localhost:9210'', healthStatusPort = 6000, metricsPort = 6001, subTopics = [],
      cm_pubEndpoint = ''tcp://localhost:9200'', cm_receiverEndpoint = ''tcp://localhost:6005'',
      cm_conversions = [], cm_interactive = False\<rparr>"

text \<open>\<open>-P\<close>: the text is split at bars and its second part, which must be there, at blanks.\<close>

definition conv_option_P :: "ConvSettings handler" where
  "conv_option_P optarg cfg =
     (case split optarg (CHR ''|'') of
        from # to # _ \<Rightarrow>
          (Inr (), cfg\<lparr>cm_conversions := AList.update from (split to (CHR '' '')) (cm_conversions cfg)\<rparr>)
      | _ \<Rightarrow> (Inl (Undefined ''split1[1] of a shorter vector''), cfg))"

definition conv_option :: "char \<Rightarrow> ConvSettings handler" where
  "conv_option c =
     (if c = CHR ''f'' then set_text (\<lambda>v cfg. cfg\<lparr>configFile := v\<rparr>)
      else if c = CHR ''n'' then set_text (\<lambda>v cfg. cfg\<lparr>stackName := v\<rparr>)
      else if c = CHR ''l'' then set_stoi (\<lambda>v cfg. cfg\<lparr>logLevel := v\<rparr>)
      else if c = CHR ''p'' then set_text (\<lambda>v cfg. cfg\<lparr>pubEndpoints := pubEndpoints cfg @ [v], cm_pubEndpoint := v\<rparr>)
      else if c = CHR ''s'' then set_text (\<lambda>v cfg. cfg\<lparr>subEndpoint := v\<rparr>)
      else if c = CHR ''P'' then conv_option_P
      else if c = CHR ''S'' then set_text (\<lambda>v cfg. cfg\<lparr>subTopics := subTopics cfg @ [v]\<rparr>)
      else if c = CHR ''i'' then set_text (\<lambda>_ cfg. cfg\<lparr>cm_interactive := True\<rparr>)
      else if c = CHR ''h'' then set_stoul (\<lambda>v cfg. cfg\<lparr>healthStatusPort := ucast v\<rparr>)
      else if c = CHR ''m'' then set_stoi (\<lambda>v cfg. cfg\<lparr>metricsPort := word_of_int v\<rparr>)
      else usage_exit)"

text \<open>The key \<open>conversions\<close>: a map from a topic to a text of topics.\<close>

definition conv_entry :: "'n yaml_lib \<Rightarrow> 'n \<times> 'n \<Rightarrow> ConvSettings \<Rightarrow> unit outcome \<times> ConvSettings" where
  "conv_entry yl entry cfg =
     (case (yl_string yl (fst entry), yl_string yl (snd entry)) of
        (Some from, Some to) \<Rightarrow>
          (Inr (), cfg\<lparr>cm_conversions := AList.update from (split to (CHR '' '')) (cm_conversions cfg)\<rparr>)
      | _ \<Rightarrow> (Inl (StdException ''YAML::BadConversion''), cfg))"

definition conv_conversions_key ::
  "'n yaml_lib \<Rightarrow> (string \<Rightarrow> 'n option) \<Rightarrow> ConvSettings \<Rightarrow> unit outcome \<times> ConvSettings" where
  "conv_conversions_key yl y cfg =
     (case y ''conversions'' of
        None \<Rightarrow> (Inr (), cfg)
      | Some n \<Rightarrow>
          if yl_is_map yl n then for_each (conv_entry yl) (yl_entries yl n) cfg else (Inr (), cfg))"

definition conv_keys ::
  "'n yaml_lib \<Rightarrow> (string \<Rightarrow> 'n option) \<Rightarrow> (ConvSettings \<Rightarrow> unit outcome \<times> ConvSettings) list" where
  "conv_keys yl y =
     [yaml_set y ''log-level'' (yl_int yl) (\<lambda>v cfg. cfg\<lparr>logLevel := v\<rparr>),
      yaml_set y ''health-port'' (yl_uint16 yl) (\<lambda>v cfg. cfg\<lparr>healthStatusPort := v\<rparr>),
      yaml_set y ''metrics-port'' (yl_uint16 yl) (\<lambda>v cfg. cfg\<lparr>metricsPort := v\<rparr>),
      yaml_set y ''name'' (yl_string yl) (\<lambda>v cfg. cfg\<lparr>stackName := v\<rparr>),
      yaml_set y ''pub-endpoints'' (yl_strings yl) (\<lambda>v cfg. cfg\<lparr>pubEndpoints := v\<rparr>),
      yaml_set y ''sub-endpoint'' (yl_string yl) (\<lambda>v cfg. cfg\<lparr>subEndpoint := v\<rparr>),
      yaml_set y ''receiver-endpoint'' (yl_string yl) (\<lambda>v cfg. cfg\<lparr>cm_receiverEndpoint := v\<rparr>),
      yaml_set_sequence yl y ''sub-topics'' (\<lambda>v cfg. cfg\<lparr>subTopics := v\<rparr>),
      conv_conversions_key yl y]"

text \<open>
  One interactive command. \<open>sub\<close> takes its argument from the first bar-separated part, although
  the help puts it in the second.
\<close>

definition conv_command :: "env \<Rightarrow> string \<Rightarrow> string \<Rightarrow> ConvStack \<times> history \<Rightarrow> unit outcome \<times> ConvStack \<times> history" where
  "conv_command e name line vh =
     (case vh of (v, h) \<Rightarrow>
      let h = (if line = ''list''
               then log_info (''Stack '' @ name @ '' subscriptions '' @
                      fmt_join '' '' (set_order (Subscriptions (cv_base v)))) h
               else h)
      in (case split line (CHR ''|'') of
            [cmd, data] \<Rightarrow>
              (case split cmd (CHR '' '') of
                 [] \<Rightarrow> (Inr (), v, h)
               | cmd0 # cmds \<Rightarrow>
                   if cmd0 = ''sub'' then
                     (case cmds of
                        [] \<Rightarrow> (Inl (Undefined ''cmds[1] of a shorter vector''), v, h)
                      | cmd1 # _ \<Rightarrow>
                          (case split cmd1 (CHR '':'') of
                             topic0 # topic1 # _ \<Rightarrow> AddConversion e topic0 (split topic1 (CHR '' '')) (v, h)
                           | _ \<Rightarrow> (Inl (Undefined ''topic[1] of a shorter vector''), v, h)))
                   else if cmd0 = ''unsub'' then
                     RemoveConversion e data (v, log_info (''Unsubscribing from topic '' @ data) h)
                   else (Inr (), v, h))
          | _ \<Rightarrow> (Inr (), v, h)))"

fun conv_interactive ::
  "nat \<Rightarrow> env \<Rightarrow> string \<Rightarrow> string list \<Rightarrow> ConvStack \<times> history \<Rightarrow> bool outcome \<times> ConvStack \<times> history" where
  "conv_interactive 0 e name stdin vh = (Inr False, vh)"
| "conv_interactive (Suc fuel) e name stdin vh =
     (let (line, stdin) = read_line stdin
      in if line = ''quit'' then (Inr True, vh)
         else andThen (conv_command e name line vh) (\<lambda>_. conv_interactive fuel e name stdin))"

text \<open>The conversions in the order of the \<open>std::map\<close>.\<close>

definition conv_log :: "(string \<times> string list) list \<Rightarrow> history \<Rightarrow> history" where
  "conv_log conversions h =
     foldl (\<lambda>h (from, to). log_info (''    Convert topic '' @ from @ '' to topics '' @ fmt_join '' '' to) h) h
       (sort_key fst conversions)"

text \<open>
  \<open>main\<close>; without \<open>-i\<close> the main thread only waits for the signal. Then the health server and the
  stack are destroyed, in this order.
\<close>

definition conv_main ::
  "nat \<Rightarrow> env \<Rightarrow> 'n yaml_lib \<Rightarrow> (string \<Rightarrow> string option) \<Rightarrow> (char \<times> string) list \<Rightarrow> string list
     \<Rightarrow> history \<Rightarrow> bool outcome \<times> ConvStack option \<times> history" where
  "conv_main fuel e yl files opts stdin h =
     (case parse_options conv_option opts conv_defaults of
        (Inl err, _) \<Rightarrow> (Inl err, None, h)
      | (Inr _, cfg) \<Rightarrow>
          let (cfg, h) = read_config yl (conv_keys yl) (files (configFile cfg)) (cfg, h);
              h = log_endpoints cfg h;
              h = (if cm_receiverEndpoint cfg \<noteq> [] then log_info (''Receiver Endpoint '' @ cm_receiverEndpoint cfg) h else h);
              h = conv_log (cm_conversions cfg) h;
              h = log_each ''    Sub topic '' (subTopics cfg) h;
              (started, h) = Exposer_new e (metricsPort cfg) h
          in (case started of
                Inl err \<Rightarrow> (Inl err, None, h)
              | Inr _ \<Rightarrow>
                  let (v, h) = ConvStack_new e 0 (stackName cfg) (pubEndpoints cfg) (subEndpoint cfg)
                                 (cm_receiverEndpoint cfg) (subTopics cfg) (map_of (cm_conversions cfg)) h;
                      (hs, h) = HealthStatus_new (healthStatusPort cfg) h;
                      h = RegisterCollectable h
                  in (case (if cm_interactive cfg then conv_interactive fuel e (stackName cfg) stdin (v, h)
                            else let (fin, h) = await_signal fuel e h in (Inr fin, v, h)) of
                        (Inr True, v, h) \<Rightarrow>
                          let (_, h) = HealthStatus_delete hs h;
                              (base, h) = ZmqStack_delete (cv_base v, h)
                          in (Inr True, Some (v\<lparr>cv_base := base\<rparr>), h)
                      | (r, v, h) \<Rightarrow> (r, Some v, h))))"

section \<open>Properties\<close>

text \<open>
  The typing of the table of conversions: it is a map, each topic has one entry, and no target
  topic contains the blank that separates targets.
\<close>

definition table_ok :: "(string \<times> string list) list \<Rightarrow> bool" where
  "table_ok conversions \<longleftrightarrow>
     distinct (map fst conversions) \<and> (\<forall>(from, to) \<in> set conversions. \<forall>t \<in> set to. CHR '' '' \<notin> set t)"

definition conversions_ok :: "ConvSettings \<Rightarrow> bool" where
  "conversions_ok cfg \<longleftrightarrow> table_ok (cm_conversions cfg)"

lemma table_ok_update [simp, intro]:
  assumes "table_ok xs"
  shows "table_ok (AList.update from (split to (CHR '' '')) xs)"
proof -
  have "set (AList.update from targets xs) \<subseteq> insert (from, targets) (set xs)" for targets :: "string list"
    by (induction xs) auto
  then show ?thesis using assms split_pieces[of _ to "CHR '' ''"]
    unfolding table_ok_def by (fastforce simp: distinct_update)
qed

lemma conv_option_ok: "conversions_ok cfg \<Longrightarrow> conversions_ok (snd (conv_option c optarg cfg))"
  unfolding conv_option_def
  by (simp add: conversions_ok_def set_text_def set_stoi_def set_stoul_def usage_exit_def conv_option_P_def
      split: sum.split list.split)

lemma conv_conversions_key_ok:
  "conversions_ok cfg \<Longrightarrow> conversions_ok (snd (conv_conversions_key yl y cfg))"
proof (cases "y ''conversions''")
  case (Some n)
  assume ok: "conversions_ok cfg"
  show ?thesis
  proof (cases "yl_is_map yl n")
    case True
    have "conversions_ok (snd (conv_entry yl key_value cfg))" if "conversions_ok cfg" for key_value cfg
      using that by (cases key_value) (simp add: conv_entry_def conversions_ok_def split: option.split)
    then show ?thesis using Some True ok
      by (simp add: conv_conversions_key_def for_each_keeps[where P = conversions_ok])
  qed (simp add: conv_conversions_key_def Some ok)
qed (simp add: conv_conversions_key_def)

lemma conv_keys_ok:
  "set_key \<in> set (conv_keys yl y) \<Longrightarrow> conversions_ok cfg \<Longrightarrow> conversions_ok (snd (set_key cfg))"
  using conv_conversions_key_ok[of cfg yl y]
  by (auto simp: conv_keys_def yaml_set_def yaml_set_sequence_def conversions_ok_def split: option.split)



text \<open>The option \<open>-P topic|topic1 ... topicn\<close> makes the converter send messages of the topic
  to exactly these topics and changes no other conversion; without a bar in its argument the
  behaviour of the program is undefined.\<close>

theorem conversion_option:
  assumes "from \<noteq> []" and "CHR ''|'' \<notin> set from" and "to \<noteq> []" and "last to \<noteq> []"
    and "\<forall>t \<in> set to. CHR '' '' \<notin> set t \<and> CHR ''|'' \<notin> set t"
  shows "\<exists>cfg'. conv_option (CHR ''P'') (from @ ''|'' @ fmt_join '' '' to) cfg = (Inr (), cfg') \<and>
       map_of (cm_conversions cfg') = (map_of (cm_conversions cfg))(from \<mapsto> to) \<and>
       \<not> defined (fst (conv_option (CHR ''P'') from cfg))"
proof -
  have bars: "CHR ''|'' \<notin> set (fmt_join '' '' ts)" if "\<forall>t \<in> set ts. CHR ''|'' \<notin> set t" for ts
    using that by (induction "'' ''" ts rule: fmt_join.induct) auto
  have "fmt_join '' '' ts \<noteq> []" if "last ts \<noteq> []" "ts \<noteq> []" for ts
    using that by (induction "'' ''" ts rule: fmt_join.induct) auto
  then have "split (from @ ''|'' @ fmt_join '' '' to) (CHR ''|'') = [from, fmt_join '' '' to]"
    using split_fmt_join[of "[from, fmt_join '' '' to]" "CHR ''|''"] bars[of to] assms by simp
  moreover have "split (fmt_join '' '' to) (CHR '' '') = to"
    by (rule split_fmt_join[OF assms(3,4)]) (use assms(5) in auto)
  moreover have "split from (CHR ''|'') = [from]"
    using split_fmt_join[of "[from]" "CHR ''|''"] assms(1,2) by simp
  ultimately show ?thesis by (simp add: conv_option_def conv_option_P_def update_conv')
qed

theorem conversion_option_witness:
  "\<exists>cfg'. conv_option (CHR ''P'') ''in|out1 out2'' conv_defaults = (Inr (), cfg') \<and>
     map_of (cm_conversions cfg') ''in'' = Some [''out1'', ''out2''] \<and>
     \<not> defined (fst (conv_option (CHR ''P'') ''in'' conv_defaults))"
  using conversion_option[of "''in''" "[''out1'', ''out2'']" conv_defaults] by auto

text \<open>The documented form of the interactive command, \<open>sub|\<close> followed by what to add, never
  adds a conversion: for every non-empty rest without a bar the program indexes past the end of
  the split command.\<close>

theorem documented_sub_command_undefined:
  assumes "data \<noteq> []" and "CHR ''|'' \<notin> set data"
  shows "\<not> defined (fst (conv_command e name (''sub|'' @ data) (v, h)))"
proof -
  have "split (''sub|'' @ data) (CHR ''|'') = [''sub'', data]"
    using split_fmt_join[of "[''sub'', data]" "CHR ''|''"] assms by simp
  moreover have "split ''sub'' (CHR '' '') = [''sub'']"
    using split_fmt_join[of "[''sub'']" "CHR '' ''"] by simp
  ultimately show ?thesis by (simp add: conv_command_def)
qed

theorem documented_sub_command_undefined_witness:
  "\<not> defined (fst (conv_command quiet_env ''conv'' (''sub|'' @ ''topic1:topic2 topic3'') sample_converter))"
  using documented_sub_command_undefined[of "''topic1:topic2 topic3''" quiet_env "''conv''" "fst sample_converter" "snd sample_converter"]
  by simp

end
