(* ===== verification/SocketCore.thy ===== *)
theory SocketCore
  imports Environment
begin

text \<open>
  \<open>common/SocketCommon.h\<close>, \<open>common/SocketCore.h\<close> and \<open>common/AddrLookup.h\<close>: the status and
  option structures, the pass-through class over the socket API (Linux branch of the
  preprocessor conditionals), and host name resolution.
\<close>

section \<open>SocketRet and SocketOpt\<close>

record SocketRet =
  m_msg :: string
  m_success :: bool

definition SocketRet_init :: SocketRet where
  "SocketRet_init = \<lparr>m_msg = [], m_success = False\<rparr>"

definition TX_BUFFER_SIZE :: int where "TX_BUFFER_SIZE = 10240"
definition RX_BUFFER_SIZE :: int where "RX_BUFFER_SIZE = 10240"

record SocketOpt =
  m_txBufSize :: int
  m_rxBufSize :: int
  m_listenAddr :: string

definition SocketOpt_init :: SocketOpt where
  "SocketOpt_init =
     \<lparr>m_txBufSize = TX_BUFFER_SIZE, m_rxBufSize = RX_BUFFER_SIZE, m_listenAddr = ''0.0.0.0''\<rparr>"

text \<open>
  Error texts are built with \<open>snprintf\<close> into an array of \<open>MSG_SIZE\<close> characters
  (\<open>FMT_SUPPORT\<close> is defined by no build file): at most \<open>MSG_SIZE - 1\<close> are kept.
\<close>

definition MSG_SIZE :: nat where "MSG_SIZE = 100"

definition snprintf :: "string \<Rightarrow> string" where
  "snprintf text = take (MSG_SIZE - 1) text"

abbreviation failure :: "string \<Rightarrow> SocketRet" where
  "failure text \<equiv> \<lparr>m_msg = text, m_success = False\<rparr>"

abbreviation success :: SocketRet where
  "success \<equiv> \<lparr>m_msg = [], m_success = True\<rparr>"

lemma length_snprintf: "length (snprintf text) < MSG_SIZE"
  by (simp add: snprintf_def MSG_SIZE_def min_def)

section \<open>SocketCore\<close>

definition INVALID_SOCKET :: int where "INVALID_SOCKET = -1"
definition AF_INET :: int where "AF_INET = 2"
definition SOCK_STREAM :: int where "SOCK_STREAM = 1"
definition MAX_PACKET_SIZE :: nat where "MAX_PACKET_SIZE = 65536"
lemma MAX_PACKET_SIZE_pos [simp]: "0 < MAX_PACKET_SIZE" "MAX_PACKET_SIZE \<noteq> 0"
  by (simp_all add: MAX_PACKET_SIZE_def)

definition FD_SETSIZE :: int where "FD_SETSIZE = 1024"

definition core_Initialize :: "env \<Rightarrow> history \<Rightarrow> int \<times> history" where
  "core_Initialize e h = (0, h)"

definition core_Socket :: "env \<Rightarrow> int \<Rightarrow> int \<Rightarrow> int \<Rightarrow> history \<Rightarrow> int \<times> history" where
  "core_Socket e domain type protocol h =
     (let c = SysSocket domain type protocol in (int_result e h c, h @ [c]))"

definition core_SetSockOpt :: "env \<Rightarrow> int \<Rightarrow> sockopt \<Rightarrow> int \<Rightarrow> history \<Rightarrow> int \<times> history" where
  "core_SetSockOpt e fd opt val h = (let c = SysSetSockOpt fd opt val in (int_result e h c, h @ [c]))"

definition core_Bind :: "env \<Rightarrow> int \<Rightarrow> sockaddr_in \<Rightarrow> history \<Rightarrow> int \<times> history" where
  "core_Bind e fd addr h = (let c = SysBind fd addr in (int_result e h c, h @ [c]))"

text \<open>\<open>accept\<close> fills the peer's address beside the returned descriptor.\<close>

definition core_Accept :: "env \<Rightarrow> int \<Rightarrow> history \<Rightarrow> (int \<times> sockaddr_in) \<times> history" where
  "core_Accept e fd h = (let c = SysAccept fd in ((int_result e h c, peer_addr e h), h @ [c]))"

definition core_Listen :: "env \<Rightarrow> int \<Rightarrow> int \<Rightarrow> history \<Rightarrow> int \<times> history" where
  "core_Listen e fd backlog h = (let c = SysListen fd backlog in (int_result e h c, h @ [c]))"

definition core_Connect :: "env \<Rightarrow> int \<Rightarrow> sockaddr_in \<Rightarrow> history \<Rightarrow> int \<times> history" where
  "core_Connect e fd addr h = (let c = SysConnect fd addr in (int_result e h c, h @ [c]))"

definition core_Close :: "env \<Rightarrow> int \<Rightarrow> history \<Rightarrow> int \<times> history" where
  "core_Close e fd h = (let c = SysClose fd in (int_result e h c, h @ [c]))"

text \<open>\<open>select\<close> overwrites the set it is given with those of its members that are readable.\<close>

definition core_Select :: "env \<Rightarrow> int \<Rightarrow> int set \<Rightarrow> history \<Rightarrow> (int \<times> int set) \<times> history" where
  "core_Select e nfds readfds h =
     (let c = SysSelect nfds readfds in ((int_result e h c, readfds \<inter> ready_fds e h), h @ [c]))"

text \<open>\<open>recv\<close> returns -1, or the number of bytes it stored, at most \<open>len\<close> of them.\<close>

definition core_Recv :: "env \<Rightarrow> int \<Rightarrow> nat \<Rightarrow> history \<Rightarrow> (int \<times> string) \<times> history" where
  "core_Recv e fd len h =
     (case recv_bytes e h fd of
        None \<Rightarrow> ((-1, []), h @ [SysRecv fd len])
      | Some bytes \<Rightarrow> ((int (length (take len bytes)), take len bytes), h @ [SysRecv fd len]))"

definition core_Send :: "env \<Rightarrow> int \<Rightarrow> string \<Rightarrow> history \<Rightarrow> int \<times> history" where
  "core_Send e fd buf h = (let c = SysSend fd buf in (int_result e h c, h @ [c]))"

definition core_SendTo :: "env \<Rightarrow> int \<Rightarrow> string \<Rightarrow> sockaddr_in \<Rightarrow> history \<Rightarrow> int \<times> history" where
  "core_SendTo e fd buf addr h = (let c = SysSendTo fd buf addr in (int_result e h c, h @ [c]))"

definition core_GetAddrInfo :: "env \<Rightarrow> string \<Rightarrow> history \<Rightarrow> (int \<times> in_addr list) \<times> history" where
  "core_GetAddrInfo e node h =
     (let c = SysGetAddrInfo node in ((int_result e h c, resolved e h node), h @ [c]))"

definition core_FreeAddrInfo :: "history \<Rightarrow> history" where
  "core_FreeAddrInfo h = h @ [SysFreeAddrInfo]"

lemmas core_simps [io_simps] =
  core_Initialize_def core_Socket_def [unfolded Let_def] core_SetSockOpt_def [unfolded Let_def]
  core_Bind_def [unfolded Let_def] core_Accept_def [unfolded Let_def] core_Listen_def [unfolded Let_def]
  core_Connect_def [unfolded Let_def] core_Close_def [unfolded Let_def] core_Select_def [unfolded Let_def]
  core_Recv_def core_Send_def [unfolded Let_def] core_SendTo_def [unfolded Let_def] core_GetAddrInfo_def [unfolded Let_def] core_FreeAddrInfo_def

text \<open>What one \<open>recv\<close> stores always fits the buffer.\<close>

lemma core_Recv_length: "core_Recv e fd len h = ((n, data), h') \<Longrightarrow> length data \<le> len"
  by (auto simp: core_Recv_def split: option.splits)

section \<open>fd_set\<close>

text \<open>
  An \<open>fd_set\<close> is a bit set of \<open>FD_SETSIZE\<close> bits. Setting, clearing or testing a
  descriptor outside it is undefined behaviour.
\<close>

definition FD_SET :: "int \<Rightarrow> int set \<Rightarrow> int set outcome" where
  "FD_SET fd fds =
     (if 0 \<le> fd \<and> fd < FD_SETSIZE then Inr (insert fd fds)
      else Inl (Undefined ''FD_SET past the end of the fd_set''))"

definition FD_CLR :: "int \<Rightarrow> int set \<Rightarrow> int set outcome" where
  "FD_CLR fd fds =
     (if 0 \<le> fd \<and> fd < FD_SETSIZE then Inr (fds - {fd})
      else Inl (Undefined ''FD_CLR past the end of the fd_set''))"

lemma FD_SET_ok [simp]: "0 \<le> fd \<Longrightarrow> fd < FD_SETSIZE \<Longrightarrow> FD_SET fd fds = Inr (insert fd fds)"
  by (simp add: FD_SET_def)

lemma FD_CLR_ok [simp]: "0 \<le> fd \<Longrightarrow> fd < FD_SETSIZE \<Longrightarrow> FD_CLR fd fds = Inr (fds - {fd})"
  by (simp add: FD_CLR_def)

section \<open>AddrLookup\<close>

text \<open>
  \<open>lookupHost\<close>: the returned code and the address written through the reference, which is
  left alone on failure.
\<close>

definition lookupHost :: "env \<Rightarrow> string \<Rightarrow> in_addr \<Rightarrow> history \<Rightarrow> (int \<times> in_addr) \<times> history" where
  "lookupHost e host addr h =
     (let ((errcode, result), h) = core_GetAddrInfo e host h
      in if errcode \<noteq> 0 then ((-1, addr), h)
         else case result of
                [] \<Rightarrow> ((-1, addr), core_FreeAddrInfo h)
              | res # _ \<Rightarrow> ((errcode, res), core_FreeAddrInfo h))"

end
