(* ===== verification/TcpServer.thy ===== *)
theory TcpServer
  imports SocketCore
begin

text \<open>
  \<open>common/TcpServer.h\<close>: the TCP server, its client table, the operations of its owner and
  the thread that accepts connections and receives data. \<open>serverTask\<close> is given twice: as
  the function one thread runs, and (section on interleaving) as a step relation in which
  the broadcasts of the subscriber thread and the stop request come between its steps.
  Mutex-protected regions are single steps; \<open>m_mutex\<close> itself has no state in the model.
\<close>

section \<open>State\<close>

text \<open>\<open>struct Client\<close>; its \<open>m_socketCore\<close> pointer is the server's own socket interface.\<close>

record Client =
  c_ip :: string
  c_sockfd :: int
  c_port :: "16 word"
  c_isConnected :: bool

text \<open>
  \<open>m_clients\<close> is an \<open>std::unordered_map\<close>, held as its entries in iteration order. That order
  is unspecified; every statement about a loop over the table is for an arbitrary list.
  \<open>srv_joinable\<close> is \<open>m_thread.joinable()\<close>.
\<close>

record TcpServer =
  srv_sockfd :: int
  srv_serverAddress :: sockaddr_in
  srv_clientAddress :: sockaddr_in
  srv_fds :: "int set"
  srv_stop :: bool
  srv_clients :: "(int \<times> Client) list"
  srv_joinable :: bool
  srv_options :: SocketOpt

definition zero_addr :: sockaddr_in where
  "zero_addr = \<lparr>sin_addr = INADDR_ANY, sin_port = 0\<rparr>"

definition TcpServer_init :: "SocketOpt option \<Rightarrow> TcpServer" where
  "TcpServer_init options =
     \<lparr>srv_sockfd = INVALID_SOCKET, srv_serverAddress = zero_addr, srv_clientAddress = zero_addr,
      srv_fds = {}, srv_stop = False, srv_clients = [], srv_joinable = False,
      srv_options = (case options of None \<Rightarrow> SocketOpt_init | Some opt \<Rightarrow> opt)\<rparr>"

abbreviation handles :: "TcpServer \<Rightarrow> int set" where
  "handles s \<equiv> fst ` set (srv_clients s)"

section \<open>start\<close>

text \<open>
  \<open>start\<close>: every failed call returns at once, with the socket left in \<open>m_sockfd\<close>. The result
  of \<open>inet_pton\<close> is not looked at, so an unreadable listen address leaves the zeroed
  \<open>INADDR_ANY\<close>. Assigning a new thread over a joinable one calls \<open>std::terminate\<close>.
\<close>

definition start :: "env \<Rightarrow> 16 word \<Rightarrow> TcpServer \<Rightarrow> history \<Rightarrow> SocketRet outcome \<times> TcpServer \<times> history" where
  "start e port s h =
     (let (result, h) = core_Initialize e h in
      if result \<noteq> 0 then
        (Inr (failure (snprintf (''Error: Socket initialization failed: '' @ show_int result))), s, h)
      else
      let (fd, h) = core_Socket e AF_INET SOCK_STREAM 0 h;
          s = s\<lparr>srv_sockfd := fd\<rparr> in
      if fd = INVALID_SOCKET then
        (Inr (failure (snprintf (''Error: Socket creation failed: '' @ show_int (errno_of e h)))), s, h)
      else
      let (result, h) = core_SetSockOpt e fd SO_REUSEADDR 1 h in
      if result < 0 then
        (Inr (failure (snprintf (''Error: SetSockOpt(SO_REUSEADDR) failed: '' @ show_int (errno_of e h)))), s, h)
      else
      let (result, h) = core_SetSockOpt e fd SO_RCVBUF (m_rxBufSize (srv_options s)) h in
      if result < 0 then
        (Inr (failure (snprintf (''Error: SetSockOpt(SO_RCVBUF) failed: '' @ show_int (errno_of e h)))), s, h)
      else
      let (result, h) = core_SetSockOpt e fd SO_SNDBUF (m_txBufSize (srv_options s)) h in
      if result < 0 then
        (Inr (failure (snprintf (''Error: SetSockOpt(SO_SNDBUF) failed: '' @ show_int (errno_of e h)))), s, h)
      else
      let ip = (case inet_pton (m_listenAddr (srv_options s)) of Some ip \<Rightarrow> ip | None \<Rightarrow> INADDR_ANY);
          addr = \<lparr>sin_addr = ip, sin_port = htons port\<rparr>;
          s = s\<lparr>srv_serverAddress := addr\<rparr>;
          (bindSuccess, h) = core_Bind e fd addr h in
      if bindSuccess = -1 then
        (Inr (failure (snprintf (''BInd error: '' @ show_int (errno_of e h)))), s, h)
      else
      let (listenSuccess, h) = core_Listen e fd 5 h in
      if listenSuccess = -1 then
        (Inr (failure (snprintf (''Error: listen() failed: '' @ show_int (errno_of e h)))), s, h)
      else
      (case FD_SET fd {} of
         Inl err \<Rightarrow> (Inl err, s, h)
       | Inr fds \<Rightarrow>
           let s = s\<lparr>srv_fds := fds\<rparr> in
           if srv_joinable s then (Inl (Terminated ''assignment to a joinable std::thread''), s, h)
           else (Inr success, s\<lparr>srv_joinable := True\<rparr>, h)))"

section \<open>Operations on clients\<close>

text \<open>\<open>Client::sendMsg\<close>.\<close>

definition client_sendMsg :: "env \<Rightarrow> string \<Rightarrow> Client \<Rightarrow> history \<Rightarrow> SocketRet \<times> history" where
  "client_sendMsg e msg c h =
     (if c_sockfd c \<noteq> INVALID_SOCKET then
        let (numBytesSent, h) = core_Send e (c_sockfd c) msg h in
        if numBytesSent < 0 then
          (failure (snprintf (''Error: send() failed: '' @ show_int (errno_of e h))), h)
        else if nat numBytesSent < length msg then
          (failure (snprintf (''Only '' @ show_int numBytesSent @ '' bytes out of '' @
             show_nat (length msg) @ '' was sent to client'')), h)
        else (success, h)
      else (success, h))"

definition deleteClient :: "env \<Rightarrow> int \<Rightarrow> TcpServer \<Rightarrow> history \<Rightarrow> bool outcome \<times> TcpServer \<times> history" where
  "deleteClient e handle s h =
     (case map_of (srv_clients s) handle of
        Some client \<Rightarrow>
          let (_, h) = core_Close e (c_sockfd client) h in
          (case FD_CLR (c_sockfd client) (srv_fds s) of
             Inl err \<Rightarrow> (Inl err, s, h)
           | Inr fds \<Rightarrow>
               (Inr True, s\<lparr>srv_fds := fds, srv_clients := AList.delete handle (srv_clients s)\<rparr>, h))
      | None \<Rightarrow> (Inr False, s, h))"

text \<open>\<open>sendBcast\<close>: the loop stops at the first client whose send fails.\<close>

fun sendBcast_loop :: "env \<Rightarrow> string \<Rightarrow> (int \<times> Client) list \<Rightarrow> SocketRet \<Rightarrow> history \<Rightarrow> SocketRet \<times> history" where
  "sendBcast_loop e msg [] ret h = (ret, h)"
| "sendBcast_loop e msg ((_, client) # clients) ret h =
     (let (clientRet, h) = client_sendMsg e msg client h;
          ret = ret\<lparr>m_success := m_success ret \<and> m_success clientRet\<rparr>
      in if \<not> m_success clientRet then (ret\<lparr>m_msg := m_msg clientRet\<rparr>, h)
         else sendBcast_loop e msg clients ret h)"

definition sendBcast :: "env \<Rightarrow> string \<Rightarrow> TcpServer \<Rightarrow> history \<Rightarrow> SocketRet \<times> history" where
  "sendBcast e msg s h = sendBcast_loop e msg (srv_clients s) (SocketRet_init\<lparr>m_success := True\<rparr>) h"

definition sendClientMessage :: "env \<Rightarrow> int \<Rightarrow> string \<Rightarrow> TcpServer \<Rightarrow> history \<Rightarrow> SocketRet \<times> history" where
  "sendClientMessage e clientId msg s h =
     (case map_of (srv_clients s) clientId of
        Some client \<Rightarrow> client_sendMsg e msg client h
      | None \<Rightarrow> (failure (snprintf (''Error: Client '' @ show_int clientId @ '' not found'')), h))"

definition getClientInfo :: "int \<Rightarrow> TcpServer \<Rightarrow> (string \<times> 16 word \<times> bool) option" where
  "getClientInfo clientId s =
     map_option (\<lambda>c. (c_ip c, c_port c, c_isConnected c)) (map_of (srv_clients s) clientId)"

section \<open>finish\<close>

text \<open>
  \<open>finish\<close> asks the thread to stop, joins it, then closes every client and the accept
  socket. It does not touch \<open>m_fds\<close>, and nothing ever resets \<open>m_stop\<close>.
\<close>

definition request_stop :: "TcpServer \<Rightarrow> TcpServer" where
  "request_stop s = s\<lparr>srv_stop := True\<rparr>"

fun close_all :: "env \<Rightarrow> (int \<times> Client) list \<Rightarrow> history \<Rightarrow> history" where
  "close_all e [] h = h"
| "close_all e ((_, client) # clients) h = close_all e clients (snd (core_Close e (c_sockfd client) h))"

definition finish_joined :: "env \<Rightarrow> TcpServer \<Rightarrow> history \<Rightarrow> TcpServer \<times> history" where
  "finish_joined e s h =
     (let s = s\<lparr>srv_joinable := False\<rparr>;
          h = close_all e (srv_clients s) h;
          h = (if srv_sockfd s \<noteq> INVALID_SOCKET then snd (core_Close e (srv_sockfd s) h) else h)
      in (s\<lparr>srv_sockfd := INVALID_SOCKET, srv_clients := []\<rparr>, h))"

definition finish :: "env \<Rightarrow> TcpServer \<Rightarrow> history \<Rightarrow> TcpServer \<times> history" where
  "finish e s h = finish_joined e (request_stop s) h"

text \<open>The destructor finishes the server, once more if its owner has done so already.\<close>

definition TcpServer_delete :: "env \<Rightarrow> TcpServer \<Rightarrow> history \<Rightarrow> TcpServer \<times> history" where
  "TcpServer_delete e s h = finish e s h"

section \<open>The server thread\<close>

text \<open>
  The callback recipient (template parameter \<open>CallbackImpl\<close>): its three notifications act on
  the server they may call back into, on the recipient's own state and on the history.
\<close>

type_synonym 'c srv_state = "TcpServer \<times> 'c \<times> history"

record 'c callbacks =
  onClientConnect :: "int \<Rightarrow> 'c srv_state \<Rightarrow> unit outcome \<times> 'c srv_state"
  onReceiveClientData :: "int \<Rightarrow> string \<Rightarrow> 'c srv_state \<Rightarrow> unit outcome \<times> 'c srv_state"
  onClientDisconnect :: "int \<Rightarrow> SocketRet \<Rightarrow> 'c srv_state \<Rightarrow> unit outcome \<times> 'c srv_state"

definition publishDisconnected :: "'c callbacks \<Rightarrow> int \<Rightarrow> 'c srv_state \<Rightarrow> unit outcome \<times> 'c srv_state" where
  "publishDisconnected cb client st =
     onClientDisconnect cb client
       (SocketRet_init\<lparr>m_msg := snprintf (''Client '' @ show_int client @ '' disconnected'')\<rparr>) st"

definition findMaxFd :: "TcpServer \<Rightarrow> int" where
  "findMaxFd s = foldl (\<lambda>maxfd (_, c). max maxfd (c_sockfd c)) (srv_sockfd s) (srv_clients s) + 1"

text \<open>\<open>client->m_isConnected = false\<close> through the pointer into the table.\<close>

definition set_disconnected :: "int \<Rightarrow> (int \<times> Client) list \<Rightarrow> (int \<times> Client) list" where
  "set_disconnected fd clients =
     map (\<lambda>(k, c). (k, if k = fd then c\<lparr>c_isConnected := False\<rparr> else c)) clients"

text \<open>Data or end of file on a client socket.\<close>

definition receive_from :: "env \<Rightarrow> 'c callbacks \<Rightarrow> int \<Rightarrow> 'c srv_state \<Rightarrow> unit outcome \<times> 'c srv_state" where
  "receive_from e cb fd st =
     (case st of (s, c, h) \<Rightarrow>
      let ((numOfBytesReceived, data), h) = core_Recv e fd MAX_PACKET_SIZE h in
      if numOfBytesReceived < 1 then
        let s = s\<lparr>srv_clients := set_disconnected fd (srv_clients s)\<rparr> in
        if numOfBytesReceived = 0 then
          (case deleteClient e fd s h of
             (Inl err, s, h) \<Rightarrow> (Inl err, s, c, h)
           | (Inr _, s, h) \<Rightarrow> publishDisconnected cb fd (s, c, h))
        else (Inr (), s, c, h)
      else onReceiveClientData cb fd data (s, c, h))"

text \<open>
  A descriptor that is not in the table is taken to be the accept socket. \<open>emplace\<close> inserts
  only if the key is absent.
\<close>

definition emplace :: "int \<Rightarrow> Client \<Rightarrow> (int \<times> Client) list \<Rightarrow> (int \<times> Client) list" where
  "emplace k c clients = (if map_of clients k = None then (k, c) # clients else clients)"

definition accept_on :: "env \<Rightarrow> 'c callbacks \<Rightarrow> int \<Rightarrow> 'c srv_state \<Rightarrow> unit outcome \<times> 'c srv_state" where
  "accept_on e cb fd st =
     (case st of (s, c, h) \<Rightarrow>
      let ((clientfd, peer), h) = core_Accept e fd h in
      if clientfd = -1 then (Inr (), s, c, h)
      else
        let client = \<lparr>c_ip = inet_ntop (sin_addr peer), c_sockfd = clientfd,
                      c_port = ntohs (sin_port peer), c_isConnected = True\<rparr>;
            s = s\<lparr>srv_clientAddress := peer, srv_clients := emplace clientfd client (srv_clients s)\<rparr>
        in (case FD_SET clientfd (srv_fds s) of
              Inl err \<Rightarrow> (Inl err, s, c, h)
            | Inr fds \<Rightarrow> onClientConnect cb clientfd (s\<lparr>srv_fds := fds\<rparr>, c, h)))"

definition handle_fd :: "env \<Rightarrow> 'c callbacks \<Rightarrow> int \<Rightarrow> 'c srv_state \<Rightarrow> unit outcome \<times> 'c srv_state" where
  "handle_fd e cb fd st =
     (if map_of (srv_clients (fst st)) fd \<noteq> None then receive_from e cb fd st
      else accept_on e cb fd st)"

text \<open>
  One iteration of \<open>while (!m_stop)\<close>: the select, and the descriptors below \<open>maxfds\<close> that it
  left in the set, in increasing order.
\<close>

definition select_ready :: "env \<Rightarrow> TcpServer \<Rightarrow> history \<Rightarrow> int list \<times> history" where
  "select_ready e s h =
     (let maxfds = findMaxFd s;
          ((selectRet, read_set), h) = core_Select e maxfds (srv_fds s) h
      in if selectRet \<le> 0 then ([], h)
         else (filter (\<lambda>fd. fd \<in> read_set) [0..maxfds - 1], h))"

definition server_pass :: "env \<Rightarrow> 'c callbacks \<Rightarrow> 'c srv_state \<Rightarrow> unit outcome \<times> 'c srv_state" where
  "server_pass e cb st =
     (case st of (s, c, h) \<Rightarrow>
      let (fds, h) = select_ready e s h in for_each (handle_fd e cb) fds (s, c, h))"

text \<open>
  \<open>serverTask\<close> for at most \<open>fuel\<close> iterations: \<open>True\<close> when the loop has ended because of
  \<open>m_stop\<close>, \<open>False\<close> when it is still running.
\<close>

fun serverTask :: "nat \<Rightarrow> env \<Rightarrow> 'c callbacks \<Rightarrow> 'c srv_state \<Rightarrow> bool outcome \<times> 'c srv_state" where
  "serverTask 0 e cb st = (Inr (srv_stop (fst st)), st)"
| "serverTask (Suc fuel) e cb st =
     (if srv_stop (fst st) then (Inr True, st)
      else andThen (server_pass e cb st) (\<lambda>_. serverTask fuel e cb))"

end
