(* ===== verification/ServerSpec.thy ===== *)
theory ServerSpec
  imports TcpServer
begin

text \<open>
  What \<open>TcpServer\<close> promises: the invariant that ties the client table, the \<open>fd_set\<close> and the
  descriptors the kernel has open; the contract of the callback recipient as a locale; the
  run of the server thread interleaved with the owner's operations as a step relation, at the
  grain of whole descriptors (\<open>ServerThreads\<close> has the grain of single actions).
\<close>

section \<open>Client sends and the broadcast\<close>

lemma client_sendMsg_history:
  "c_sockfd c \<noteq> INVALID_SOCKET \<Longrightarrow> snd (client_sendMsg e msg c h) = h @ [SysSend (c_sockfd c) msg]"
  by (simp add: client_sendMsg_def core_simps Let_def)

lemma client_sendMsg_success:
  "c_sockfd c \<noteq> INVALID_SOCKET \<Longrightarrow>
     m_success (fst (client_sendMsg e msg c h)) \<longleftrightarrow>
       int (length msg) \<le> int_result e h (SysSend (c_sockfd c) msg)"
  by (auto simp: client_sendMsg_def core_simps Let_def)

lemma client_sendMsg_neutral: "open_fds e (snd (client_sendMsg e msg c h)) = open_fds e h"
  by (simp add: client_sendMsg_def core_simps Let_def)

abbreviation sends :: "string \<Rightarrow> (int \<times> Client) list \<Rightarrow> call list" where
  "sends msg clients \<equiv> map (\<lambda>(k, c). SysSend (c_sockfd c) msg) clients"

definition sent_fully :: "env \<Rightarrow> string \<Rightarrow> Client \<Rightarrow> history \<Rightarrow> bool" where
  "sent_fully e msg c h \<longleftrightarrow> int (length msg) \<le> int_result e h (SysSend (c_sockfd c) msg)"

text \<open>How many clients of a list take the whole message before the first that does not.\<close>

fun delivered :: "env \<Rightarrow> string \<Rightarrow> (int \<times> Client) list \<Rightarrow> history \<Rightarrow> nat" where
  "delivered e msg [] h = 0"
| "delivered e msg ((_, c) # clients) h =
     (if sent_fully e msg c h then Suc (delivered e msg clients (h @ [SysSend (c_sockfd c) msg])) else 0)"

lemma delivered_le: "delivered e msg clients h \<le> length clients"
  by (induction e msg clients h rule: delivered.induct) auto

lemma sendBcast_loop_spec:
  assumes "\<forall>(k, c) \<in> set clients. c_sockfd c \<noteq> INVALID_SOCKET" and "m_success ret"
  shows "m_success (fst (sendBcast_loop e msg clients ret h)) \<longleftrightarrow>
           delivered e msg clients h = length clients"
    and "snd (sendBcast_loop e msg clients ret h) =
           h @ sends msg (take (Suc (delivered e msg clients h)) clients)"
proof -
  have "(m_success (fst (sendBcast_loop e msg clients ret h)) \<longleftrightarrow>
           delivered e msg clients h = length clients) \<and>
        snd (sendBcast_loop e msg clients ret h) =
           h @ sends msg (take (Suc (delivered e msg clients h)) clients)"
    using assms
  proof (induction clients arbitrary: ret h)
    case Nil
    then show ?case by simp
  next
    case (Cons kc clients)
    obtain k c where kc: "kc = (k, c)" by (cases kc)
    with Cons.prems have c: "c_sockfd c \<noteq> INVALID_SOCKET" by auto
    obtain r h' where send: "client_sendMsg e msg c h = (r, h')" by (cases "client_sendMsg e msg c h")
    have h': "h' = h @ [SysSend (c_sockfd c) msg]"
      using client_sendMsg_history[OF c, of e msg h] send by simp
    have r: "m_success r \<longleftrightarrow> sent_fully e msg c h"
      using client_sendMsg_success[OF c, of e msg h] send by (simp add: sent_fully_def)
    show ?case
    proof (cases "m_success r")
      case True
      with Cons.prems have "(m_success (fst (sendBcast_loop e msg clients (ret\<lparr>m_success := True\<rparr>) h')) \<longleftrightarrow>
          delivered e msg clients h' = length clients) \<and>
        snd (sendBcast_loop e msg clients (ret\<lparr>m_success := True\<rparr>) h') =
          h' @ sends msg (take (Suc (delivered e msg clients h')) clients)"
        by (intro Cons.IH) auto
      then show ?thesis using True r send Cons.prems(2) by (simp add: kc h')
    next
      case False
      then show ?thesis using r send by (simp add: kc h')
    qed
  qed
  then show "m_success (fst (sendBcast_loop e msg clients ret h)) \<longleftrightarrow>
           delivered e msg clients h = length clients"
    and "snd (sendBcast_loop e msg clients ret h) =
           h @ sends msg (take (Suc (delivered e msg clients h)) clients)"
    by blast+
qed

lemma sendBcast_neutral: "open_fds e (snd (sendBcast e msg s h)) = open_fds e h"
proof -
  have "open_fds e (snd (sendBcast_loop e msg clients ret h)) = open_fds e h" for clients ret
  proof (induction e msg clients ret h rule: sendBcast_loop.induct)
    case (2 e msg k client clients ret h)
    then show ?case
      using client_sendMsg_neutral[of e msg client h] by (auto simp: Let_def split: prod.splits)
  qed simp
  then show ?thesis by (simp add: sendBcast_def)
qed

section \<open>The invariant\<close>

text \<open>
  The table has one entry per handle and files each client under its own descriptor; the
  accept socket is none of them; the \<open>fd_set\<close> holds exactly the accept socket and the
  clients, all of which fit it and are open in the kernel.
\<close>

definition srv_inv :: "env \<Rightarrow> TcpServer \<Rightarrow> history \<Rightarrow> bool" where
  "srv_inv e s h \<longleftrightarrow>
     distinct (map fst (srv_clients s)) \<and>
     (\<forall>(k, c) \<in> set (srv_clients s). c_sockfd c = k) \<and>
     srv_sockfd s \<notin> handles s \<and>
     srv_fds s = insert (srv_sockfd s) (handles s) \<and>
     (\<forall>fd \<in> srv_fds s. 0 \<le> fd \<and> fd < FD_SETSIZE \<and> fd \<in> open_fds e h)"

lemma srv_invD:
  assumes "srv_inv e s h"
  shows "distinct (map fst (srv_clients s))"
    and "map_of (srv_clients s) k = Some c \<Longrightarrow> c_sockfd c = k"
    and "srv_sockfd s \<notin> handles s"
    and "srv_fds s = insert (srv_sockfd s) (handles s)"
    and "fd \<in> srv_fds s \<Longrightarrow> 0 \<le> fd \<and> fd < FD_SETSIZE \<and> fd \<in> open_fds e h"
proof -
  show "distinct (map fst (srv_clients s))" using assms unfolding srv_inv_def by (elim conjE)
  show "srv_sockfd s \<notin> handles s" using assms unfolding srv_inv_def by (elim conjE)
  show "srv_fds s = insert (srv_sockfd s) (handles s)" using assms unfolding srv_inv_def by (elim conjE)
  show "c_sockfd c = k" if "map_of (srv_clients s) k = Some c"
  proof -
    have "\<forall>(k, c) \<in> set (srv_clients s). c_sockfd c = k"
      using assms unfolding srv_inv_def by (elim conjE)
    from bspec[OF this map_of_SomeD[OF that]] show ?thesis by simp
  qed
  show "0 \<le> fd \<and> fd < FD_SETSIZE \<and> fd \<in> open_fds e h" if "fd \<in> srv_fds s"
    using assms that unfolding srv_inv_def by (elim conjE) (rule bspec)
qed

lemma map_of_handles: "map_of (srv_clients s) fd = None \<longleftrightarrow> fd \<notin> handles s"
  by (simp add: map_of_eq_None_iff)

lemma srv_inv_cong:
  "srv_inv e s h \<Longrightarrow> open_fds e h' = open_fds e h \<Longrightarrow>
     srv_sockfd s' = srv_sockfd s \<Longrightarrow> srv_fds s' = srv_fds s \<Longrightarrow> srv_clients s' = srv_clients s \<Longrightarrow>
     srv_inv e s' h'"
  unfolding srv_inv_def by metis

lemma fst_set_disconnected [simp]: "map fst (set_disconnected fd clients) = map fst clients"
  by (auto simp: set_disconnected_def)

lemma handles_set_disconnected [simp]: "fst ` set (set_disconnected fd clients) = fst ` set clients"
  using arg_cong[OF fst_set_disconnected[of fd clients], of set] unfolding set_map .

lemma srv_inv_disconnected:
  "srv_inv e s h \<Longrightarrow> srv_inv e (s\<lparr>srv_clients := set_disconnected fd (srv_clients s)\<rparr>) h"
proof -
  assume inv: "srv_inv e s h"
  then have "\<forall>(k, c) \<in> set (set_disconnected fd (srv_clients s)). c_sockfd c = k"
    by (auto simp: srv_inv_def set_disconnected_def)
  with inv show ?thesis unfolding srv_inv_def by simp
qed

lemma deleteClient_inv:
  assumes inv: "srv_inv e s h" and fd: "fd \<in> handles s"
  shows "\<exists>s' h'. deleteClient e fd s h = (Inr True, s', h') \<and> h' = h @ [SysClose fd] \<and>
     srv_inv e s' h' \<and> handles s' = handles s - {fd} \<and>
     srv_sockfd s' = srv_sockfd s \<and> srv_stop s' = srv_stop s"
proof -
  from fd obtain c where c: "map_of (srv_clients s) fd = Some c"
    by (cases "map_of (srv_clients s) fd") (auto simp: map_of_handles)
  have "c_sockfd c = fd" using srv_invD(2)[OF inv c] .
  moreover have "0 \<le> fd \<and> fd < FD_SETSIZE"
    using srv_invD(4,5)[OF inv] fd by auto
  ultimately have del: "deleteClient e fd s h =
      (Inr True, s\<lparr>srv_fds := srv_fds s - {fd}, srv_clients := AList.delete fd (srv_clients s)\<rparr>,
       h @ [SysClose fd])"
    using c by (simp add: deleteClient_def core_simps)
  have "set (AList.delete fd (srv_clients s)) \<subseteq> set (srv_clients s)"
    by (auto simp: AList.delete_eq)
  then have "srv_inv e (s\<lparr>srv_fds := srv_fds s - {fd}, srv_clients := AList.delete fd (srv_clients s)\<rparr>)
      (h @ [SysClose fd])"
    using inv fd by (auto simp: srv_inv_def keys_delete distinct_delete)
  then show ?thesis using del by (simp add: keys_delete)
qed

lemma accept_inv:
  assumes inv: "srv_inv e s h" and posix: "posix_fds e"
    and new: "int_result e h (SysAccept fd) = clientfd" "clientfd \<noteq> -1" "clientfd < FD_SETSIZE"
  shows "srv_inv e (s\<lparr>srv_clientAddress := p, srv_clients := (clientfd, c\<lparr>c_sockfd := clientfd\<rparr>) # srv_clients s,
                      srv_fds := insert clientfd (srv_fds s)\<rparr>) (h @ [SysAccept fd])"
    and "map_of (srv_clients s) clientfd = None" and "0 \<le> clientfd" and "clientfd \<notin> srv_fds s"
proof -
  have fresh: "0 \<le> clientfd" "clientfd \<notin> open_fds e h"
    using posix_accept[OF posix, of h fd] new by auto
  then show "0 \<le> clientfd" "clientfd \<notin> srv_fds s"
    using srv_invD(5)[OF inv] by blast+
  then have "clientfd \<notin> handles s" "clientfd \<noteq> srv_sockfd s"
    using srv_invD(4)[OF inv] by auto
  then show "map_of (srv_clients s) clientfd = None" by (simp add: map_of_handles)
  show "srv_inv e (s\<lparr>srv_clientAddress := p, srv_clients := (clientfd, c\<lparr>c_sockfd := clientfd\<rparr>) # srv_clients s,
                      srv_fds := insert clientfd (srv_fds s)\<rparr>) (h @ [SysAccept fd])"
    using inv new fresh \<open>clientfd \<notin> handles s\<close> \<open>clientfd \<noteq> srv_sockfd s\<close>
    by (auto simp: srv_inv_def)
qed

section \<open>The contract of the callback recipient\<close>

text \<open>
  \<open>neutral_ext h h'\<close>: the calls from \<open>h\<close> to \<open>h'\<close> open and close no descriptor.
\<close>

definition neutral_ext :: "history \<Rightarrow> history \<Rightarrow> bool" where
  "neutral_ext h h' \<longleftrightarrow> (\<exists>cs. h' = h @ cs \<and> list_all fd_neutral cs)"

lemma neutral_ext_refl [simp]: "neutral_ext h h"
  by (auto simp: neutral_ext_def)

lemma neutral_ext_snoc: "neutral_ext h h' \<Longrightarrow> fd_neutral c \<Longrightarrow> neutral_ext h (h' @ [c])"
  by (auto simp: neutral_ext_def)

lemma neutral_ext_trans: "neutral_ext h h' \<Longrightarrow> neutral_ext h' h'' \<Longrightarrow> neutral_ext h h''"
  by (auto simp: neutral_ext_def)

lemma open_fds_neutral_ext: "neutral_ext h h' \<Longrightarrow> open_fds e h' = open_fds e h"
  by (auto simp: neutral_ext_def open_fds_append_neutral)

text \<open>
  A recipient that keeps its own register of the connected clients: a connection it is told
  of while the server knows the client enters the register, a disconnection leaves it, data
  does not change it, and no notification touches the server or the descriptors.
\<close>

locale connection_listener =
  fixes cb :: "'c callbacks" and known :: "'c \<Rightarrow> int set"
  assumes connect_law:
      "onClientConnect cb fd (s, c, h) = (Inr (), s', c', h') \<Longrightarrow> fd \<in> handles s \<Longrightarrow>
         s' = s \<and> known c' = insert fd (known c) \<and> neutral_ext h h'"
    and data_law:
      "onReceiveClientData cb fd data (s, c, h) = (Inr (), s', c', h') \<Longrightarrow>
         s' = s \<and> known c' = known c \<and> neutral_ext h h'"
    and disconnect_law:
      "onClientDisconnect cb fd ret (s, c, h) = (Inr (), s', c', h') \<Longrightarrow>
         s' = s \<and> known c' = known c - {fd} \<and> neutral_ext h h'"
begin

definition in_sync :: "env \<Rightarrow> 'c srv_state \<Rightarrow> bool" where
  "in_sync e st \<longleftrightarrow> (case st of (s, c, h) \<Rightarrow> srv_inv e s h \<and> known c = handles s)"

lemma receive_in_sync:
  assumes sync: "in_sync e (s, c, h)" and fd: "fd \<in> handles s"
    and run: "receive_from e cb fd (s, c, h) = (Inr (), s', c', h')"
  shows "in_sync e (s', c', h') \<and> srv_sockfd s' = srv_sockfd s \<and> handles s - {fd} \<subseteq> handles s'
    \<and> srv_stop s' = srv_stop s"
proof -
  let ?s = "s\<lparr>srv_clients := set_disconnected fd (srv_clients s)\<rparr>"
  let ?h = "h @ [SysRecv fd MAX_PACKET_SIZE]"
  have inv: "srv_inv e s h" and known: "known c = handles s" using sync by (auto simp: in_sync_def)
  have inv': "srv_inv e s ?h" by (rule srv_inv_cong[OF inv]) simp_all
  have dis: "srv_inv e ?s ?h" by (rule srv_inv_disconnected[OF inv'])
  from run consider
      (failed) "s' = ?s" "c' = c" "h' = ?h"
    | (closed) s1 h1 where "deleteClient e fd ?s ?h = (Inr True, s1, h1)"
        "publishDisconnected cb fd (s1, c, h1) = (Inr (), s', c', h')"
    | (data) d where "onReceiveClientData cb fd d (s, c, ?h) = (Inr (), s', c', h')"
    using deleteClient_inv[OF dis, of fd] fd
    by (auto simp: receive_from_def core_simps Let_def split: option.splits if_splits)
  then show ?thesis
  proof cases
    case failed
    then show ?thesis using dis known by (simp add: in_sync_def)
  next
    case closed
    from deleteClient_inv[OF dis, of fd] fd closed(1)
    have s1: "srv_inv e s1 h1" "handles s1 = handles s - {fd}" "srv_sockfd s1 = srv_sockfd s"
      "srv_stop s1 = srv_stop s"
      by auto
    from disconnect_law[OF closed(2)[unfolded publishDisconnected_def]]
    have "s' = s1" "known c' = known c - {fd}" "neutral_ext h1 h'" by auto
    then show ?thesis
      using s1 known srv_inv_cong[OF s1(1) open_fds_neutral_ext[of h1 h']] by (auto simp: in_sync_def)
  next
    case data
    from data_law[OF data] have "s' = s" "known c' = known c" "neutral_ext ?h h'" by auto
    then show ?thesis
      using known srv_inv_cong[OF inv' open_fds_neutral_ext[of ?h h']] by (auto simp: in_sync_def)
  qed
qed

lemma accept_in_sync:
  assumes posix: "posix_fds e" and sync: "in_sync e (s, c, h)"
    and run: "accept_on e cb fd (s, c, h) = (Inr (), s', c', h')"
  shows "in_sync e (s', c', h') \<and> srv_sockfd s' = srv_sockfd s \<and> handles s \<subseteq> handles s'
    \<and> srv_stop s' = srv_stop s"
proof -
  let ?h = "h @ [SysAccept fd]" and ?n = "int_result e h (SysAccept fd)"
  have inv: "srv_inv e s h" and known: "known c = handles s" using sync by (auto simp: in_sync_def)
  show ?thesis
  proof (cases "?n = -1")
    case True
    then have "s' = s" "c' = c" "h' = ?h" using run by (auto simp: accept_on_def core_simps)
    then show ?thesis using known srv_inv_cong[OF inv, of ?h s] True by (simp add: in_sync_def)
  next
    case False
    obtain p client where client: "client = \<lparr>c_ip = inet_ntop (sin_addr p), c_sockfd = ?n,
        c_port = ntohs (sin_port p), c_isConnected = True\<rparr>" "p = peer_addr e h" by blast
    let ?s = "s\<lparr>srv_clientAddress := p, srv_clients := (?n, client) # srv_clients s,
                srv_fds := insert ?n (srv_fds s)\<rparr>"
    have lt: "?n < FD_SETSIZE"
    proof (rule ccontr)
      assume "\<not> ?n < FD_SETSIZE"
      then show False using run False
        by (simp add: accept_on_def core_simps FD_SET_def Let_def)
    qed
    note new = accept_inv[OF inv posix refl False lt]
    have "onClientConnect cb ?n (?s, c, ?h) = (Inr (), s', c', h')"
      using run False new(2,3) lt by (simp add: accept_on_def core_simps emplace_def client Let_def)
    from connect_law[OF this] have s': "s' = ?s" "known c' = insert ?n (known c)" "neutral_ext ?h h'"
      by auto
    have "srv_inv e ?s ?h" using new(1)[of client p] client by simp
    then have "srv_inv e ?s h'" by (rule srv_inv_cong) (simp_all add: open_fds_neutral_ext[OF s'(3)])
    then show ?thesis using s' known by (auto simp: in_sync_def)
  qed
qed

lemma handle_fd_in_sync:
  assumes "posix_fds e" and "in_sync e (s, c, h)"
    and "handle_fd e cb fd (s, c, h) = (Inr (), s', c', h')"
  shows "in_sync e (s', c', h') \<and> srv_sockfd s' = srv_sockfd s \<and> handles s - {fd} \<subseteq> handles s'
    \<and> srv_stop s' = srv_stop s"
  using assms receive_in_sync[of e s c h fd s' c' h'] accept_in_sync[of e s c h fd s' c' h']
  by (cases "fd \<in> handles s") (auto simp: handle_fd_def map_of_handles)

end

section \<open>Interleaving\<close>

text \<open>
  Where the server thread stands: at the head of the \<open>while\<close> loop, inside the \<open>for\<close> loop with
  the descriptors still to be looked at, or past the loop. \<open>Joined\<close> is after \<open>finish\<close>.
\<close>

datatype task = Looping | Handling "int list" | Exited | Joined

text \<open>
  One step of the whole. Handling one ready descriptor is one step: the calls another thread can
  put in between (a broadcast, a send, the stop request) change neither the table nor the
  \<open>fd_set\<close>, and the thread itself is the only one that does. So the thread moves, another thread
  broadcasts or sends to one client (each under \<open>m_mutex\<close>), \<open>finish\<close> sets \<open>m_stop\<close>, and, once the
  thread has exited and is joined, closes the sockets.
\<close>

inductive server_step :: "env \<Rightarrow> 'c callbacks \<Rightarrow> task \<times> 'c srv_state \<Rightarrow> task \<times> 'c srv_state \<Rightarrow> bool"
  for e :: env and cb :: "'c callbacks" where
  step_exit: "srv_stop s \<Longrightarrow> server_step e cb (Looping, s, c, h) (Exited, s, c, h)"
| step_select: "\<not> srv_stop s \<Longrightarrow> select_ready e s h = (fds, h') \<Longrightarrow>
    server_step e cb (Looping, s, c, h) (Handling fds, s, c, h')"
| step_handle: "handle_fd e cb fd (s, c, h) = (Inr (), s', c', h') \<Longrightarrow>
    server_step e cb (Handling (fd # fds), s, c, h) (Handling fds, s', c', h')"
| step_done: "server_step e cb (Handling [], s, c, h) (Looping, s, c, h)"
| step_bcast: "server_step e cb (t, s, c, h) (t, s, c, snd (sendBcast e msg s h))"
| step_send: "server_step e cb (t, s, c, h) (t, s, c, snd (sendClientMessage e k msg s h))"
| step_stop: "server_step e cb (t, s, c, h) (t, request_stop s, c, h)"
| step_finish: "finish_joined e s h = (s', h') \<Longrightarrow>
    server_step e cb (Exited, s, c, h) (Joined, s', c, h')"

inductive_cases server_stepE: "server_step e cb (t, s, c, h) st'"

abbreviation server_steps :: "env \<Rightarrow> 'c callbacks \<Rightarrow> task \<times> 'c srv_state \<Rightarrow> task \<times> 'c srv_state \<Rightarrow> bool" where
  "server_steps e cb \<equiv> (server_step e cb)\<^sup>*\<^sup>*"

text \<open>The function the thread runs is one of the interleavings: the one with no other thread.\<close>

lemma for_each_steps:
  "for_each (handle_fd e cb) fds (s, c, h) = (Inr (), s', c', h') \<Longrightarrow>
     server_steps e cb (Handling fds, s, c, h) (Looping, s', c', h')"
proof (induction fds arbitrary: s c h)
  case Nil
  then show ?case by (auto intro: r_into_rtranclp step_done)
next
  case (Cons fd fds)
  then obtain s1 c1 h1 where "handle_fd e cb fd (s, c, h) = (Inr (), s1, c1, h1)"
    "for_each (handle_fd e cb) fds (s1, c1, h1) = (Inr (), s', c', h')"
    by (auto simp: andThen_ok_iff)
  then show ?case using Cons.IH by (blast intro: converse_rtranclp_into_rtranclp step_handle)
qed

lemma server_pass_steps:
  assumes "\<not> srv_stop s" and "server_pass e cb (s, c, h) = (Inr (), s', c', h')"
  shows "server_steps e cb (Looping, s, c, h) (Looping, s', c', h')"
proof -
  obtain fds h1 where sel: "select_ready e s h = (fds, h1)" by (cases "select_ready e s h")
  with assms(2) have "for_each (handle_fd e cb) fds (s, c, h1) = (Inr (), s', c', h')"
    by (simp add: server_pass_def)
  from step_select[OF assms(1) sel] for_each_steps[OF this] show ?thesis
    by (rule converse_rtranclp_into_rtranclp)
qed

lemma serverTask_steps:
  "serverTask fuel e cb (s, c, h) = (Inr True, s', c', h') \<Longrightarrow>
     server_steps e cb (Looping, s, c, h) (Exited, s', c', h')"
proof (induction fuel arbitrary: s c h)
  case 0
  then show ?case by (auto intro: r_into_rtranclp step_exit)
next
  case (Suc fuel)
  show ?case
  proof (cases "srv_stop s")
    case True
    with Suc.prems show ?thesis by (auto intro: r_into_rtranclp step_exit)
  next
    case False
    with Suc.prems obtain s1 c1 h1 where
      "server_pass e cb (s, c, h) = (Inr (), s1, c1, h1)"
      "serverTask fuel e cb (s1, c1, h1) = (Inr True, s', c', h')"
      by (auto simp: andThen_ok_iff)
    then show ?thesis by (rule rtranclp_trans[OF server_pass_steps[OF False] Suc.IH])
  qed
qed

text \<open>The descriptors \<open>accept\<close> has been called on.\<close>

definition accepted_on :: "history \<Rightarrow> int set" where
  "accepted_on h = {fd. SysAccept fd \<in> set h}"

lemma accepted_on_snoc: "accepted_on (h @ [c]) =
    (case c of SysAccept fd \<Rightarrow> insert fd (accepted_on h) | _ \<Rightarrow> accepted_on h)"
  by (auto simp: accepted_on_def split: call.splits)

lemma neutral_no_accept: "list_all fd_neutral cs \<Longrightarrow> SysAccept fd \<notin> set cs"
  by (auto simp: list_all_iff)

lemma accepted_on_neutral: "neutral_ext h h' \<Longrightarrow> accepted_on h' = accepted_on h"
  by (auto simp: neutral_ext_def accepted_on_def dest: neutral_no_accept)

lemma client_sendMsg_ext: "neutral_ext h (snd (client_sendMsg e msg c h))"
  by (auto simp: client_sendMsg_def core_simps Let_def intro: neutral_ext_snoc[OF neutral_ext_refl])

lemma sendBcast_ext: "neutral_ext h (snd (sendBcast e msg s h))"
proof -
  have "neutral_ext h (snd (sendBcast_loop e msg clients ret h))" for clients ret
  proof (induction e msg clients ret h rule: sendBcast_loop.induct)
    case (2 e msg k client clients ret h)
    then show ?case using client_sendMsg_ext[of h e msg client]
      by (auto simp: Let_def split: prod.splits intro: neutral_ext_trans)
  qed simp
  then show ?thesis by (simp add: sendBcast_def)
qed

lemma sendClientMessage_ext: "neutral_ext h (snd (sendClientMessage e k msg s h))"
  by (auto simp: sendClientMessage_def client_sendMsg_ext split: option.splits)

lemma select_ready_spec:
  assumes "select_ready e s h = (fds, h')"
  shows "set fds \<subseteq> srv_fds s" and "distinct fds" and "neutral_ext h h'"
proof -
  show "set fds \<subseteq> srv_fds s"
    using assms by (auto simp: select_ready_def core_simps Let_def split: if_splits)
  show "distinct fds"
    using assms by (auto simp: select_ready_def core_simps Let_def split: if_splits)
  show "neutral_ext h h'"
    using assms by (auto simp: select_ready_def core_simps Let_def split: if_splits
      intro: neutral_ext_snoc[OF neutral_ext_refl])
qed

lemma close_all_history:
  "close_all e clients h = h @ map (\<lambda>(k, c). SysClose (c_sockfd c)) clients"
  by (induction e clients h rule: close_all.induct) (auto simp: core_simps)

lemma finish_joined_eq:
  "finish_joined e s h =
     (s\<lparr>srv_joinable := False, srv_sockfd := INVALID_SOCKET, srv_clients := []\<rparr>,
      h @ map (\<lambda>(k, c). SysClose (c_sockfd c)) (srv_clients s) @
      (if srv_sockfd s \<noteq> INVALID_SOCKET then [SysClose (srv_sockfd s)] else []))"
  by (cases "srv_sockfd s = INVALID_SOCKET")
     (simp_all add: finish_joined_def close_all_history core_simps Let_def)

context connection_listener
begin

lemma receive_accepted_on:
  assumes "in_sync e (s, c, h)" and "fd \<in> handles s"
    and run: "receive_from e cb fd (s, c, h) = (Inr (), s', c', h')"
  shows "accepted_on h' = accepted_on h"
proof -
  let ?s = "s\<lparr>srv_clients := set_disconnected fd (srv_clients s)\<rparr>"
  let ?h = "h @ [SysRecv fd MAX_PACKET_SIZE]"
  have "srv_inv e s ?h" using assms(1) by (auto simp: in_sync_def intro: srv_inv_cong)
  then have dis: "srv_inv e ?s ?h" by (rule srv_inv_disconnected)
  have rec: "accepted_on ?h = accepted_on h" by (simp add: accepted_on_snoc)
  from run consider
      "h' = ?h"
    | s1 where "publishDisconnected cb fd (s1, c, ?h @ [SysClose fd]) = (Inr (), s', c', h')"
    | d where "onReceiveClientData cb fd d (s, c, ?h) = (Inr (), s', c', h')"
    using deleteClient_inv[OF dis, of fd] assms(2)
    by (auto simp: receive_from_def core_simps Let_def split: option.splits if_splits)
  then show ?thesis
  proof cases
    case 1
    then show ?thesis by (simp add: rec)
  next
    case 2
    from disconnect_law[OF 2[unfolded publishDisconnected_def]] have "neutral_ext (?h @ [SysClose fd]) h'"
      by simp
    from accepted_on_neutral[OF this] show ?thesis unfolding accepted_on_snoc[of ?h] by (simp add: rec)
  next
    case 3
    from data_law[OF 3] have "neutral_ext ?h h'" by simp
    from accepted_on_neutral[OF this] show ?thesis by (simp add: rec)
  qed
qed

lemma accept_accepted_on:
  assumes sync: "in_sync e (s, c, h)" and posix: "posix_fds e"
    and run: "accept_on e cb fd (s, c, h) = (Inr (), s', c', h')"
  shows "accepted_on h' = insert fd (accepted_on h)"
proof -
  let ?h = "h @ [SysAccept fd]" and ?n = "int_result e h (SysAccept fd)"
  have acc: "accepted_on ?h = insert fd (accepted_on h)" by (simp add: accepted_on_snoc)
  show ?thesis
  proof (cases "?n = -1")
    case True
    then show ?thesis using run acc by (auto simp: accept_on_def core_simps)
  next
    case False
    have inv: "srv_inv e s h" using sync by (simp add: in_sync_def)
    have "?n \<notin> handles s"
      using posix_accept[OF posix False] srv_invD(4,5)[OF inv] by blast
    then obtain s1 where "onClientConnect cb ?n (s1, c, ?h) = (Inr (), s', c', h')" "?n \<in> handles s1"
      using run False
      by (auto simp: accept_on_def core_simps emplace_def Let_def map_of_handles split: sum.splits)
    from connect_law[OF this] have "neutral_ext ?h h'" by simp
    from accepted_on_neutral[OF this] show ?thesis by (simp add: acc)
  qed
qed

text \<open>
  The invariant of the interleaving. While the \<open>for\<close> loop runs, every descriptor still to be
  handled is the accept socket or a client of the table, whatever was accepted and closed in
  the meantime; so \<open>accept\<close> is only ever called on the accept socket.
\<close>

definition system_inv :: "env \<Rightarrow> int \<Rightarrow> int set \<Rightarrow> task \<times> 'c srv_state \<Rightarrow> bool" where
  "system_inv e listen acc x \<longleftrightarrow> (case x of (t, s, c, h) \<Rightarrow>
     accepted_on h \<subseteq> insert listen acc \<and>
     (case t of
        Looping \<Rightarrow> in_sync e (s, c, h) \<and> srv_sockfd s = listen
      | Handling fds \<Rightarrow> in_sync e (s, c, h) \<and> srv_sockfd s = listen \<and>
          distinct fds \<and> set fds \<subseteq> insert listen (handles s)
      | Exited \<Rightarrow> in_sync e (s, c, h) \<and> srv_sockfd s = listen \<and> srv_stop s
      | Joined \<Rightarrow> srv_clients s = [] \<and> srv_sockfd s = INVALID_SOCKET \<and> srv_stop s))"

lemma in_sync_ext:
  "in_sync e (s, c, h) \<Longrightarrow> neutral_ext h h' \<Longrightarrow> in_sync e (s, c, h')"
  by (auto simp: in_sync_def intro: srv_inv_cong[OF _ open_fds_neutral_ext])

lemma in_sync_stop: "in_sync e (request_stop s, c, h) \<longleftrightarrow> in_sync e (s, c, h)"
  by (auto simp: in_sync_def request_stop_def srv_inv_def)

lemma system_inv_neutral:
  assumes "system_inv e listen acc (t, s, c, h)" and "neutral_ext h h'"
  shows "system_inv e listen acc (t, s, c, h')"
  using assms in_sync_ext[OF _ assms(2)] accepted_on_neutral[OF assms(2)]
  by (auto simp: system_inv_def split: task.splits)

lemma server_step_inv:
  assumes posix: "posix_fds e" and inv: "system_inv e listen acc (t, s, c, h)"
    and step: "server_step e cb (t, s, c, h) st'"
  shows "system_inv e listen acc st'"
  using step
proof (cases rule: server_stepE [consumes 1, case_names step_exit step_select step_handle step_done
      step_bcast step_send step_stop step_finish])
  case step_exit
  then show ?thesis using inv by (simp add: system_inv_def)
next
  case (step_select fds h')
  have sync: "in_sync e (s, c, h)" "srv_sockfd s = listen" "accepted_on h \<subseteq> insert listen acc"
    using inv step_select by (auto simp: system_inv_def)
  then have "srv_fds s = insert listen (handles s)" by (auto simp: in_sync_def dest: srv_invD(4))
  with sync step_select select_ready_spec[OF step_select(4)] show ?thesis
    using in_sync_ext[OF sync(1)] accepted_on_neutral[of h h'] by (auto simp: system_inv_def)
next
  case (step_handle fd s' c' h' fds)
  then have sync: "in_sync e (s, c, h)" "srv_sockfd s = listen" "accepted_on h \<subseteq> insert listen acc"
    "distinct (fd # fds)" "fd \<in> insert listen (handles s)" "set fds \<subseteq> insert listen (handles s)"
    using inv by (auto simp: system_inv_def)
  note next_sync = handle_fd_in_sync[OF posix sync(1) step_handle(3)]
  have "accepted_on h' \<subseteq> insert listen (accepted_on h)"
  proof (cases "fd \<in> handles s")
    case True
    then have "receive_from e cb fd (s, c, h) = (Inr (), s', c', h')"
      using step_handle(3) by (auto simp: handle_fd_def map_of_handles)
    from receive_accepted_on[OF sync(1) True this] show ?thesis by blast
  next
    case False
    then have "accept_on e cb fd (s, c, h) = (Inr (), s', c', h')"
      using step_handle(3) by (simp add: handle_fd_def map_of_handles)
    from accept_accepted_on[OF sync(1) posix this] False sync(5) show ?thesis by blast
  qed
  moreover have "set fds \<subseteq> insert listen (handles s')"
    using next_sync sync(4,6) by auto
  ultimately show ?thesis using step_handle next_sync sync by (auto simp: system_inv_def)
next
  case step_done
  then show ?thesis using inv by (simp add: system_inv_def)
next
  case (step_bcast msg)
  then show ?thesis using system_inv_neutral[OF inv sendBcast_ext] by simp
next
  case (step_send k msg)
  then show ?thesis using system_inv_neutral[OF inv sendClientMessage_ext] by simp
next
  case step_stop
  then show ?thesis using inv
    by (auto simp: system_inv_def in_sync_stop split: task.splits) (auto simp: request_stop_def)
next
  case (step_finish s' h')
  then have "accepted_on h' = accepted_on h" by (auto simp: finish_joined_eq accepted_on_def)
  then show ?thesis using step_finish inv by (auto simp: system_inv_def finish_joined_eq)
qed

lemma server_steps_inv:
  assumes "posix_fds e" and "server_steps e cb st st'" and "system_inv e listen acc st"
  shows "system_inv e listen acc st'"
  using assms(2,3)
proof (induction rule: rtranclp_induct)
  case base
  then show ?case .
next
  case (step y z)
  then show ?case using server_step_inv[OF assms(1)] by (cases y) (auto dest: prod_cases4)
qed

end

section \<open>start, finish and restart\<close>

definition start_calls :: "env \<Rightarrow> 16 word \<Rightarrow> TcpServer \<Rightarrow> int \<Rightarrow> call list" where
  "start_calls e port s fd =
     [SysSocket AF_INET SOCK_STREAM 0, SysSetSockOpt fd SO_REUSEADDR 1,
      SysSetSockOpt fd SO_RCVBUF (m_rxBufSize (srv_options s)),
      SysSetSockOpt fd SO_SNDBUF (m_txBufSize (srv_options s)),
      SysBind fd \<lparr>sin_addr = (case inet_pton (m_listenAddr (srv_options s)) of
                                Some ip \<Rightarrow> ip | None \<Rightarrow> INADDR_ANY),
                   sin_port = htons port\<rparr>,
      SysListen fd 5]"

lemma start_cases:
  assumes "start e port s h = (Inr ret, s', h')"
  shows "(m_success ret \<longrightarrow>
            srv_sockfd s' = int_result e h (SysSocket AF_INET SOCK_STREAM 0) \<and>
            srv_sockfd s' \<noteq> INVALID_SOCKET \<and> 0 \<le> srv_sockfd s' \<and> srv_sockfd s' < FD_SETSIZE \<and>
            srv_fds s' = {srv_sockfd s'} \<and> srv_joinable s' \<and> \<not> srv_joinable s \<and>
            h' = h @ start_calls e port s (srv_sockfd s')) \<and>
         (\<not> m_success ret \<longrightarrow>
            srv_fds s' = srv_fds s \<and> srv_joinable s' = srv_joinable s \<and> length (m_msg ret) < MSG_SIZE) \<and>
         srv_clients s' = srv_clients s \<and> srv_stop s' = srv_stop s"
  using assms
  by (auto simp: start_def core_simps Let_def FD_SET_def start_calls_def length_snprintf INVALID_SOCKET_def
      split: if_splits)

lemma start_srv_inv:
  assumes "start e port s h = (Inr ret, s', h')" and "m_success ret" and "srv_clients s = []"
  shows "srv_inv e s' h'"
proof -
  note start_cases[OF assms(1)]
  then have st: "srv_sockfd s' = int_result e h (SysSocket AF_INET SOCK_STREAM 0)"
    "srv_sockfd s' \<noteq> INVALID_SOCKET" "0 \<le> srv_sockfd s'" "srv_sockfd s' < FD_SETSIZE"
    "srv_fds s' = {srv_sockfd s'}" "h' = h @ start_calls e port s (srv_sockfd s')" "srv_clients s' = []"
    using assms(2,3) by auto
  have "srv_sockfd s' \<in> open_fds e (h @ [SysSocket AF_INET SOCK_STREAM 0])"
    using st(1,2) by (simp add: INVALID_SOCKET_def)
  moreover have "open_fds e h' = open_fds e (h @ [SysSocket AF_INET SOCK_STREAM 0])"
    using open_fds_append_neutral[of "tl (start_calls e port s (srv_sockfd s'))" e
        "h @ [SysSocket AF_INET SOCK_STREAM 0]"]
    by (simp add: st(6) start_calls_def)
  ultimately show ?thesis using st by (simp add: srv_inv_def)
qed



text \<open>C21: \<open>finish\<close> on a running server closes each client's descriptor once, in table order,
  then the accept socket, and nothing else; none of them stays open, the table is empty, and
  a second \<open>finish\<close> (the destructor runs it again) makes no call.\<close>

theorem finish_closes_everything:
  assumes "srv_inv e s h" and "finish e s h = (s', h')"
  shows "h' = h @ map SysClose (map fst (srv_clients s) @ [srv_sockfd s]) \<and>
     open_fds e h' = open_fds e h - srv_fds s \<and>
     srv_clients s' = [] \<and> \<not> srv_joinable s' \<and> finish e s' h' = (s', h')"
proof -
  have keys: "map (\<lambda>(k, c). SysClose (c_sockfd c)) (srv_clients s) = map SysClose (map fst (srv_clients s))"
    using assms(1) by (auto simp: srv_inv_def)
  have listen: "srv_sockfd s \<noteq> INVALID_SOCKET"
    using srv_invD(4,5)[OF assms(1)] by (force simp: INVALID_SOCKET_def)
  have h': "h' = h @ map SysClose (map fst (srv_clients s) @ [srv_sockfd s])"
    using assms(2) listen keys by (auto simp: finish_def request_stop_def finish_joined_eq)
  have close_list: "open_fds e (h @ map SysClose fds) = open_fds e h - set fds" for fds
  proof (induction fds rule: rev_induct)
    case (snoc fd fds)
    have "open_fds e ((h @ map SysClose fds) @ [SysClose fd]) = open_fds e h - set fds - {fd}"
      using snoc by (simp only: open_fds_close)
    then show ?case by auto
  qed simp
  have "open_fds e h' = open_fds e h - srv_fds s"
    unfolding h' close_list using srv_invD(4)[OF assms(1)] by simp
  moreover have "srv_clients s' = [] \<and> \<not> srv_joinable s' \<and> finish e s' h' = (s', h')"
    using assms(2) by (auto simp: finish_def request_stop_def finish_joined_eq)
  ultimately show ?thesis using h' by blast
qed

definition one_client :: TcpServer where
  "one_client = (TcpServer_init None)\<lparr>srv_sockfd := 3, srv_fds := {3, 4}, srv_joinable := True,
     srv_clients := [(4, \<lparr>c_ip = ''10.0.0.7'', c_sockfd = 4, c_port = 4242, c_isConnected = True\<rparr>)]\<rparr>"

definition one_client_history :: history where
  "one_client_history = [SysSocket AF_INET SOCK_STREAM 0, SysAccept 3]"

lemma one_client_inv:
  assumes "numbers_fds e"
  shows "srv_inv e one_client one_client_history"
  using assms
  by (auto simp: srv_inv_def one_client_def one_client_history_def open_fds_def next_fd_def numbers_fds_def
      FD_SETSIZE_def TcpServer_init_def)

theorem finish_closes_everything_witness:
  "\<exists>s' h'. finish quiet_env one_client one_client_history = (s', h') \<and>
     h' = one_client_history @ [SysClose 4, SysClose 3] \<and> open_fds quiet_env h' = {}"
proof -
  have inv: "srv_inv quiet_env one_client one_client_history"
    by (rule one_client_inv) simp
  obtain s' h' where fin: "finish quiet_env one_client one_client_history = (s', h')"
    by (cases "finish quiet_env one_client one_client_history")
  have "open_fds quiet_env one_client_history = {3, 4}"
    by (auto simp: one_client_history_def open_fds_def quiet_env_def next_fd_def)
  then show ?thesis
    using finish_closes_everything[OF inv fin] fin by (auto simp: one_client_def)
qed

text \<open>C39: a server that has been finished cannot be started again. \<open>m_stop\<close> stays set, so
  even when \<open>start\<close> reports success its thread leaves the loop at once: however long it is
  given, it makes no call and accepts no client.\<close>

theorem restart_never_serves:
  assumes "finish e s h = (s1, h1)" and "start e port s1 h1 = (Inr ret, s2, h2)"
  shows "serverTask fuel e cb (s2, c, h2) = (Inr True, s2, c, h2)"
proof -
  have "srv_stop s1" using assms(1) by (auto simp: finish_def request_stop_def finish_joined_eq)
  then have "srv_stop s2" using start_cases[OF assms(2)] by simp
  then show ?thesis by (cases fuel) simp_all
qed

definition silent_callbacks :: "unit callbacks" where
  "silent_callbacks =
     \<lparr>onClientConnect = (\<lambda>_ st. (Inr (), st)), onReceiveClientData = (\<lambda>_ _ st. (Inr (), st)),
      onClientDisconnect = (\<lambda>_ _ st. (Inr (), st))\<rparr>"

theorem restart_never_serves_witness:
  "\<exists>s1 h1 s2 h2. finish quiet_env one_client one_client_history = (s1, h1) \<and>
     start quiet_env 7000 s1 h1 = (Inr success, s2, h2) \<and>
     serverTask 1000 quiet_env silent_callbacks (s2, (), h2) = (Inr True, s2, (), h2)"
proof -
  obtain s1 h1 where fin: "finish quiet_env one_client one_client_history = (s1, h1)"
    by (cases "finish quiet_env one_client one_client_history")
  have "\<exists>s2 h2. start quiet_env 7000 s1 h1 = (Inr success, s2, h2)"
    using fin
    by (auto simp: finish_def request_stop_def finish_joined_eq one_client_def one_client_history_def
        start_def core_simps Let_def quiet_env_def next_fd_def TcpServer_init_def INVALID_SOCKET_def
        FD_SET_def FD_SETSIZE_def)
  then obtain s2 h2 where st: "start quiet_env 7000 s1 h1 = (Inr success, s2, h2)" by blast
  have "serverTask 1000 quiet_env silent_callbacks (s2, (), h2) = (Inr True, s2, (), h2)"
    by (rule restart_never_serves[OF fin st])
  with fin st show ?thesis by (intro exI conjI)
qed

end
