(* ===== verification/ServerThread.thy ===== *)
theory ServerThread
  imports ServerSpec
begin

text \<open>
  \<open>common/TcpServer.h\<close> at the grain at which its threads interleave: \<open>serverTask\<close> cut into the
  actions between which another thread may act (each call of the kernel, each region under
  \<open>m_mutex\<close>, each notification is one), the other threads beside it, and \<open>sendClientMessage\<close>,
  which looks a client up under the lock and uses the pointer after releasing it.
\<close>

section \<open>The server thread, one action at a time\<close>

text \<open>
  Where the thread is: at \<open>while (!m_stop)\<close>; in the \<open>for\<close> loop, with the ready descriptors still
  to come; past the lookup of one of them (a client, or taken for the accept socket); past
  \<open>recv\<close>; before and after \<open>deleteClient\<close>; past \<open>accept\<close>, \<open>emplace\<close>, \<open>FD_SET\<close>; past the loop.
  \<open>Failed\<close> is undefined behaviour, or an exception that escapes from the thread.
\<close>

datatype pc =
    AtHead
  | Scanning "int list"
  | ClientFound int "int list"
  | Received int int string "int list"
  | Erasing int "int list"
  | Erased int "int list"
  | AcceptFound int "int list"
  | Accepted int "int list"
  | Emplaced int "int list"
  | Watched int "int list"
  | Gone
  | AllClosed
  | Failed error

text \<open>What the recipient of the callbacks is told.\<close>

datatype event = Connected int | Data int string | Disconnected int

text \<open>A notification: the callback runs to its end, and what it throws ends the thread.\<close>

definition notified :: "event \<Rightarrow> pc \<Rightarrow> unit outcome \<times> 'c srv_state \<Rightarrow> event list \<times> pc \<times> 'c srv_state" where
  "notified ev pc r = (case r of (Inr _, st) \<Rightarrow> ([ev], pc, st) | (Inl err, st) \<Rightarrow> ([ev], Failed err, st))"

fun thread_move :: "env \<Rightarrow> 'c callbacks \<Rightarrow> pc \<Rightarrow> 'c srv_state \<Rightarrow> event list \<times> pc \<times> 'c srv_state" where
  "thread_move e cb AtHead (s, c, h) =
     (if srv_stop s then ([], Gone, s, c, h)
      else let (fds, h) = select_ready e s h in ([], Scanning fds, s, c, h))"
| "thread_move e cb (Scanning []) st = ([], AtHead, st)"
| "thread_move e cb (Scanning (fd # fds)) (s, c, h) =
     ([], if map_of (srv_clients s) fd \<noteq> None then ClientFound fd fds else AcceptFound fd fds, s, c, h)"
| "thread_move e cb (ClientFound fd fds) (s, c, h) =
     (let ((n, data), h) = core_Recv e fd MAX_PACKET_SIZE h in ([], Received fd n data fds, s, c, h))"
| "thread_move e cb (Received fd n data fds) (s, c, h) =
     (if n < 1 then
        ([], if n = 0 then Erasing fd fds else Scanning fds,
         s\<lparr>srv_clients := set_disconnected fd (srv_clients s)\<rparr>, c, h)
      else notified (Data fd data) (Scanning fds) (onReceiveClientData cb fd data (s, c, h)))"
| "thread_move e cb (Erasing fd fds) (s, c, h) =
     (case deleteClient e fd s h of
        (Inl err, s, h) \<Rightarrow> ([], Failed err, s, c, h)
      | (Inr _, s, h) \<Rightarrow> ([], Erased fd fds, s, c, h))"
| "thread_move e cb (Erased fd fds) st =
     notified (Disconnected fd) (Scanning fds) (publishDisconnected cb fd st)"
| "thread_move e cb (AcceptFound fd fds) (s, c, h) =
     (let ((clientfd, peer), h) = core_Accept e fd h
      in if clientfd = -1 then ([], Scanning fds, s, c, h)
         else ([], Accepted clientfd fds, s\<lparr>srv_clientAddress := peer\<rparr>, c, h))"
| "thread_move e cb (Accepted clientfd fds) (s, c, h) =
     (let client = \<lparr>c_ip = inet_ntop (sin_addr (srv_clientAddress s)), c_sockfd = clientfd,
                    c_port = ntohs (sin_port (srv_clientAddress s)), c_isConnected = True\<rparr>
      in ([], Emplaced clientfd fds, s\<lparr>srv_clients := emplace clientfd client (srv_clients s)\<rparr>, c, h))"
| "thread_move e cb (Emplaced clientfd fds) (s, c, h) =
     (case FD_SET clientfd (srv_fds s) of
        Inl err \<Rightarrow> ([], Failed err, s, c, h)
      | Inr watched \<Rightarrow> ([], Watched clientfd fds, s\<lparr>srv_fds := watched\<rparr>, c, h))"
| "thread_move e cb (Watched clientfd fds) st =
     notified (Connected clientfd) (Scanning fds) (onClientConnect cb clientfd st)"
| "thread_move e cb pc st = ([], pc, st)"

fun halted :: "pc \<Rightarrow> bool" where
  "halted Gone = True"
| "halted AllClosed = True"
| "halted (Failed _) = True"
| "halted _ = False"

text \<open>The thread by itself, for a number of actions.\<close>

fun thread_run :: "nat \<Rightarrow> env \<Rightarrow> 'c callbacks \<Rightarrow> pc \<times> 'c srv_state \<Rightarrow> pc \<times> 'c srv_state" where
  "thread_run 0 e cb x = x"
| "thread_run (Suc n) e cb (pc, st) = thread_run n e cb (snd (thread_move e cb pc st))"

lemma halted_move [simp]: "halted pc \<Longrightarrow> thread_move e cb pc st = ([], pc, st)"
  by (cases pc) auto

lemma halted_run [simp]: "halted pc \<Longrightarrow> thread_run n e cb (pc, st) = (pc, st)"
  by (induction n) simp_all

lemma thread_run_add: "thread_run (m + n) e cb x = thread_run n e cb (thread_run m e cb x)"
proof (induction m arbitrary: x)
  case (Suc m)
  then show ?case by (cases x) simp
qed simp

lemma thread_run_Suc: "thread_run (Suc m) e cb x = (case thread_run m e cb x of (pc, st) \<Rightarrow> snd (thread_move e cb pc st))"
  using thread_run_add[of m 1 e cb x] by (cases "thread_run m e cb x") simp

section \<open>The thread by itself is \<open>serverTask\<close>\<close>

text \<open>Where the thread stands after a piece of the program that may throw.\<close>

definition ended :: "pc \<Rightarrow> unit outcome \<times> 'c srv_state \<Rightarrow> pc \<times> 'c srv_state" where
  "ended pc r = (case r of (Inr _, st) \<Rightarrow> (pc, st) | (Inl err, st) \<Rightarrow> (Failed err, st))"

lemma snd_notified: "snd (notified ev pc r) = ended pc r"
  by (auto simp: notified_def ended_def split: prod.splits sum.splits)

lemma receive_from_run:
  assumes "fd \<in> handles s"
  shows "\<exists>n. thread_run n e cb (Scanning (fd # fds), s, c, h) = ended (Scanning fds) (receive_from e cb fd (s, c, h))"
proof -
  obtain n data h1 where recv: "core_Recv e fd MAX_PACKET_SIZE h = ((n, data), h1)"
    by (metis surj_pair)
  have two: "thread_run 2 e cb (Scanning (fd # fds), s, c, h) = (Received fd n data fds, s, c, h1)"
    using assms recv by (simp add: eval_nat_numeral map_of_handles)
  let ?s = "s\<lparr>srv_clients := set_disconnected fd (srv_clients s)\<rparr>"
  consider "n < 0" | "n = 0" | "n \<ge> 1" by linarith
  then show ?thesis
  proof cases
    case 1
    then have "thread_run (2 + 1) e cb (Scanning (fd # fds), s, c, h) =
        ended (Scanning fds) (receive_from e cb fd (s, c, h))"
      unfolding thread_run_add two by (simp add: receive_from_def recv ended_def)
    then show ?thesis by blast
  next
    case 2
    then have three: "thread_run (2 + 1) e cb (Scanning (fd # fds), s, c, h) = (Erasing fd fds, ?s, c, h1)"
      unfolding thread_run_add two by simp
    obtain r s2 h2 where del: "deleteClient e fd ?s h1 = (r, s2, h2)" by (metis surj_pair)
    have "thread_run ((2 + 1) + 2) e cb (Scanning (fd # fds), s, c, h) =
        ended (Scanning fds) (receive_from e cb fd (s, c, h))"
      unfolding thread_run_add[of "2 + 1"] three using 2 recv del
      by (cases r) (simp_all add: eval_nat_numeral receive_from_def snd_notified, simp add: ended_def)
    then show ?thesis by blast
  next
    case 3
    then have "thread_run (2 + 1) e cb (Scanning (fd # fds), s, c, h) =
        ended (Scanning fds) (receive_from e cb fd (s, c, h))"
      unfolding thread_run_add two by (simp add: receive_from_def recv snd_notified)
    then show ?thesis by blast
  qed
qed

lemma accept_on_run:
  assumes "fd \<notin> handles s"
  shows "\<exists>n. thread_run n e cb (Scanning (fd # fds), s, c, h) = ended (Scanning fds) (accept_on e cb fd (s, c, h))"
proof -
  obtain k peer h1 where acc: "core_Accept e fd h = ((k, peer), h1)" by (metis surj_pair)
  have look: "map_of (srv_clients s) fd = None" using assms by (simp add: map_of_handles)
  show ?thesis
  proof (cases "k = -1")
    case True
    then have "thread_run 2 e cb (Scanning (fd # fds), s, c, h) =
        ended (Scanning fds) (accept_on e cb fd (s, c, h))"
      using look acc by (simp add: eval_nat_numeral accept_on_def ended_def)
    then show ?thesis by blast
  next
    case False
    let ?client = "\<lparr>c_ip = inet_ntop (sin_addr peer), c_sockfd = k, c_port = ntohs (sin_port peer), c_isConnected = True\<rparr>"
    let ?s = "s\<lparr>srv_clientAddress := peer, srv_clients := emplace k ?client (srv_clients s)\<rparr>"
    have three: "thread_run 3 e cb (Scanning (fd # fds), s, c, h) = (Emplaced k fds, ?s, c, h1)"
      using False look acc by (simp add: eval_nat_numeral Let_def)
    have "thread_run (3 + 2) e cb (Scanning (fd # fds), s, c, h) =
        ended (Scanning fds) (accept_on e cb fd (s, c, h))"
      unfolding thread_run_add three using False acc
      by (cases "FD_SET k (srv_fds s)") (simp_all add: eval_nat_numeral accept_on_def Let_def snd_notified, simp add: ended_def)
    then show ?thesis by blast
  qed
qed

lemma handle_fd_run:
  "\<exists>n. thread_run n e cb (Scanning (fd # fds), st) = ended (Scanning fds) (handle_fd e cb fd st)"
proof -
  obtain s c h where st: "st = (s, c, h)" by (cases st)
  show ?thesis
    using receive_from_run[of fd s e cb fds c h] accept_on_run[of fd s e cb fds c h]
    by (cases "fd \<in> handles s") (auto simp: st handle_fd_def map_of_handles)
qed

lemma scan_run:
  "\<exists>n. thread_run n e cb (Scanning fds, st) = ended AtHead (for_each (handle_fd e cb) fds st)"
proof (induction fds arbitrary: st)
  case Nil
  have "thread_run 1 e cb (Scanning [], st) = ended AtHead (for_each (handle_fd e cb) [] st)"
    by (simp add: ended_def)
  then show ?case by blast
next
  case (Cons fd fds)
  obtain n where n: "thread_run n e cb (Scanning (fd # fds), st) = ended (Scanning fds) (handle_fd e cb fd st)"
    using handle_fd_run by blast
  obtain r st1 where r: "handle_fd e cb fd st = (r, st1)" by (metis surj_pair)
  show ?case
  proof (cases r)
    case (Inl err)
    with n r show ?thesis by (auto simp: ended_def)
  next
    case (Inr u)
    obtain m where "thread_run m e cb (Scanning fds, st1) = ended AtHead (for_each (handle_fd e cb) fds st1)"
      using Cons.IH by blast
    then have "thread_run (n + m) e cb (Scanning (fd # fds), st) =
        ended AtHead (for_each (handle_fd e cb) (fd # fds) st)"
      unfolding thread_run_add n using r Inr by (simp add: ended_def)
    then show ?thesis by blast
  qed
qed

lemma pass_run:
  assumes "\<not> srv_stop (fst st)"
  shows "\<exists>n > 0. thread_run n e cb (AtHead, st) = ended AtHead (server_pass e cb st)"
proof -
  obtain s c h where st: "st = (s, c, h)" by (cases st)
  obtain fds h1 where sel: "select_ready e s h = (fds, h1)" by (metis surj_pair)
  obtain n where "thread_run n e cb (Scanning fds, s, c, h1) = ended AtHead (for_each (handle_fd e cb) fds (s, c, h1))"
    using scan_run by blast
  then have "thread_run (Suc n) e cb (AtHead, st) = ended AtHead (server_pass e cb st)"
    using assms sel by (simp add: st server_pass_def)
  then show ?thesis by blast
qed

lemma ended_cases:
  "ended pc r = (pc', st') \<Longrightarrow> (\<exists>u. r = (Inr u, st') \<and> pc' = pc) \<or> (\<exists>err. r = (Inl err, st') \<and> pc' = Failed err)"
  by (auto simp: ended_def split: prod.splits sum.splits)

text \<open>Where the thread stands when \<open>serverTask\<close> has that result.\<close>

fun stands :: "bool outcome \<Rightarrow> pc" where
  "stands (Inr b) = (if b then Gone else AtHead)"
| "stands (Inl err) = Failed err"

lemma stands_inject: "stands r = stands r' \<longleftrightarrow> r = r'"
  by (cases r; cases r') auto

lemma serverTask_run:
  "serverTask fuel e cb st = (r, st') \<Longrightarrow> \<exists>n. thread_run n e cb (AtHead, st) = (stands r, st')"
proof (induction fuel arbitrary: st)
  case (0 st)
  then have "thread_run (if srv_stop (fst st) then 1 else 0) e cb (AtHead, st) = (stands r, st')"
    by (cases st) auto
  then show ?case by blast
next
  case (Suc fuel st)
  show ?case
  proof (cases "srv_stop (fst st)")
    case True
    with Suc.prems show ?thesis by (cases st) (auto intro!: exI[of _ 1])
  next
    case False
    obtain n where n: "thread_run n e cb (AtHead, st) = ended AtHead (server_pass e cb st)"
      using pass_run[OF False] by blast
    obtain r1 st1 where pass: "server_pass e cb st = (r1, st1)" by (metis surj_pair)
    show ?thesis
    proof (cases r1)
      case (Inl err)
      with Suc.prems False pass n show ?thesis by (auto simp: ended_def)
    next
      case (Inr u)
      then have "serverTask fuel e cb st1 = (r, st')" using Suc.prems False pass by simp
      then obtain m where "thread_run m e cb (AtHead, st1) = (stands r, st')" using Suc.IH by blast
      then have "thread_run (n + m) e cb (AtHead, st) = (stands r, st')"
        unfolding thread_run_add n by (simp add: pass Inr ended_def)
      then show ?thesis by blast
    qed
  qed
qed

lemma run_serverTask:
  "thread_run n e cb (AtHead, st) = (pc, st') \<Longrightarrow> halted pc \<Longrightarrow>
     \<exists>fuel r. serverTask fuel e cb st = (r, st') \<and> stands r = pc"
proof (induction n arbitrary: st rule: less_induct)
  case (less n)
  show ?case
  proof (cases "srv_stop (fst st)")
    case True
    then have "thread_run n e cb (AtHead, st) = (if n = 0 then AtHead else Gone, st)"
      by (cases n; cases st) simp_all
    with less.prems have "st' = st" "pc = Gone" by (auto split: if_splits)
    with True show ?thesis by (auto intro!: exI[of _ 0] exI[of _ "Inr True"])
  next
    case False
    obtain m where m: "m > 0" "thread_run m e cb (AtHead, st) = ended AtHead (server_pass e cb st)"
      using pass_run[OF False] by blast
    obtain r st1 where pass: "server_pass e cb st = (r, st1)" by (metis surj_pair)
    have m_le: "m \<le> n" if "r = Inr ()"
    proof (rule ccontr)
      assume "\<not> m \<le> n"
      then have "thread_run m e cb (AtHead, st) = (pc, st')"
        using less.prems thread_run_add[of n "m - n" e cb "(AtHead, st)"] by simp
      then show False using m(2) pass that less.prems(2) by (auto simp: ended_def)
    qed
    show ?thesis
    proof (cases r)
      case (Inr u)
      then have "thread_run (n - m) e cb (AtHead, st1) = (pc, st')"
        using less.prems(1) m_le thread_run_add[of m "n - m" e cb "(AtHead, st)"] m(2) pass
        by (simp add: ended_def)
      moreover have "n - m < n" using m(1) m_le Inr by simp
      ultimately obtain fuel r1 where "serverTask fuel e cb st1 = (r1, st')" "stands r1 = pc"
        using less.IH less.prems(2) by blast
      then have "serverTask (Suc fuel) e cb st = (r1, st') \<and> stands r1 = pc" using False pass Inr by simp
      then show ?thesis by blast
    next
      case (Inl err)
      then have "thread_run m e cb (AtHead, st) = (Failed err, st1)" using m(2) pass by (simp add: ended_def)
      then have "(Failed err, st1) = (pc, st')"
        using less.prems thread_run_add[of m n e cb "(AtHead, st)"] thread_run_add[of n m e cb "(AtHead, st)"]
        by (simp add: add.commute)
      moreover have "serverTask 1 e cb st = (Inl err, st1)" using False pass Inl by simp
      ultimately show ?thesis by (auto intro!: exI[of _ 1] exI[of _ "Inl err"])
    qed
  qed
qed

text \<open>C5: cutting the server thread into the actions between which other threads may act changes
  nothing it does alone: for every kernel and every recipient of the callbacks, \<open>serverTask\<close>
  leaves its loop in some state, or fails with some error in some state, exactly when the
  sequence of the thread's actions does.\<close>

theorem thread_actions_are_serverTask:
  "((\<exists>fuel. serverTask fuel e cb st = (Inr True, st')) \<longleftrightarrow>
     (\<exists>n. thread_run n e cb (AtHead, st) = (Gone, st'))) \<and>
   ((\<exists>fuel. serverTask fuel e cb st = (Inl err, st')) \<longleftrightarrow>
     (\<exists>n. thread_run n e cb (AtHead, st) = (Failed err, st')))"
proof -
  have eq: "(\<exists>fuel. serverTask fuel e cb st = (r, st')) \<longleftrightarrow>
      (\<exists>n. thread_run n e cb (AtHead, st) = (stands r, st'))" if "halted (stands r)" for r
    using serverTask_run[of _ e cb st r st'] run_serverTask[of _ e cb st "stands r" st'] that
    by (metis stands_inject)
  show ?thesis using eq[of "Inr True"] eq[of "Inl err"] by simp
qed

end
