(* ===== verification/ServerThreads.thy ===== *)
theory ServerThreads
  imports ServerThread
begin

text \<open>
  The server thread among the other threads of the process, at the grain of \<open>ServerThread\<close>:
  broadcasts, \<open>sendClientMessage\<close> in its two halves, the stop request and \<open>finish\<close> come between
  any two actions of the thread. What holds at every point: the table and the recipient's
  register agree but for the client in hand, no call uses a closed descriptor, the
  notifications follow the protocol of a connection, and a stop request ends the thread.
\<close>

section \<open>The system\<close>

text \<open>
  A pointer \<open>sendClientMessage\<close> took under the lock and has not used yet: the key it was found
  under, the message, and whether its node is still in the table. \<open>erase\<close> and \<open>clear\<close> free nodes.
\<close>

type_synonym pointer = "int \<times> string \<times> bool"
type_synonym 'c system = "pc \<times> pointer list \<times> 'c srv_state"

definition erase_node :: "int \<Rightarrow> pointer list \<Rightarrow> pointer list" where
  "erase_node k ps = map (\<lambda>(k', msg, alive). (k', msg, alive \<and> k' \<noteq> k)) ps"

definition clear_nodes :: "pointer list \<Rightarrow> pointer list" where
  "clear_nodes ps = map (\<lambda>(k, msg, alive). (k, msg, False)) ps"

fun after_move :: "pc \<Rightarrow> pointer list \<Rightarrow> pointer list" where
  "after_move (Erased k _) ps = erase_node k ps"
| "after_move _ ps = ps"

text \<open>What a step does: an action of the thread with the notifications it gives, or another
  thread's: a broadcast, the two halves of a send to one client, the stop request, and the
  rest of \<open>finish\<close> after the join.\<close>

datatype action = Thread (notices: "event list") | Broadcast string | Lookup int string | Use nat | Stop | Finish

fun failed :: "pc \<Rightarrow> bool" where
  "failed (Failed _) = True"
| "failed _ = False"

inductive system_step :: "env \<Rightarrow> 'c callbacks \<Rightarrow> 'c system \<Rightarrow> action \<Rightarrow> 'c system \<Rightarrow> bool"
  for e :: env and cb :: "'c callbacks" where
  by_thread: "\<not> halted pc \<Longrightarrow> thread_move e cb pc (s, c, h) = (evs, pc', s', c', h') \<Longrightarrow>
    system_step e cb (pc, ps, s, c, h) (Thread evs) (pc', after_move pc' ps, s', c', h')"
| by_broadcast: "\<not> failed pc \<Longrightarrow>
    system_step e cb (pc, ps, s, c, h) (Broadcast msg) (pc, ps, s, c, snd (sendBcast e msg s h))"
| by_lookup: "\<not> failed pc \<Longrightarrow> k \<in> handles s \<Longrightarrow>
    system_step e cb (pc, ps, s, c, h) (Lookup k msg) (pc, ps @ [(k, msg, True)], s, c, h)"
| by_use: "\<not> failed pc \<Longrightarrow> i < length ps \<Longrightarrow> ps ! i = (k, msg, True) \<Longrightarrow>
    map_of (srv_clients s) k = Some client \<Longrightarrow>
    system_step e cb (pc, ps, s, c, h) (Use i)
      (pc, take i ps @ drop (Suc i) ps, s, c, snd (client_sendMsg e msg client h))"
| by_dangling: "\<not> failed pc \<Longrightarrow> i < length ps \<Longrightarrow> ps ! i = (k, msg, False) \<Longrightarrow>
    system_step e cb (pc, ps, s, c, h) (Use i)
      (Failed (Undefined ''use of an erased client''), take i ps @ drop (Suc i) ps, s, c, h)"
| by_stop: "\<not> failed pc \<Longrightarrow>
    system_step e cb (pc, ps, s, c, h) Stop (pc, ps, request_stop s, c, h)"
| by_finish: "finish_joined e s h = (s', h') \<Longrightarrow>
    system_step e cb (Gone, ps, s, c, h) Finish (AllClosed, clear_nodes ps, s', c, h')"

inductive_cases system_stepE: "system_step e cb (pc, ps, s, c, h) a x'"

inductive system_run :: "env \<Rightarrow> 'c callbacks \<Rightarrow> 'c system \<Rightarrow> action list \<Rightarrow> 'c system \<Rightarrow> bool"
  for e :: env and cb :: "'c callbacks" where
  run_none: "system_run e cb x [] x"
| run_more: "system_run e cb x as y \<Longrightarrow> system_step e cb y a z \<Longrightarrow> system_run e cb x (as @ [a]) z"

text \<open>An invariant of the steps is one of the runs.\<close>

lemma system_run_invariant:
  assumes "system_run e cb x as y" and "I x []"
    and "\<And>as pc ps s c h a z. I (pc, ps, s, c, h) as \<Longrightarrow> system_step e cb (pc, ps, s, c, h) a z \<Longrightarrow> I z (as @ [a])"
  shows "I y as"
  using assms(1,2)
proof (induction rule: system_run.induct)
  case (run_more x as y a z)
  obtain pc ps s c h where "y = (pc, ps, s, c, h)" by (cases y)
  then show ?case using assms(3) run_more by blast
qed

lemma system_run_cons:
  "system_step e cb x a y \<Longrightarrow> system_run e cb y as z \<Longrightarrow> system_run e cb x (a # as) z"
proof (rotate_tac, induction rule: system_run.induct)
  case (run_none x')
  then show ?case using system_run.run_more[OF system_run.run_none] by fastforce
next
  case (run_more x' as y' a' z)
  then show ?case using system_run.run_more by fastforce
qed

text \<open>The notifications of a run, in order, and the number of the thread's actions in it.\<close>

definition events_of :: "action list \<Rightarrow> event list" where
  "events_of as = concat (map (\<lambda>a. case a of Thread evs \<Rightarrow> evs | _ \<Rightarrow> []) as)"

definition moves_of :: "action list \<Rightarrow> nat" where
  "moves_of as = length (filter (\<lambda>a. case a of Thread _ \<Rightarrow> True | _ \<Rightarrow> False) as)"

lemma events_of_simps [simp]:
  "events_of [] = []" "events_of (as @ [Thread evs]) = events_of as @ evs"
  "events_of (as @ [Broadcast m]) = events_of as" "events_of (as @ [Lookup k m]) = events_of as"
  "events_of (as @ [Use i]) = events_of as" "events_of (as @ [Stop]) = events_of as"
  "events_of (as @ [Finish]) = events_of as"
  by (simp_all add: events_of_def)

lemma moves_of_simps [simp]:
  "moves_of [] = 0" "moves_of (as @ [Thread evs]) = Suc (moves_of as)"
  "moves_of (as @ [Broadcast m]) = moves_of as" "moves_of (as @ [Lookup k m]) = moves_of as"
  "moves_of (as @ [Use i]) = moves_of as" "moves_of (as @ [Stop]) = moves_of as"
  "moves_of (as @ [Finish]) = moves_of as"
  by (simp_all add: moves_of_def)

section \<open>The protocol of the notifications\<close>

text \<open>
  What the recipient of the callbacks may rely on, as a program over the set of live
  connections: a client is connected once, its data is never empty and comes while it is
  connected, and it is disconnected once. \<open>None\<close> when the notifications break the protocol.
\<close>

fun conn_spec :: "int set \<Rightarrow> event list \<Rightarrow> int set option" where
  "conn_spec live [] = Some live"
| "conn_spec live (Connected k # evs) = (if k \<in> live then None else conn_spec (insert k live) evs)"
| "conn_spec live (Data k data # evs) =
     (if k \<in> live \<and> data \<noteq> [] \<and> length data \<le> MAX_PACKET_SIZE then conn_spec live evs else None)"
| "conn_spec live (Disconnected k # evs) = (if k \<in> live then conn_spec (live - {k}) evs else None)"

lemma conn_spec_append:
  "conn_spec live evs = Some live' \<Longrightarrow> conn_spec live (evs @ evs') = conn_spec live' evs'"
  by (induction live evs rule: conn_spec.induct) (auto split: if_splits)

text \<open>Which of the clients in the table the recipient has been told of.\<close>

fun announced :: "pc \<Rightarrow> int set \<Rightarrow> int set" where
  "announced (Erased k _) live = insert k live"
| "announced (Emplaced k _) live = live - {k}"
| "announced (Watched k _) live = live - {k}"
| "announced _ live = live"

text \<open>Which of them are in the \<open>fd_set\<close>.\<close>

fun watched :: "pc \<Rightarrow> int set \<Rightarrow> int set" where
  "watched (Emplaced k _) live = live - {k}"
| "watched _ live = live"

section \<open>The invariant at every point\<close>

definition todo :: "int \<Rightarrow> TcpServer \<Rightarrow> int list \<Rightarrow> bool" where
  "todo listen s fds \<longleftrightarrow> distinct fds \<and> set fds \<subseteq> insert listen (handles s)"

definition fresh_fd :: "env \<Rightarrow> TcpServer \<Rightarrow> history \<Rightarrow> int \<Rightarrow> bool" where
  "fresh_fd e s h k \<longleftrightarrow> 0 \<le> k \<and> k \<in> open_fds e h \<and> k \<notin> srv_fds s"

definition received_ok :: "int \<Rightarrow> string \<Rightarrow> bool" where
  "received_ok n data \<longleftrightarrow> (1 \<le> n \<longrightarrow> data \<noteq> [] \<and> length data \<le> MAX_PACKET_SIZE)"

definition pointers_ok :: "TcpServer \<Rightarrow> pointer list \<Rightarrow> bool" where
  "pointers_ok s ps \<longleftrightarrow> (\<forall>(k, msg, alive) \<in> set ps. alive \<longrightarrow> k \<in> handles s)"

lemma todo_cong: "handles s' = handles s \<Longrightarrow> todo listen s' fds = todo listen s fds"
  by (simp add: todo_def)

lemma todo_mono: "todo listen s fds \<Longrightarrow> handles s \<subseteq> handles s' \<Longrightarrow> todo listen s' fds"
  unfolding todo_def by blast

lemma todo_tl: "todo listen s (fd # fds) \<Longrightarrow> todo listen s fds"
  by (simp add: todo_def)

lemma pointers_ok_mono: "pointers_ok s ps \<Longrightarrow> handles s \<subseteq> handles s' \<Longrightarrow> pointers_ok s' ps"
  by (auto simp: pointers_ok_def)

lemma pointers_ok_erase: "pointers_ok s ps \<Longrightarrow> handles s' = handles s - {k} \<Longrightarrow> pointers_ok s' (erase_node k ps)"
  by (auto simp: pointers_ok_def erase_node_def)

lemma pointers_ok_clear: "pointers_ok s (clear_nodes ps)"
  by (auto simp: pointers_ok_def clear_nodes_def)

lemma pointers_ok_drop: "pointers_ok s ps \<Longrightarrow> pointers_ok s (take i ps @ drop (Suc i) ps)"
  by (auto simp: pointers_ok_def dest!: in_set_takeD in_set_dropD)

lemma after_move_other: "\<forall>k fds. pc \<noteq> Erased k fds \<Longrightarrow> after_move pc ps = ps"
  by (cases pc) auto

lemma core_Recv_ok:
  "core_Recv e fd MAX_PACKET_SIZE h = ((n, data), h') \<Longrightarrow>
     received_ok n data \<and> h' = h @ [SysRecv fd MAX_PACKET_SIZE]"
  by (auto simp: core_simps received_ok_def split: option.splits)

context connection_listener
begin

fun at_point :: "env \<Rightarrow> int \<Rightarrow> pc \<Rightarrow> 'c srv_state \<Rightarrow> bool" where
  "at_point e listen AtHead (s, c, h) = in_sync e (s, c, h)"
| "at_point e listen (Scanning fds) (s, c, h) = (in_sync e (s, c, h) \<and> todo listen s fds)"
| "at_point e listen (ClientFound fd fds) (s, c, h) =
     (in_sync e (s, c, h) \<and> fd \<in> handles s \<and> todo listen s (fd # fds))"
| "at_point e listen (Received fd n data fds) (s, c, h) =
     (in_sync e (s, c, h) \<and> fd \<in> handles s \<and> todo listen s (fd # fds) \<and> received_ok n data)"
| "at_point e listen (Erasing fd fds) (s, c, h) =
     (in_sync e (s, c, h) \<and> fd \<in> handles s \<and> todo listen s (fd # fds))"
| "at_point e listen (Erased fd fds) (s, c, h) =
     (srv_inv e s h \<and> known c = insert fd (handles s) \<and> fd \<notin> handles s \<and> todo listen s fds)"
| "at_point e listen (AcceptFound fd fds) (s, c, h) =
     (in_sync e (s, c, h) \<and> fd = listen \<and> todo listen s fds)"
| "at_point e listen (Accepted k fds) (s, c, h) =
     (in_sync e (s, c, h) \<and> todo listen s fds \<and> fresh_fd e s h k)"
| "at_point e listen (Emplaced k fds) (s, c, h) =
     (todo listen s fds \<and> fresh_fd e s h k \<and>
      (\<exists>client clients. srv_clients s = (k, client) # clients \<and> c_sockfd client = k \<and>
         in_sync e (s\<lparr>srv_clients := clients\<rparr>, c, h)))"
| "at_point e listen (Watched k fds) (s, c, h) =
     (srv_inv e s h \<and> k \<in> handles s \<and> known c = handles s - {k} \<and> todo listen s fds)"
| "at_point e listen Gone (s, c, h) = (in_sync e (s, c, h) \<and> srv_stop s)"
| "at_point e listen AllClosed (s, c, h) = (srv_clients s = [] \<and> srv_sockfd s = INVALID_SOCKET)"
| "at_point e listen (Failed err) (s, c, h) = True"

definition system_ok :: "env \<Rightarrow> int \<Rightarrow> 'c system \<Rightarrow> bool" where
  "system_ok e listen x \<longleftrightarrow> (case x of (pc, ps, s, c, h) \<Rightarrow>
     at_point e listen pc (s, c, h) \<and>
     (\<not> failed pc \<longrightarrow> pointers_ok s ps) \<and>
     (pc \<noteq> AllClosed \<longrightarrow> \<not> failed pc \<longrightarrow> srv_sockfd s = listen))"

text \<open>What does not open or close a descriptor, and the stop request, change nothing of it.\<close>

lemma in_sync_cong:
  "in_sync e (s, c, h) \<Longrightarrow> open_fds e h' = open_fds e h \<Longrightarrow> in_sync e (s, c, h')"
  by (auto simp: in_sync_def intro: srv_inv_cong)

lemma at_point_cong:
  assumes "at_point e listen pc (s, c, h)" and "open_fds e h' = open_fds e h"
  shows "at_point e listen pc (s, c, h')"
proof (cases pc)
  case (Emplaced k fds)
  with assms(1) obtain client clients where "todo listen s fds" "fresh_fd e s h k"
    "srv_clients s = (k, client) # clients" "c_sockfd client = k"
    "in_sync e (s\<lparr>srv_clients := clients\<rparr>, c, h)" by auto
  moreover from this have "in_sync e (s\<lparr>srv_clients := clients\<rparr>, c, h')" by (intro in_sync_cong[OF _ assms(2)])
  ultimately show ?thesis using Emplaced assms(2) by (simp add: fresh_fd_def)
qed (use assms in_sync_cong[OF _ assms(2)] srv_inv_cong[of e s h h' s] in \<open>simp_all add: fresh_fd_def\<close>)

lemma srv_inv_stop: "srv_inv e (request_stop s) h = srv_inv e s h"
  by (simp add: srv_inv_def request_stop_def)

lemma at_point_stop:
  assumes "at_point e listen pc (s, c, h)"
  shows "at_point e listen pc (request_stop s, c, h)"
proof (cases pc)
  case (Emplaced k fds)
  with assms obtain client clients where "todo listen s fds" "fresh_fd e s h k"
    "srv_clients s = (k, client) # clients" "c_sockfd client = k"
    "in_sync e (s\<lparr>srv_clients := clients\<rparr>, c, h)" by auto
  moreover have "(request_stop s)\<lparr>srv_clients := clients\<rparr> = request_stop (s\<lparr>srv_clients := clients\<rparr>)"
    by (simp add: request_stop_def)
  then have "in_sync e ((request_stop s)\<lparr>srv_clients := clients\<rparr>, c, h)"
    using calculation(5) in_sync_stop by simp
  ultimately show ?thesis using Emplaced by (simp add: todo_def fresh_fd_def request_stop_def)
qed (use assms in_sync_stop[of e s c h] srv_inv_stop[of e s h] in
    \<open>simp_all add: todo_def fresh_fd_def request_stop_def\<close>)

text \<open>What one action of the thread has to keep, and the protocol steps it may announce.\<close>

definition move_ok :: "env \<Rightarrow> int \<Rightarrow> TcpServer \<Rightarrow> 'c \<Rightarrow> event list \<times> pc \<times> 'c srv_state \<Rightarrow> bool" where
  "move_ok e listen s c r \<longleftrightarrow> (case r of (evs, pc', s', c', h') \<Rightarrow>
     at_point e listen pc' (s', c', h') \<and>
     (\<exists>live. conn_spec (known c) evs = Some live \<and> (\<not> failed pc' \<longrightarrow> live = known c')) \<and>
     (\<not> failed pc' \<longrightarrow> srv_sockfd s' = srv_sockfd s \<and>
        (\<forall>ps. pointers_ok s ps \<longrightarrow> pointers_ok s' (after_move pc' ps))))"

lemma move_ok_failed: "conn_spec (known c) evs \<noteq> None \<Longrightarrow> move_ok e listen s c (evs, Failed err, s', c', h')"
  by (simp add: move_ok_def)

lemma move_ok_same_table:
  "at_point e listen pc' (s', c, h') \<Longrightarrow> srv_sockfd s' = srv_sockfd s \<Longrightarrow> handles s' = handles s \<Longrightarrow>
     \<forall>k fds. pc' \<noteq> Erased k fds \<Longrightarrow> move_ok e listen s c ([], pc', s', c, h')"
  using after_move_other[of pc'] by (simp add: move_ok_def pointers_ok_def)

text \<open>A notification that ends well leaves the server as it was and changes the register by its law.\<close>

lemma notified_ok:
  assumes "conn_spec (known c) [ev] \<noteq> None"
    and "\<And>s' c' h'. r = (Inr (), s', c', h') \<Longrightarrow>
      s' = s \<and> conn_spec (known c) [ev] = Some (known c') \<and> at_point e listen (Scanning fds) (s', c', h')"
  shows "move_ok e listen s c (notified ev (Scanning fds) r)"
proof -
  obtain q s' c' h' where r: "r = (q, s', c', h')" by (metis surj_pair)
  show ?thesis
  proof (cases q)
    case (Inl err)
    then show ?thesis using assms(1) r move_ok_failed by (simp add: notified_def)
  next
    case (Inr u)
    with r have "r = (Inr (), s', c', h')" by simp
    note facts = assms(2)[OF this]
    then have "s' = s" by blast
    with facts Inr r show ?thesis by (simp add: notified_def move_ok_def)
  qed
qed

lemma Received_ok:
  assumes "at_point e listen (Received fd n data fds) (s, c, h)"
  shows "move_ok e listen s c (thread_move e cb (Received fd n data fds) (s, c, h))"
proof -
  have sync: "in_sync e (s, c, h)" and fd: "fd \<in> handles s" and fds: "todo listen s (fd # fds)"
    and ok: "received_ok n data" and known: "known c = handles s"
    using assms by (auto simp: in_sync_def)
  show ?thesis
  proof (cases "n < 1")
    case True
    let ?s = "s\<lparr>srv_clients := set_disconnected fd (srv_clients s)\<rparr>"
    have "in_sync e (?s, c, h)" using sync srv_inv_disconnected by (auto simp: in_sync_def)
    then have "at_point e listen (if n = 0 then Erasing fd fds else Scanning fds) (?s, c, h)"
      using fd fds by (simp add: todo_def)
    then have "move_ok e listen s c ([], if n = 0 then Erasing fd fds else Scanning fds, ?s, c, h)"
      by (rule move_ok_same_table) simp_all
    then show ?thesis using True by simp
  next
    case False
    then have data: "data \<noteq> []" "length data \<le> MAX_PACKET_SIZE" using ok by (auto simp: received_ok_def)
    have "move_ok e listen s c (notified (Data fd data) (Scanning fds) (onReceiveClientData cb fd data (s, c, h)))"
    proof (rule notified_ok)
      show "conn_spec (known c) [Data fd data] \<noteq> None" using known fd data by simp
      fix s' c' h' assume "onReceiveClientData cb fd data (s, c, h) = (Inr (), s', c', h')"
      from data_law[OF this] have "s' = s" "known c' = known c" "neutral_ext h h'" by auto
      then show "s' = s \<and> conn_spec (known c) [Data fd data] = Some (known c') \<and>
          at_point e listen (Scanning fds) (s', c', h')"
        using sync known fd data fds in_sync_ext[of e s c h h'] by (auto simp: in_sync_def todo_def)
    qed
    then show ?thesis using False by simp
  qed
qed

lemma Erasing_ok:
  assumes "at_point e listen (Erasing fd fds) (s, c, h)"
  shows "move_ok e listen s c (thread_move e cb (Erasing fd fds) (s, c, h))"
proof -
  have inv: "srv_inv e s h" and fd: "fd \<in> handles s" and fds: "todo listen s (fd # fds)" and known: "known c = handles s"
    using assms by (auto simp: in_sync_def)
  obtain s' h' where del: "deleteClient e fd s h = (Inr True, s', h')" and s': "srv_inv e s' h'"
    "handles s' = handles s - {fd}" "srv_sockfd s' = srv_sockfd s"
    using deleteClient_inv[OF inv fd] by auto
  have "todo listen s' fds" using fds s'(2) unfolding todo_def by auto
  moreover have "known c = insert fd (handles s')" using known s'(2) fd by auto
  ultimately show ?thesis
    using del s' pointers_ok_erase[OF _ s'(2)] by (simp add: move_ok_def)
qed

lemma Erased_ok:
  assumes "at_point e listen (Erased fd fds) (s, c, h)"
  shows "move_ok e listen s c (thread_move e cb (Erased fd fds) (s, c, h))"
proof -
  have inv: "srv_inv e s h" and fd: "fd \<notin> handles s" and known: "known c = insert fd (handles s)"
    and fds: "todo listen s fds" using assms by auto
  have "move_ok e listen s c (notified (Disconnected fd) (Scanning fds) (publishDisconnected cb fd (s, c, h)))"
  proof (rule notified_ok)
    show "conn_spec (known c) [Disconnected fd] \<noteq> None" using known by simp
    fix s' c' h' assume "publishDisconnected cb fd (s, c, h) = (Inr (), s', c', h')"
    from disconnect_law[OF this[unfolded publishDisconnected_def]]
    have "s' = s" "known c' = known c - {fd}" "neutral_ext h h'" by auto
    then show "s' = s \<and> conn_spec (known c) [Disconnected fd] = Some (known c') \<and>
        at_point e listen (Scanning fds) (s', c', h')"
      using inv known fd fds srv_inv_cong[OF inv open_fds_neutral_ext] by (auto simp: in_sync_def)
  qed
  then show ?thesis by simp
qed

lemma AcceptFound_ok:
  assumes posix: "posix_fds e" and at: "at_point e listen (AcceptFound fd fds) (s, c, h)"
  shows "move_ok e listen s c (thread_move e cb (AcceptFound fd fds) (s, c, h))"
proof -
  let ?h = "h @ [SysAccept fd]" and ?k = "int_result e h (SysAccept fd)"
  have sync: "in_sync e (s, c, h)" and fds: "todo listen s fds" using at by auto
  then have inv: "srv_inv e s h" and known: "known c = handles s" by (auto simp: in_sync_def)
  show ?thesis
  proof (cases "?k = -1")
    case True
    have "in_sync e (s, c, ?h)" by (rule in_sync_cong[OF sync]) (simp add: True)
    then have "move_ok e listen s c ([], Scanning fds, s, c, ?h)"
      using fds by (intro move_ok_same_table) simp_all
    then show ?thesis using True by (simp add: core_simps)
  next
    case False
    let ?s = "s\<lparr>srv_clientAddress := peer_addr e h\<rparr>"
    have new: "0 \<le> ?k" "?k \<notin> open_fds e h" using posix_accept[OF posix False] by auto
    then have "?k \<notin> srv_fds s" using srv_invD(5)[OF inv] by blast
    with new False have fresh: "fresh_fd e ?s ?h ?k" by (simp add: fresh_fd_def)
    have "srv_inv e ?s ?h" using inv False unfolding srv_inv_def by auto
    then have "at_point e listen (Accepted ?k fds) (?s, c, ?h)"
      using known fds fresh by (simp add: in_sync_def todo_def)
    then have "move_ok e listen s c ([], Accepted ?k fds, ?s, c, ?h)"
      by (rule move_ok_same_table) simp_all
    then show ?thesis using False by (simp add: core_simps)
  qed
qed

lemma Accepted_ok:
  assumes "at_point e listen (Accepted k fds) (s, c, h)"
  shows "move_ok e listen s c (thread_move e cb (Accepted k fds) (s, c, h))"
proof -
  have sync: "in_sync e (s, c, h)" and fresh: "fresh_fd e s h k" and fds: "todo listen s fds"
    using assms by auto
  then have "k \<notin> handles s" using srv_invD(4)[of e s h] by (auto simp: in_sync_def fresh_fd_def)
  then have look: "map_of (srv_clients s) k = None" by (simp add: map_of_handles)
  define client where "client = \<lparr>c_ip = inet_ntop (sin_addr (srv_clientAddress s)), c_sockfd = k,
    c_port = ntohs (sin_port (srv_clientAddress s)), c_isConnected = True\<rparr>"
  then have client: "c_sockfd client = k" by simp
  have move: "thread_move e cb (Accepted k fds) (s, c, h) =
       ([], Emplaced k fds, s\<lparr>srv_clients := (k, client) # srv_clients s\<rparr>, c, h)"
    using look by (simp add: emplace_def client_def)
  let ?s = "s\<lparr>srv_clients := (k, client) # srv_clients s\<rparr>"
  have "?s\<lparr>srv_clients := srv_clients s\<rparr> = s" by simp
  then have "at_point e listen (Emplaced k fds) (?s, c, h)"
    using sync fresh todo_mono[OF fds, of ?s] client by (auto simp: fresh_fd_def)
  moreover have "known c = known c" by simp
  moreover have "pointers_ok ?s ps" if "pointers_ok s ps" for ps
    by (rule pointers_ok_mono[OF that]) auto
  ultimately show ?thesis unfolding move by (simp add: move_ok_def)
qed

lemma Emplaced_ok:
  assumes at: "at_point e listen (Emplaced k fds) (s, c, h)" and listen: "srv_sockfd s = listen"
  shows "move_ok e listen s c (thread_move e cb (Emplaced k fds) (s, c, h))"
proof -
  obtain client clients where fds: "todo listen s fds" and fresh: "fresh_fd e s h k" and
    clients: "srv_clients s = (k, client) # clients" "c_sockfd client = k" and
    sync: "in_sync e (s\<lparr>srv_clients := clients\<rparr>, c, h)" using at by auto
  show ?thesis
  proof (cases "k < FD_SETSIZE")
    case True
    let ?s = "s\<lparr>srv_fds := insert k (srv_fds s)\<rparr>"
    have inv: "srv_inv e (s\<lparr>srv_clients := clients\<rparr>) h" and known: "known c = fst ` set clients"
      using sync by (auto simp: in_sync_def)
    have out: "k \<notin> fst ` set clients" "k \<noteq> srv_sockfd s"
      using srv_invD(4)[OF inv] fresh by (auto simp: fresh_fd_def)
    have "srv_inv e ?s h"
      using inv fresh out True clients unfolding srv_inv_def fresh_fd_def by auto
    then have "at_point e listen (Watched k fds) (?s, c, h)"
      using known clients(1) out fds by (auto simp: todo_def)
    then have "move_ok e listen s c ([], Watched k fds, ?s, c, h)" by (rule move_ok_same_table) simp_all
    moreover have "0 \<le> k" using fresh by (simp add: fresh_fd_def)
    ultimately show ?thesis using True by (simp add: FD_SET_def)
  next
    case False
    then show ?thesis using move_ok_failed[of c "[]"] by (simp add: FD_SET_def)
  qed
qed

lemma Watched_ok:
  assumes "at_point e listen (Watched k fds) (s, c, h)"
  shows "move_ok e listen s c (thread_move e cb (Watched k fds) (s, c, h))"
proof -
  have inv: "srv_inv e s h" and k: "k \<in> handles s" and known: "known c = handles s - {k}"
    and fds: "todo listen s fds" using assms by auto
  have "move_ok e listen s c (notified (Connected k) (Scanning fds) (onClientConnect cb k (s, c, h)))"
  proof (rule notified_ok)
    show "conn_spec (known c) [Connected k] \<noteq> None" using known by simp
    fix s' c' h' assume "onClientConnect cb k (s, c, h) = (Inr (), s', c', h')"
    from connect_law[OF this k]
    have "s' = s" "known c' = insert k (known c)" "neutral_ext h h'" by auto
    then show "s' = s \<and> conn_spec (known c) [Connected k] = Some (known c') \<and>
        at_point e listen (Scanning fds) (s', c', h')"
      using inv known k fds srv_inv_cong[OF inv open_fds_neutral_ext] by (auto simp: in_sync_def)
  qed
  then show ?thesis by simp
qed

lemma thread_move_ok:
  assumes "posix_fds e" and at: "at_point e listen pc (s, c, h)" and listen: "srv_sockfd s = listen"
    and "\<not> halted pc"
  shows "move_ok e listen s c (thread_move e cb pc (s, c, h))"
proof (cases pc)
  case AtHead
  obtain fds h1 where sel: "select_ready e s h = (fds, h1)" by (metis surj_pair)
  have sync: "in_sync e (s, c, h)" using at AtHead by simp
  then have "srv_fds s = insert listen (handles s)" using listen by (auto simp: in_sync_def dest: srv_invD(4))
  then have "todo listen s fds" using select_ready_spec(1,2)[OF sel] by (simp add: todo_def)
  then show ?thesis using AtHead sel sync in_sync_ext[OF sync select_ready_spec(3)[OF sel]]
    by (auto intro!: move_ok_same_table)
next
  case (Scanning todos)
  show ?thesis
  proof (cases todos)
    case (Cons fd fds)
    have sync: "in_sync e (s, c, h)" and fds: "todo listen s (fd # fds)" using at Scanning Cons by auto
    have "at_point e listen (if fd \<in> handles s then ClientFound fd fds else AcceptFound fd fds) (s, c, h)"
      using sync fds todo_tl[OF fds] by (cases "fd \<in> handles s") (simp_all add: todo_def)
    then have "move_ok e listen s c ([], if fd \<in> handles s then ClientFound fd fds else AcceptFound fd fds, s, c, h)"
      by (rule move_ok_same_table) simp_all
    then show ?thesis using Scanning Cons by (simp add: map_of_handles)
  qed (use at Scanning in \<open>auto intro!: move_ok_same_table\<close>)
next
  case (ClientFound fd fds)
  obtain n data h1 where recv: "core_Recv e fd MAX_PACKET_SIZE h = ((n, data), h1)" by (metis surj_pair)
  have "in_sync e (s, c, h1)" using at ClientFound core_Recv_ok[OF recv] by (auto intro: in_sync_cong)
  then have "at_point e listen (Received fd n data fds) (s, c, h1)"
    using at ClientFound core_Recv_ok[OF recv] by simp
  then have "move_ok e listen s c ([], Received fd n data fds, s, c, h1)"
    by (rule move_ok_same_table) simp_all
  then show ?thesis using ClientFound recv by simp
qed (use assms Received_ok Erasing_ok Erased_ok AcceptFound_ok Accepted_ok Emplaced_ok Watched_ok
     in \<open>blast | simp\<close>)+

lemma finish_ok:
  "finish_joined e s h = (s', h') \<Longrightarrow> at_point e listen AllClosed (s', c, h')"
  by (auto simp: finish_joined_eq)

text \<open>Every step keeps the invariant; its notifications are steps of the protocol.\<close>

lemma system_step_ok:
  assumes posix: "posix_fds e" and ok: "system_ok e listen (pc, ps, s, c, h)"
    and step: "system_step e cb (pc, ps, s, c, h) a (pc', ps', s', c', h')"
  shows "system_ok e listen (pc', ps', s', c', h')"
    and "\<exists>live. conn_spec (known c) (events_of [a]) = Some live \<and> (\<not> failed pc' \<longrightarrow> live = known c')"
proof -
  have "system_ok e listen (pc', ps', s', c', h') \<and>
    (\<exists>live. conn_spec (known c) (events_of [a]) = Some live \<and> (\<not> failed pc' \<longrightarrow> live = known c'))"
    using step
  proof (cases rule: system_stepE [consumes 1, case_names by_thread by_broadcast by_lookup by_use by_dangling
        by_stop by_finish])
    case (by_thread evs s1 c1 h1 pc1)
    then have "pc \<noteq> AllClosed" "\<not> failed pc" by (auto elim: failed.elims)
    with ok have at: "at_point e listen pc (s, c, h)" "srv_sockfd s = listen" "pointers_ok s ps"
      by (auto simp: system_ok_def)
    from thread_move_ok[OF posix at(1,2)] by_thread
    have "move_ok e listen s c (evs, pc', s', c', h')" by auto
    then show ?thesis using by_thread at(2,3) by (auto simp: move_ok_def system_ok_def events_of_def)
  next
    case (by_broadcast msg)
    then show ?thesis using ok at_point_cong[of e listen pc s c h h']
        open_fds_neutral_ext[OF sendBcast_ext[of h e msg s]]
      by (auto simp: system_ok_def events_of_def)
  next
    case (by_lookup k msg)
    then show ?thesis using ok by (auto simp: system_ok_def events_of_def pointers_ok_def)
  next
    case (by_use i k msg client)
    then show ?thesis using ok at_point_cong[of e listen pc s c h h']
        open_fds_neutral_ext[OF client_sendMsg_ext[of h e msg client]] pointers_ok_drop
      by (auto simp: system_ok_def events_of_def)
  next
    case (by_dangling i k msg)
    then show ?thesis by (auto simp: system_ok_def events_of_def)
  next
    case by_stop
    then show ?thesis using ok at_point_stop[of e listen pc s c h]
      by (auto simp: system_ok_def events_of_def pointers_ok_def) (auto simp: request_stop_def)
  next
    case (by_finish s1 h1)
    then show ?thesis using finish_ok[of e s h s' h' listen c] pointers_ok_clear
      by (auto simp: system_ok_def events_of_def)
  qed
  then show "system_ok e listen (pc', ps', s', c', h')"
    and "\<exists>live. conn_spec (known c) (events_of [a]) = Some live \<and> (\<not> failed pc' \<longrightarrow> live = known c')"
    by blast+
qed

lemma step_not_failed: "system_step e cb (pc, ps, s, c, h) a x' \<Longrightarrow> \<not> failed pc"
  by (erule system_stepE) (auto elim: failed.elims)

lemma events_of_snoc: "events_of (as @ [a]) = events_of as @ events_of [a]"
  by (simp add: events_of_def)

lemma system_run_ok:
  assumes posix: "posix_fds e" and run: "system_run e cb (pc, ps, s, c, h) as (pc', ps', s', c', h')"
    and ok: "system_ok e listen (pc, ps, s, c, h)"
  shows "system_ok e listen (pc', ps', s', c', h') \<and>
    (\<exists>live. conn_spec (known c) (events_of as) = Some live \<and> (\<not> failed pc' \<longrightarrow> live = known c'))"
proof -
  let ?I = "\<lambda>(pc', ps', s', c', h') as. system_ok e listen (pc', ps', s', c', h') \<and>
    (\<exists>live. conn_spec (known c) (events_of as) = Some live \<and> (\<not> failed pc' \<longrightarrow> live = known c'))"
  have "?I (pc', ps', s', c', h') as"
  proof (rule system_run_invariant[OF run])
    show "?I (pc, ps, s, c, h) []" using ok by simp
    fix as pc1 ps1 s1 c1 h1 a z
    assume inv: "?I (pc1, ps1, s1, c1, h1) as" and step: "system_step e cb (pc1, ps1, s1, c1, h1) a z"
    obtain pc2 ps2 s2 c2 h2 where z: "z = (pc2, ps2, s2, c2, h2)" by (metis surj_pair)
    from inv step_not_failed[OF step]
    have "system_ok e listen (pc1, ps1, s1, c1, h1)" "conn_spec (known c) (events_of as) = Some (known c1)"
      by auto
    with system_step_ok[OF posix this(1) step[unfolded z]] show "?I z (as @ [a])"
      unfolding z events_of_snoc prod.case by (metis conn_spec_append)
  qed
  then show ?thesis by simp
qed

text \<open>The register, at every point, is what the thread has announced of the table.\<close>

lemma system_ok_register:
  assumes "system_ok e listen (pc, ps, s, c, h)" and "\<not> failed pc" and "pc \<noteq> AllClosed"
  shows "known c = announced pc (handles s) \<and> (\<forall>fd \<in> insert (srv_sockfd s) (handles s). fd \<in> open_fds e h) \<and>
     (\<forall>(k, msg, alive) \<in> set ps. alive \<longrightarrow> k \<in> handles s)"
proof -
  have at: "at_point e listen pc (s, c, h)" and ps: "pointers_ok s ps"
    using assms by (auto simp: system_ok_def)
  show ?thesis
  proof (cases pc)
    case (Emplaced k fds)
    with at obtain client clients where clients: "srv_clients s = (k, client) # clients" and
      fresh: "fresh_fd e s h k" and inv: "srv_inv e (s\<lparr>srv_clients := clients\<rparr>) h" and
      known: "known c = fst ` set clients" by (auto simp: in_sync_def)
    have "k \<notin> fst ` set clients" using srv_invD(4)[OF inv] fresh by (auto simp: fresh_fd_def)
    moreover have "fd \<in> open_fds e h" if "fd \<in> insert (srv_sockfd s) (handles s)" for fd
      using that srv_invD(4,5)[OF inv] fresh clients by (auto simp: fresh_fd_def)
    ultimately show ?thesis using Emplaced known clients ps by (auto simp: pointers_ok_def)
  qed (use assms at ps srv_invD(4,5)[of e s h] in \<open>auto simp: in_sync_def pointers_ok_def\<close>)
qed

text \<open>Which of the clients in the table are in the \<open>fd_set\<close>.\<close>

lemma system_ok_fd_set:
  assumes "system_ok e listen (pc, ps, s, c, h)" and "\<not> failed pc" and "pc \<noteq> AllClosed"
  shows "srv_fds s = insert (srv_sockfd s) (watched pc (handles s))"
proof -
  have at: "at_point e listen pc (s, c, h)" using assms by (auto simp: system_ok_def)
  show ?thesis
  proof (cases pc)
    case (Emplaced k fds)
    with at obtain client clients where clients: "srv_clients s = (k, client) # clients" and
      fresh: "fresh_fd e s h k" and inv: "srv_inv e (s\<lparr>srv_clients := clients\<rparr>) h" by (auto simp: in_sync_def)
    have "k \<notin> fst ` set clients" using srv_invD(4)[OF inv] fresh by (auto simp: fresh_fd_def)
    then show ?thesis using Emplaced clients srv_invD(4)[OF inv] by auto
  qed (use assms at srv_invD(4)[of e s h] in \<open>auto simp: in_sync_def\<close>)
qed

end

end
