(* ===== verification/ServerSafety.thy ===== *)
theory ServerSafety
  imports ServerThreads
begin

text \<open>
  Two promises of the interleaved server that need a little more of the callback recipient
  than the contract of \<open>ServerSpec\<close>: no call of the kernel is made on a descriptor that is not
  open, and a stop request ends the thread within a bounded number of its actions. And the
  steps of \<open>ServerSpec\<close>, which handle a whole descriptor at once, are runs of this system.
\<close>

section \<open>Descriptors are open when they are used\<close>

fun touches :: "call \<Rightarrow> int set" where
  "touches (SysSetSockOpt fd _ _) = {fd}"
| "touches (SysBind fd _) = {fd}"
| "touches (SysListen fd _) = {fd}"
| "touches (SysAccept fd) = {fd}"
| "touches (SysConnect fd _) = {fd}"
| "touches (SysClose fd) = {fd}"
| "touches (SysSelect _ fds) = fds"
| "touches (SysRecv fd _) = {fd}"
| "touches (SysSend fd _) = {fd}"
| "touches (SysSendTo fd _ _) = {fd}"
| "touches _ = {}"

fun fd_safe_rev :: "env \<Rightarrow> call list \<Rightarrow> bool" where
  "fd_safe_rev e [] = True"
| "fd_safe_rev e (c # cs) = (fd_safe_rev e cs \<and> touches c \<subseteq> open_fds_rev e cs)"

definition fd_safe :: "env \<Rightarrow> history \<Rightarrow> bool" where
  "fd_safe e h = fd_safe_rev e (rev h)"

lemma fd_safe_Nil [simp]: "fd_safe e []"
  by (simp add: fd_safe_def)

lemma fd_safe_snoc [simp]: "fd_safe e (h @ [c]) \<longleftrightarrow> fd_safe e h \<and> touches c \<subseteq> open_fds e h"
  by (simp add: fd_safe_def open_fds_def)

abbreviation fd_quiet :: "history \<Rightarrow> history \<Rightarrow> bool" where
  "fd_quiet \<equiv> ext_by (\<lambda>c. touches c = {})"

lemma fd_safe_quiet: "fd_quiet h h' \<Longrightarrow> fd_safe e h \<Longrightarrow> fd_safe e h'"
proof -
  have "fd_safe e h \<Longrightarrow> list_all (\<lambda>c. touches c = {}) cs \<Longrightarrow> fd_safe e (h @ cs)" for cs
  proof (induction cs rule: rev_induct)
    case (snoc c cs)
    then show ?case using fd_safe_snoc[of e "h @ cs" c] by simp
  qed simp
  then show "fd_quiet h h' \<Longrightarrow> fd_safe e h \<Longrightarrow> fd_safe e h'" by (auto simp: ext_by_def)
qed

lemma fd_safe_uses:
  "fd_safe e h \<Longrightarrow> fd \<in> open_fds e h \<Longrightarrow> list_all (\<lambda>c. fd_neutral c \<and> touches c \<subseteq> {fd}) cs \<Longrightarrow>
     fd_safe e (h @ cs)"
proof (induction cs rule: rev_induct)
  case (snoc c cs)
  then have "open_fds e (h @ cs) = open_fds e h" by (intro open_fds_append_neutral) (auto simp: list_all_iff)
  then show ?case using snoc fd_safe_snoc[of e "h @ cs" c] by auto
qed simp

lemma fd_safe_closes:
  "fd_safe e h \<Longrightarrow> distinct fds \<Longrightarrow> set fds \<subseteq> open_fds e h \<Longrightarrow> fd_safe e (h @ map SysClose fds)"
proof (induction fds arbitrary: h)
  case (Cons fd fds)
  have "fd_safe e ((h @ [SysClose fd]) @ map SysClose fds)"
    using Cons.prems by (intro Cons.IH) auto
  then show ?case by simp
qed simp

lemma fd_safe_send:
  "fd_safe e h \<Longrightarrow> c_sockfd client \<in> open_fds e h \<Longrightarrow> fd_safe e (snd (client_sendMsg e msg client h))"
  by (simp add: client_sendMsg_def core_simps Let_def)

lemma fd_safe_broadcast:
  assumes "fd_safe e h" and "\<forall>(k, client) \<in> set (srv_clients s). c_sockfd client \<in> open_fds e h"
  shows "fd_safe e (snd (sendBcast e msg s h))"
proof -
  have "fd_safe e (snd (sendBcast_loop e msg clients ret h))"
    if "fd_safe e h" "\<forall>(k, client) \<in> set clients. c_sockfd client \<in> open_fds e h" for clients ret
    using that
  proof (induction e msg clients ret h rule: sendBcast_loop.induct)
    case (2 e msg k client clients ret h)
    obtain r h1 where send: "client_sendMsg e msg client h = (r, h1)" by (metis surj_pair)
    have "fd_safe e h1" "open_fds e h1 = open_fds e h"
      using fd_safe_send[of e h client msg] client_sendMsg_neutral[of e msg client h] 2(2,3) send by auto
    then show ?case using 2(1)[OF send[symmetric] refl] 2(3) send by (simp add: Let_def)
  qed simp
  then show ?thesis using assms by (simp add: sendBcast_def)
qed

text \<open>A recipient whose notifications, however they end, use no descriptor themselves.\<close>

locale quiet_listener = connection_listener +
  assumes connect_quiet: "onClientConnect cb fd (s, c, h) = (r, s', c', h') \<Longrightarrow> fd_quiet h h'"
    and data_quiet: "onReceiveClientData cb fd data (s, c, h) = (r, s', c', h') \<Longrightarrow> fd_quiet h h'"
    and disconnect_quiet: "onClientDisconnect cb fd ret (s, c, h) = (r, s', c', h') \<Longrightarrow> fd_quiet h h'"
begin

lemma notified_safe:
  assumes "\<And>q s' c' h'. r = (q, s', c', h') \<Longrightarrow> fd_quiet h h'" and "fd_safe e h"
    and "notified ev pc r = (evs, pc', s', c', h')"
  shows "fd_safe e h'"
proof -
  obtain q s1 c1 h1 where r: "r = (q, s1, c1, h1)" by (metis surj_pair)
  show ?thesis using assms r fd_safe_quiet by (cases q) (auto simp: notified_def)
qed

text \<open>While the process has not failed, each client is filed under its own open descriptor.\<close>

lemma system_ok_clients:
  assumes "system_ok e listen (pc, ps, s, c, h)" and "\<not> failed pc"
  shows "\<forall>(k, client) \<in> set (srv_clients s). c_sockfd client = k \<and> c_sockfd client \<in> open_fds e h"
proof (cases "pc = AllClosed")
  case False
  have at: "at_point e listen pc (s, c, h)" using assms(1) by (simp add: system_ok_def)
  have filed: "\<forall>(k, client) \<in> set (srv_clients s). c_sockfd client = k"
  proof (cases pc)
    case (Emplaced k fds)
    with at show ?thesis by (auto simp: in_sync_def srv_inv_def)
  qed (use at assms(2) False in \<open>auto simp: in_sync_def srv_inv_def\<close>)
  then show ?thesis using system_ok_register[OF assms False] by force
qed (use assms in \<open>simp add: system_ok_def\<close>)

lemma system_ok_client_open:
  assumes "system_ok e listen (pc, ps, s, c, h)" and "\<not> failed pc" and "map_of (srv_clients s) k = Some client"
  shows "c_sockfd client \<in> open_fds e h"
  using bspec[OF system_ok_clients[OF assms(1,2)] map_of_SomeD[OF assms(3)]] by auto

lemma thread_move_safe:
  assumes ok: "system_ok e listen (pc, ps, s, c, h)" and "\<not> halted pc" and safe: "fd_safe e h"
    and move: "thread_move e cb pc (s, c, h) = (evs, pc', s', c', h')"
  shows "fd_safe e h'"
proof -
  have at: "at_point e listen pc (s, c, h)" and listen: "srv_sockfd s = listen"
    using ok assms(2) by (auto simp: system_ok_def elim: failed.elims)
  show ?thesis
  proof (cases pc)
    case AtHead
    then have "srv_fds s \<subseteq> open_fds e h" using at srv_invD(5)[of e s h] by (auto simp: in_sync_def)
    then show ?thesis using move AtHead safe
      by (auto simp: select_ready_def core_simps Let_def split: if_splits)
  next
    case (Scanning fds)
    then show ?thesis using move safe by (cases fds) auto
  next
    case (ClientFound fd fds)
    then have "fd \<in> open_fds e h" using at srv_invD(4,5)[of e s h] by (auto simp: in_sync_def)
    then show ?thesis using move ClientFound safe by (auto simp: core_simps split: option.splits)
  next
    case (Received fd n data fds)
    then show ?thesis using move safe
      by (auto split: if_splits intro: notified_safe[OF data_quiet])
  next
    case (Erasing fd fds)
    then have inv: "srv_inv e s h" and fd: "fd \<in> handles s" using at by (auto simp: in_sync_def)
    then have "fd \<in> open_fds e h" using srv_invD(4,5)[OF inv] by blast
    then show ?thesis using move Erasing safe deleteClient_inv[OF inv fd] by auto
  next
    case (Erased fd fds)
    then show ?thesis using move safe
      by (auto simp: publishDisconnected_def intro: notified_safe[OF disconnect_quiet])
  next
    case (AcceptFound fd fds)
    then have "fd \<in> open_fds e h" using at listen srv_invD(4,5)[of e s h] by (auto simp: in_sync_def)
    then show ?thesis using move AcceptFound safe by (auto simp: core_simps split: if_splits)
  next
    case (Accepted k fds)
    then show ?thesis using move safe by (auto simp: Let_def)
  next
    case (Emplaced k fds)
    then show ?thesis using move safe by (auto split: sum.splits)
  next
    case (Watched k fds)
    then show ?thesis using move safe by (auto intro: notified_safe[OF connect_quiet])
  qed (use assms(2) in auto)
qed

lemma system_step_safe:
  assumes ok: "system_ok e listen (pc, ps, s, c, h)" and safe: "fd_safe e h"
    and step: "system_step e cb (pc, ps, s, c, h) a (pc', ps', s', c', h')"
  shows "fd_safe e h'"
  using step
proof (cases rule: system_stepE [consumes 1, case_names by_thread by_broadcast by_lookup by_use by_dangling
      by_stop by_finish])
  case by_thread
  then show ?thesis using thread_move_safe[OF ok _ safe] by auto
next
  case (by_broadcast msg)
  have "\<forall>(k, client) \<in> set (srv_clients s). c_sockfd client \<in> open_fds e h"
    using system_ok_clients[OF ok] by_broadcast by auto
  from fd_safe_broadcast[OF safe this] show ?thesis using by_broadcast by simp
next
  case (by_use i k msg client)
  then show ?thesis using fd_safe_send[OF safe] system_ok_client_open[OF ok] by simp
next
  case (by_finish s1 h1)
  then have inv: "srv_inv e s h" using ok by (auto simp: system_ok_def in_sync_def)
  have keys: "map (\<lambda>(k, c). SysClose (c_sockfd c)) (srv_clients s) = map SysClose (map fst (srv_clients s))"
    using inv by (auto simp: srv_inv_def)
  have "distinct (map fst (srv_clients s) @ [srv_sockfd s])"
    using srv_invD(1,3)[OF inv] by auto
  moreover have "set (map fst (srv_clients s) @ [srv_sockfd s]) \<subseteq> open_fds e h"
    using srv_invD(4,5)[OF inv] by auto
  ultimately have all: "fd_safe e (h @ map SysClose (map fst (srv_clients s) @ [srv_sockfd s]))"
    by (rule fd_safe_closes[OF safe])
  have "srv_sockfd s \<noteq> INVALID_SOCKET"
    using srv_invD(4,5)[OF inv] by (force simp: INVALID_SOCKET_def)
  then have "h' = h @ map SysClose (map fst (srv_clients s) @ [srv_sockfd s])"
    using by_finish keys by (auto simp: finish_joined_eq)
  with all show ?thesis by (simp only:)
qed (use safe in auto)

lemma accepted_on_quiet: "fd_quiet h h' \<Longrightarrow> accepted_on h' = accepted_on h"
  by (fastforce simp: ext_by_def accepted_on_def list_all_iff)

lemma notified_accepts:
  assumes "\<And>q s' c' h'. r = (q, s', c', h') \<Longrightarrow> fd_quiet h h'" and "notified ev pc r = (evs, pc', s', c', h')"
  shows "accepted_on h' = accepted_on h"
proof -
  obtain q s1 c1 h1 where r: "r = (q, s1, c1, h1)" by (metis surj_pair)
  show ?thesis using assms r accepted_on_quiet by (cases q) (auto simp: notified_def)
qed

lemma thread_move_accepts:
  assumes ok: "system_ok e listen (pc, ps, s, c, h)" and "\<not> halted pc"
    and move: "thread_move e cb pc (s, c, h) = (evs, pc', s', c', h')"
  shows "accepted_on h' \<subseteq> insert listen (accepted_on h)"
proof -
  have at: "at_point e listen pc (s, c, h)" using ok by (simp add: system_ok_def)
  show ?thesis
  proof (cases pc)
    case AtHead
    then show ?thesis using move
      by (auto simp: select_ready_def core_simps Let_def accepted_on_def split: if_splits)
  next
    case (Scanning fds)
    then show ?thesis using move by (cases fds) auto
  next
    case (ClientFound fd fds)
    then show ?thesis using move by (auto simp: core_simps accepted_on_def split: option.splits)
  next
    case (Received fd n data fds)
    then show ?thesis using move by (auto split: if_splits dest: notified_accepts[OF data_quiet, rotated])
  next
    case (Erasing fd fds)
    then have "srv_inv e s h" "fd \<in> handles s" using at by (auto simp: in_sync_def)
    then show ?thesis using move Erasing deleteClient_inv[of e s h fd] by (auto simp: accepted_on_def)
  next
    case (Erased fd fds)
    then show ?thesis using move
      by (auto simp: publishDisconnected_def dest: notified_accepts[OF disconnect_quiet, rotated])
  next
    case (AcceptFound fd fds)
    then show ?thesis using move at by (auto simp: core_simps accepted_on_def split: if_splits)
  next
    case (Accepted k fds)
    then show ?thesis using move by (auto simp: Let_def)
  next
    case (Emplaced k fds)
    then show ?thesis using move by (auto split: sum.splits)
  next
    case (Watched k fds)
    then show ?thesis using move by (auto dest: notified_accepts[OF connect_quiet, rotated])
  qed (use assms(2) in auto)
qed

lemma system_step_accepts:
  assumes ok: "system_ok e listen (pc, ps, s, c, h)"
    and step: "system_step e cb (pc, ps, s, c, h) a (pc', ps', s', c', h')"
  shows "accepted_on h' \<subseteq> insert listen (accepted_on h)"
  using step
proof (cases rule: system_stepE [consumes 1, case_names by_thread by_broadcast by_lookup by_use by_dangling
      by_stop by_finish])
  case by_thread
  then show ?thesis using thread_move_accepts[OF ok] by blast
next
  case (by_broadcast msg)
  then show ?thesis using accepted_on_neutral[OF sendBcast_ext[of h e msg s]] by auto
next
  case (by_use i k msg client)
  then show ?thesis using accepted_on_neutral[OF client_sendMsg_ext[of h e msg client]] by auto
next
  case (by_finish s1 h1)
  then show ?thesis by (auto simp: finish_joined_eq accepted_on_def)
qed auto

lemma system_run_safe:
  assumes "posix_fds e" and run: "system_run e cb (pc, ps, s, c, h) as (pc', ps', s', c', h')"
    and "system_ok e listen (pc, ps, s, c, h)" and "fd_safe e h"
  shows "fd_safe e h' \<and> accepted_on h' \<subseteq> insert listen (accepted_on h)"
proof -
  let ?I = "\<lambda>(pc', ps', s', c', h') (as :: action list).
    system_ok e listen (pc', ps', s', c', h') \<and> fd_safe e h' \<and> accepted_on h' \<subseteq> insert listen (accepted_on h)"
  have "?I (pc', ps', s', c', h') as"
  proof (rule system_run_invariant[OF run])
    show "?I (pc, ps, s, c, h) []" using assms by auto
    fix as pc1 ps1 s1 c1 h1 a z
    assume inv: "?I (pc1, ps1, s1, c1, h1) as" and step: "system_step e cb (pc1, ps1, s1, c1, h1) a z"
    obtain pc2 ps2 s2 c2 h2 where z: "z = (pc2, ps2, s2, c2, h2)" by (metis surj_pair)
    from inv have ok: "system_ok e listen (pc1, ps1, s1, c1, h1)" and safe: "fd_safe e h1" by auto
    from system_step_ok(1)[OF assms(1) ok step[unfolded z]] system_step_safe[OF ok safe step[unfolded z]]
      system_step_accepts[OF ok step[unfolded z]] inv
    show "?I z (as @ [a])" unfolding z by auto
  qed
  then show ?thesis by simp
qed

end
section \<open>A stop request ends the thread\<close>

text \<open>How many actions the thread has left at most once \<open>m_stop\<close> is set.\<close>

fun rank :: "pc \<Rightarrow> nat" where
  "rank AtHead = 1"
| "rank (Scanning fds) = 2 + 5 * length fds"
| "rank (ClientFound _ fds) = 6 + 5 * length fds"
| "rank (Received _ _ _ fds) = 5 + 5 * length fds"
| "rank (Erasing _ fds) = 4 + 5 * length fds"
| "rank (Erased _ fds) = 3 + 5 * length fds"
| "rank (AcceptFound _ fds) = 6 + 5 * length fds"
| "rank (Accepted _ fds) = 5 + 5 * length fds"
| "rank (Emplaced _ fds) = 4 + 5 * length fds"
| "rank (Watched _ fds) = 3 + 5 * length fds"
| "rank _ = 0"

lemma notified_rank: "notified ev pc r = (evs, pc', st') \<Longrightarrow> rank pc' \<le> rank pc"
  by (auto simp: notified_def split: prod.splits sum.splits)

lemma thread_move_rank:
  assumes "thread_move e cb pc (s, c, h) = (evs, pc', st')" and "\<not> halted pc" and "srv_stop s"
  shows "rank pc' < rank pc"
proof (cases pc)
  case (Scanning fds)
  then show ?thesis using assms by (cases fds) auto
next
  case (Erasing fd fds)
  then show ?thesis using assms by (auto split: prod.splits sum.splits)
qed (use assms in \<open>auto simp: Let_def split: if_splits prod.splits sum.splits dest!: notified_rank\<close>)

context connection_listener
begin

lemma thread_move_stop:
  assumes ok: "system_ok e listen (pc, ps, s, c, h)" and "\<not> halted pc" and stop: "srv_stop s"
    and move: "thread_move e cb pc (s, c, h) = (evs, pc', s', c', h')" and "\<not> failed pc'"
  shows "srv_stop s'"
proof (cases pc)
  case (Scanning fds)
  then show ?thesis using move stop by (cases fds) auto
next
  case (Received fd n data fds)
  then show ?thesis using move stop assms(5)
    by (auto simp: notified_def split: if_splits prod.splits sum.splits dest!: data_law)
next
  case (Erasing fd fds)
  then have inv: "srv_inv e s h" and fd: "fd \<in> handles s" using ok by (auto simp: system_ok_def in_sync_def)
  from deleteClient_inv[OF inv fd] show ?thesis using move Erasing stop by auto
next
  case (Erased fd fds)
  then show ?thesis using move stop assms(5)
    by (auto simp: publishDisconnected_def notified_def split: prod.splits sum.splits dest!: disconnect_law)
next
  case (Watched k fds)
  then have "k \<in> handles s" using ok by (auto simp: system_ok_def)
  then show ?thesis using move stop assms(5) Watched
    by (auto simp: notified_def split: prod.splits sum.splits dest!: connect_law)
qed (use move stop in \<open>auto simp: Let_def split: if_splits prod.splits sum.splits\<close>)

lemma system_step_stop:
  assumes ok: "system_ok e listen (pc, ps, s, c, h)" and stop: "srv_stop s"
    and step: "system_step e cb (pc, ps, s, c, h) a (pc', ps', s', c', h')"
  shows "moves_of [a] + rank pc' \<le> rank pc \<and> (\<not> failed pc' \<longrightarrow> srv_stop s')"
  using step
proof (cases rule: system_stepE [consumes 1, case_names by_thread by_broadcast by_lookup by_use by_dangling
      by_stop by_finish])
  case (by_thread evs s1 c1 h1 pc1)
  then show ?thesis
    using thread_move_stop[OF ok _ stop] thread_move_rank[of e cb pc s c h] stop by (auto simp: moves_of_def)
qed (use stop in \<open>auto simp: moves_of_def request_stop_def finish_joined_eq\<close>)

lemma system_run_stop:
  assumes posix: "posix_fds e" and ok: "system_ok e listen (pc, ps, s, c, h)" and stop: "srv_stop s"
    and run: "system_run e cb (pc, ps, s, c, h) as (pc', ps', s', c', h')"
  shows "moves_of as + rank pc' \<le> rank pc"
proof -
  let ?I = "\<lambda>(pc', ps', s', c', h') as. system_ok e listen (pc', ps', s', c', h') \<and>
    moves_of as + rank pc' \<le> rank pc \<and> (\<not> failed pc' \<longrightarrow> srv_stop s')"
  have "?I (pc', ps', s', c', h') as"
  proof (rule system_run_invariant[OF run])
    show "?I (pc, ps, s, c, h) []" using ok stop by simp
    fix as pc1 ps1 s1 c1 h1 a z
    assume inv: "?I (pc1, ps1, s1, c1, h1) as" and step: "system_step e cb (pc1, ps1, s1, c1, h1) a z"
    obtain pc2 ps2 s2 c2 h2 where z: "z = (pc2, ps2, s2, c2, h2)" by (metis surj_pair)
    from inv step_not_failed[OF step] have ok: "system_ok e listen (pc1, ps1, s1, c1, h1)" and "srv_stop s1"
      and left: "moves_of as + rank pc1 \<le> rank pc" by auto
    moreover have "moves_of (as @ [a]) = moves_of as + moves_of [a]" by (simp add: moves_of_def)
    ultimately show "?I z (as @ [a])"
      using system_step_ok(1)[OF posix ok step[unfolded z]] system_step_stop[OF ok _ step[unfolded z]]
      unfolding z by simp
  qed
  then show ?thesis by simp
qed

text \<open>Left alone, the thread halts within as many actions.\<close>

lemma thread_run_halts:
  assumes posix: "posix_fds e" and "system_ok e listen (pc, ps, s, c, h)" and "srv_stop s" and "rank pc \<le> n"
  shows "\<exists>pc' st'. thread_run n e cb (pc, s, c, h) = (pc', st') \<and> halted pc'"
  using assms(2-4)
proof (induction n arbitrary: pc ps s c h)
  case 0
  then show ?case by (cases pc) auto
next
  case (Suc n)
  show ?case
  proof (cases "halted pc")
    case False
    obtain evs pc1 s1 c1 h1 where move: "thread_move e cb pc (s, c, h) = (evs, pc1, s1, c1, h1)"
      by (metis surj_pair)
    note step = by_thread[OF False move, of ps]
    note kept = system_step_ok(1)[OF posix Suc.prems(1) step] system_step_stop[OF Suc.prems(1,2) step]
    show ?thesis
    proof (cases "failed pc1")
      case True
      then have "halted pc1" by (auto elim: failed.elims)
      then show ?thesis using move by simp
    next
      case False
      then have "\<exists>pc' st'. thread_run n e cb (pc1, s1, c1, h1) = (pc', st') \<and> halted pc'"
        using kept Suc.prems(3) by (intro Suc.IH) (auto simp: moves_of_def)
      then show ?thesis using move by simp
    qed
  qed simp
qed

lemma rank_bound:
  assumes "system_ok e listen (pc, ps, s, c, h)"
  shows "rank pc \<le> 5 * length (srv_clients s) + 11"
proof -
  have todo: "length fds \<le> length (srv_clients s) + 1" if "todo listen s fds" for fds
  proof -
    have "length fds = card (set fds)" using that by (simp add: todo_def distinct_card)
    also have "\<dots> \<le> card (insert listen (handles s))" using that by (intro card_mono) (auto simp: todo_def)
    also have "\<dots> \<le> Suc (card (handles s))" by (rule card_insert_le_m1) simp_all
    also have "card (handles s) \<le> length (srv_clients s)"
      using card_length[of "map fst (srv_clients s)"] by simp
    finally show ?thesis by simp
  qed
  have at: "at_point e listen pc (s, c, h)" using assms by (simp add: system_ok_def)
  show ?thesis
  proof (cases pc)
    case (ClientFound fd fds)
    then show ?thesis using at todo[of "fd # fds"] by simp
  next
    case (Received fd n data fds)
    then show ?thesis using at todo[of "fd # fds"] by simp
  next
    case (Erasing fd fds)
    then show ?thesis using at todo[of "fd # fds"] by simp
  next
    case (Scanning fds)
    then show ?thesis using at todo[of fds] by simp
  next
    case (Erased fd fds)
    then show ?thesis using at todo[of fds] by simp
  next
    case (AcceptFound fd fds)
    then show ?thesis using at todo[of fds] by simp
  next
    case (Accepted k fds)
    then show ?thesis using at todo[of fds] by simp
  next
    case (Emplaced k fds)
    then have "todo listen s fds" using at by simp
    from todo[OF this] show ?thesis using Emplaced by simp
  next
    case (Watched k fds)
    then show ?thesis using at todo[of fds] by simp
  qed simp_all
qed

end
section \<open>The steps of \<open>ServerSpec\<close> are runs of the system\<close>

lemma system_run_append:
  "system_run e cb y bs z \<Longrightarrow> system_run e cb x as y \<Longrightarrow> system_run e cb x (as @ bs) z"
proof (induction rule: system_run.induct)
  case (run_more y bs w a z)
  then have "system_run e cb x ((as @ bs) @ [a]) z" by (blast intro: system_run.run_more)
  then show ?case by simp
qed simp

lemma thread_run_system:
  "thread_run n e cb (pc, st) = (pc', st') \<Longrightarrow> \<exists>as. system_run e cb (pc, [], st) as (pc', [], st')"
proof (induction n arbitrary: pc st)
  case 0
  then show ?case by (auto intro: run_none)
next
  case (Suc n)
  show ?case
  proof (cases "halted pc")
    case True
    with Suc.prems show ?thesis by (auto intro: run_none)
  next
    case False
    obtain s c h where st: "st = (s, c, h)" by (cases st)
    obtain evs pc1 s1 c1 h1 where move: "thread_move e cb pc (s, c, h) = (evs, pc1, s1, c1, h1)"
      by (metis surj_pair)
    then obtain as where "system_run e cb (pc1, [], s1, c1, h1) as (pc', [], st')"
      using Suc.IH Suc.prems st by fastforce
    moreover have "after_move pc1 [] = []" by (cases pc1) (simp_all add: erase_node_def)
    then have "system_step e cb (pc, [], s, c, h) (Thread evs) (pc1, [], s1, c1, h1)"
      using by_thread[OF False move, of "[]"] by simp
    ultimately show ?thesis unfolding st by (blast intro: system_run_cons)
  qed
qed

fun point_of :: "task \<Rightarrow> pc" where
  "point_of Looping = AtHead"
| "point_of (Handling fds) = Scanning fds"
| "point_of Exited = Gone"
| "point_of Joined = AllClosed"

lemma one_step_run: "system_step e cb x a y \<Longrightarrow> \<exists>as. system_run e cb x as y"
  using run_more[OF run_none] by blast

lemma not_failed_point [simp]: "\<not> failed (point_of t)"
  by (cases t) simp_all

lemma server_step_run:
  assumes "server_step e cb (t, s, c, h) (t', s', c', h')"
  shows "\<exists>as. system_run e cb (point_of t, [], s, c, h) as (point_of t', [], s', c', h')"
  using assms
proof (cases rule: server_stepE [consumes 1, case_names step_exit step_select step_handle step_done
      step_bcast step_send step_stop step_finish])
  case step_exit
  then show ?thesis using thread_run_system[of 1 e cb AtHead "(s, c, h)"] by auto
next
  case (step_select fds h1)
  then show ?thesis using thread_run_system[of 1 e cb AtHead "(s, c, h)"] by auto
next
  case (step_handle fd s1 c1 h1 fds)
  then show ?thesis
    using handle_fd_run[of e cb fd fds "(s, c, h)"] thread_run_system[of _ e cb "Scanning (fd # fds)" "(s, c, h)"]
    by (auto simp: ended_def)
next
  case step_done
  then show ?thesis using thread_run_system[of 1 e cb "Scanning []" "(s, c, h)"] by auto
next
  case (step_bcast msg)
  then show ?thesis using one_step_run[OF by_broadcast[of "point_of t" e cb "[]" s c h msg]] by auto
next
  case (step_send k msg)
  show ?thesis
  proof (cases "map_of (srv_clients s) k")
    case None
    then show ?thesis using step_send by (auto simp: sendClientMessage_def intro: run_none)
  next
    case (Some client)
    then have "k \<in> handles s" using map_of_handles[of s k] by auto
    then have "system_step e cb (point_of t, [], s, c, h) (Lookup k msg) (point_of t, [] @ [(k, msg, True)], s, c, h)"
      by (intro by_lookup) simp_all
    moreover have "system_step e cb (point_of t, [(k, msg, True)], s, c, h) (Use 0)
        (point_of t, take 0 [(k, msg, True)] @ drop (Suc 0) [(k, msg, True)], s, c, snd (client_sendMsg e msg client h))"
      using Some by (intro by_use) simp_all
    ultimately show ?thesis
      using system_run_cons[OF _ system_run_cons[OF _ run_none]] step_send Some
      by (fastforce simp: sendClientMessage_def)
  qed
next
  case step_stop
  then show ?thesis using one_step_run[OF by_stop[of "point_of t" e cb "[]" s c h]] by auto
next
  case (step_finish s1 h1)
  then show ?thesis using one_step_run[OF by_finish[of e s h s' h' cb "[]" c]] by (auto simp: clear_nodes_def)
qed

lemma server_steps_run:
  assumes "server_steps e cb (t, s, c, h) (t', s', c', h')"
  shows "\<exists>as. system_run e cb (point_of t, [], s, c, h) as (point_of t', [], s', c', h')"
proof -
  have "case y of (t', s', c', h') \<Rightarrow> \<exists>as. system_run e cb (point_of t, [], s, c, h) as (point_of t', [], s', c', h')"
    if "server_steps e cb (t, s, c, h) y" for y
    using that
  proof (induction rule: rtranclp_induct)
    case base
    then show ?case by (auto intro: run_none)
  next
    case (step y z)
    obtain t1 s1 c1 h1 where y: "y = (t1, s1, c1, h1)" by (cases y)
    obtain t2 s2 c2 h2 where z: "z = (t2, s2, c2, h2)" by (cases z)
    show ?case using step(3) server_step_run[OF step(2)[unfolded y z]] system_run_append
      unfolding y z prod.case by blast
  qed
  from this[OF assms] show ?thesis by simp
qed

end
