(* ===== verification/NetStack.thy ===== *)
theory NetStack
  imports ConvStack ServerSafety
begin

text \<open>
  \<open>net-stack/NetStack.h\<close> and \<open>net-stack/NetStack.cpp\<close>: the bridge between TCP clients and
  topics. The \<open>m_server\<close> member is kept beside the rest of the object, because the server's
  thread and the object's handlers act on it from both sides.
\<close>

record NetStack =
  ns_base :: ZmqStack
  ns_pubTopics :: "string list"
  ns_clients :: "int set"
  ns_listenPort :: "16 word"
  ns_udpTx :: nat
  ns_udpRx :: nat

text \<open>The constructor: the base, the counters, then the server, whose failure is only logged.\<close>

definition NetStack_new ::
  "env \<Rightarrow> nat \<Rightarrow> string \<Rightarrow> string list \<Rightarrow> string \<Rightarrow> string list \<Rightarrow> string list \<Rightarrow> 16 word \<Rightarrow> history
     \<Rightarrow> unit outcome \<times> TcpServer \<times> NetStack \<times> history" where
  "NetStack_new e sock name pubEndpoints subEndpoint subTopics pubTopics listenPort h =
     (let (base, h) = ZmqStack_new e sock name pubEndpoints subEndpoint [] [] subTopics h;
          n = \<lparr>ns_base = base, ns_pubTopics = pubTopics, ns_clients = {}, ns_listenPort = listenPort,
               ns_udpTx = 0, ns_udpRx = 0\<rparr>
      in (case start e listenPort (TcpServer_init None) h of
            (Inl err, s, h) \<Rightarrow> (Inl err, s, n, h)
          | (Inr ret, s, h) \<Rightarrow>
              (Inr (), s, n,
               if m_success ret then log_info (''Listening on 0.0.0.0:'' @ show_nat (unat listenPort)) h
               else log_error (''Error setting up UDP socket: '' @ m_msg ret) h)))"

text \<open>The destructor, and that of its base.\<close>

definition NetStack_delete :: "env \<Rightarrow> NetStack srv_state \<Rightarrow> NetStack srv_state" where
  "NetStack_delete e st =
     (case st of (s, n, h) \<Rightarrow>
      let (s, h) = finish e s h;
          n = n\<lparr>ns_clients := {}\<rparr>;
          (s, h) = TcpServer_delete e s h;
          (base, h) = ZmqStack_delete (ns_base n, h)
      in (s, n\<lparr>ns_base := base\<rparr>, h))"

text \<open>Messages from the subscriber go to every TCP client; a message of one part is not expected.\<close>

definition NetStack_onReceivedMessage ::
  "env \<Rightarrow> string list \<Rightarrow> (TcpServer \<times> NetStack) \<times> history
     \<Rightarrow> unit outcome \<times> (TcpServer \<times> NetStack) \<times> history" where
  "NetStack_onReceivedMessage e msgs st =
     (case st of ((s, n), h) \<Rightarrow>
      (case msgs of
         m0 # m1 # _ \<Rightarrow>
           let h = log_info (''Received message '' @ m1 @ '' on topic '' @ m0) h;
               (ret, h) = sendBcast e m1 s h
           in (Inr (), (s, n\<lparr>ns_udpTx := ns_udpTx n + 1\<rparr>), h)
       | _ \<Rightarrow> (Inl (Undefined ''msgs[1] of a shorter vector''), (s, n), h)))"

definition NetStack_onCtrlMessage ::
  "string list \<Rightarrow> (TcpServer \<times> NetStack) \<times> history
     \<Rightarrow> unit outcome \<times> (TcpServer \<times> NetStack) \<times> history" where
  "NetStack_onCtrlMessage msgs st =
     (case st of (sn, h) \<Rightarrow>
      (case msgs of
         m0 # m1 # _ \<Rightarrow> (Inr (), sn, log_info (''Received ctrl message '' @ m1 @ '' on topic '' @ m0) h)
       | _ \<Rightarrow> (Inl (Undefined ''msgs[1] of a shorter vector''), sn, h)))"

text \<open>The server's notifications. The log line of the first names \<open>m_pubTopics[0]\<close>.\<close>

definition NetStack_onReceiveClientData ::
  "env \<Rightarrow> int \<Rightarrow> string \<Rightarrow> NetStack srv_state \<Rightarrow> unit outcome \<times> NetStack srv_state" where
  "NetStack_onReceiveClientData e client msg st =
     (case st of (s, n, h) \<Rightarrow>
      (case ns_pubTopics n of
         [] \<Rightarrow> (Inl (Undefined ''m_pubTopics[0] of an empty vector''), s, n, h)
       | topic0 # _ \<Rightarrow>
           let h = log_info (''Received message '' @ msg @ '' from client '' @ show_int client @
                     '', publishing to topic '' @ topic0) h
           in (case ZmqStack_Publish_all e (ns_pubTopics n) msg (ns_base n, h) of
                 (Inl err, z, h) \<Rightarrow> (Inl err, s, n\<lparr>ns_base := z\<rparr>, h)
               | (Inr _, z, h) \<Rightarrow> (Inr (), s, n\<lparr>ns_base := z, ns_udpRx := ns_udpRx n + 1\<rparr>, h))))"

definition NetStack_onClientConnect ::
  "int \<Rightarrow> NetStack srv_state \<Rightarrow> unit outcome \<times> NetStack srv_state" where
  "NetStack_onClientConnect client st =
     (case st of (s, n, h) \<Rightarrow>
      (case getClientInfo client s of
         None \<Rightarrow> (Inr (), s, n, h)
       | Some (ipAddr, port, connected) \<Rightarrow>
           (Inr (), s, n\<lparr>ns_clients := insert client (ns_clients n)\<rparr>,
            log_info (''Client '' @ show_int client @ '' connected from '' @ ipAddr @ '':'' @
              show_nat (unat port)) h)))"

definition NetStack_onClientDisconnect ::
  "int \<Rightarrow> SocketRet \<Rightarrow> NetStack srv_state \<Rightarrow> unit outcome \<times> NetStack srv_state" where
  "NetStack_onClientDisconnect client ret st =
     (case st of (s, n, h) \<Rightarrow>
      (Inr (), s, n\<lparr>ns_clients := ns_clients n - {client}\<rparr>,
       log_info (''Client '' @ show_int client @ '' disconnect '' @ m_msg ret) h))"

definition NetStack_Health :: "32 word \<times> NetStack \<Rightarrow> int \<times> 32 word \<times> NetStack" where
  "NetStack_Health sn =
     (case sn of (lastCount, n) \<Rightarrow>
      let (health, lastCount, z) = ZmqStack_Health (lastCount, ns_base n)
      in (health, lastCount, n\<lparr>ns_base := z\<rparr>))"

interpretation net_health: health_service NetStack_Health "\<lambda>(l, n). progressed (l, ns_base n)"
  by unfold_locales
     (auto simp: NetStack_Health_def ZmqStack_Health_def progressed_def Subscriber_Count_def Let_def)

definition NetStack_target :: "env \<Rightarrow> (TcpServer \<times> NetStack) target" where
  "NetStack_target e =
     \<lparr>onReceivedMessage = NetStack_onReceivedMessage e, onCtrlMessage = NetStack_onCtrlMessage\<rparr>"

interpretation net_target: message_target "NetStack_target e" for e
  by unfold_locales
     (auto simp: NetStack_target_def NetStack_onReceivedMessage_def NetStack_onCtrlMessage_def Let_def
       split: list.splits prod.splits)

definition NetStack_callbacks :: "env \<Rightarrow> NetStack callbacks" where
  "NetStack_callbacks e =
     \<lparr>onClientConnect = NetStack_onClientConnect,
      onReceiveClientData = NetStack_onReceiveClientData e,
      onClientDisconnect = NetStack_onClientDisconnect\<rparr>"

section \<open>NetStack keeps the contract of the server's callbacks\<close>

lemma neutral_ext_log [simp]:
  "neutral_ext h (log_info m h)" "neutral_ext h (log_error m h)"
  by (auto simp: log_info_def log_error_def neutral_ext_def)

lemma neutral_ext_cons: "neutral_ext (h @ [c]) h' \<Longrightarrow> fd_neutral c \<Longrightarrow> neutral_ext h h'"
  by (auto simp: neutral_ext_def)

lemma publishMsg_ext: "publishMsg e topic msg (p, h) = (r, p', h') \<Longrightarrow> ext_by publishing h h'"
  by (auto simp: publishMsg_def pub_send_def zmq_defs Let_def andThen_def ext_by_def
      split: option.splits sum.splits prod.splits if_splits)

lemma publishMsgs_ext: "publishMsgs e topics msg (p, h) = (r, p', h') \<Longrightarrow> ext_by publishing h h'"
  unfolding publishMsgs_fold by (erule ext_by_for_each) (rule publishMsg_ext)

lemma Publish_all_ext:
  assumes "ZmqStack_Publish_all e topics msg (z, h) = (r, z', h')"
  shows "ext_by publishing h h'"
proof -
  let ?h = "log_info (''Published message '' @ msg @ '' to topics '' @ fmt_join '' '' topics) h"
  obtain r1 p1 h1 where "publishMsgs e topics msg (zs_publisher z, ?h) = (r1, p1, h1)"
    by (cases "publishMsgs e topics msg (zs_publisher z, ?h)")
  with assms have "ext_by publishing ?h h'"
    using publishMsgs_ext by (auto simp: ZmqStack_Publish_all_def Let_def)
  then show ?thesis by (auto simp: log_info_def ext_by_def)
qed

lemma publishing_neutral: "ext_by publishing h h' \<Longrightarrow> neutral_ext h h'"
proof -
  assume "ext_by publishing h h'"
  then have "ext_by fd_neutral h h'" by (rule ext_by_mono) (auto elim: publishing.elims)
  then show ?thesis by (simp add: ext_by_def neutral_ext_def)
qed

lemma getClientInfo_handles: "fd \<in> handles s \<Longrightarrow> getClientInfo fd s \<noteq> None"
  by (auto simp: getClientInfo_def map_of_handles)

lemma onReceiveClientData_ok:
  assumes "NetStack_onReceiveClientData e fd msg (s, n, h) = (Inr (), s', n', h')"
  shows "s' = s" and "ns_clients n' = ns_clients n" and "neutral_ext h h'"
    and "ns_udpRx n' = ns_udpRx n + 1" and "ns_pubTopics n' = ns_pubTopics n"
    and "sent_on (pub_socket (zs_publisher (ns_base n))) h' =
      sent_on (pub_socket (zs_publisher (ns_base n))) h @ map (\<lambda>t. [t, msg]) (ns_pubTopics n)"
    and "pub_socket (zs_publisher (ns_base n')) = pub_socket (zs_publisher (ns_base n))"
    and "received e h' = received e h"
proof -
  obtain topic0 topics where topics: "ns_pubTopics n = topic0 # topics"
    using assms by (auto simp: NetStack_onReceiveClientData_def split: list.splits)
  let ?h = "log_info (''Received message '' @ msg @ '' from client '' @ show_int fd @
                     '', publishing to topic '' @ topic0) h"
  obtain z where pub: "ZmqStack_Publish_all e (ns_pubTopics n) msg (ns_base n, ?h) = (Inr (), z, h')"
    and n': "n' = n\<lparr>ns_base := z, ns_udpRx := ns_udpRx n + 1\<rparr>" and s': "s' = s"
    using assms topics
    by (auto simp: NetStack_onReceiveClientData_def Let_def split: sum.splits prod.splits)
  show "s' = s" "ns_clients n' = ns_clients n" "ns_udpRx n' = ns_udpRx n + 1"
    "ns_pubTopics n' = ns_pubTopics n" using s' n' by simp_all
  show "neutral_ext h h'"
    using publishing_neutral[OF Publish_all_ext[OF pub]] by (rule neutral_ext_trans[rotated]) simp
  have "received e h' = received e ?h" by (rule received_ext[OF Publish_all_ext[OF pub] publishing_no_recv])
  also have "\<dots> = received e h" by (simp add: log_info_def received_snoc)
  finally show "received e h' = received e h" .
  have "sent_on k ?h = sent_on k h" for k by (simp add: log_info_def)
  then show "sent_on (pub_socket (zs_publisher (ns_base n))) h' =
      sent_on (pub_socket (zs_publisher (ns_base n))) h @ map (\<lambda>t. [t, msg]) (ns_pubTopics n)"
    using Publish_all_ok(1)[OF pub] by simp
  show "pub_socket (zs_publisher (ns_base n')) = pub_socket (zs_publisher (ns_base n))"
    using Publish_all_ok(2)[OF pub] n' by simp
qed

interpretation net_listener: connection_listener "NetStack_callbacks e" ns_clients for e
proof unfold_locales
  fix fd s c h s' c' h'
  assume "onClientConnect (NetStack_callbacks e) fd (s, c, h) = (Inr (), s', c', h')" "fd \<in> handles s"
  then show "s' = s \<and> ns_clients c' = insert fd (ns_clients c) \<and> neutral_ext h h'"
    using getClientInfo_handles[of fd s]
    by (auto simp: NetStack_callbacks_def NetStack_onClientConnect_def split: option.splits)
next
  fix fd data s c h s' c' h'
  assume "onReceiveClientData (NetStack_callbacks e) fd data (s, c, h) = (Inr (), s', c', h')"
  then have "NetStack_onReceiveClientData e fd data (s, c, h) = (Inr (), s', c', h')"
    by (simp add: NetStack_callbacks_def)
  from onReceiveClientData_ok(1,2,3)[OF this]
  show "s' = s \<and> ns_clients c' = ns_clients c \<and> neutral_ext h h'" by simp
next
  fix fd ret s c h s' c' h'
  assume "onClientDisconnect (NetStack_callbacks e) fd ret (s, c, h) = (Inr (), s', c', h')"
  then show "s' = s \<and> ns_clients c' = ns_clients c - {fd} \<and> neutral_ext h h'"
    by (auto simp: NetStack_callbacks_def NetStack_onClientDisconnect_def)
qed

section \<open>Data of the clients is published\<close>

text \<open>
  \<open>relayed\<close>: from \<open>h\<close> to \<open>h'\<close> every piece of data read from a client has gone out on every
  topic, in order, and nothing else has gone out on the socket.
\<close>

definition relay_of :: "string list \<Rightarrow> (int \<times> string) list \<Rightarrow> string list list" where
  "relay_of topics new = concat (map (\<lambda>(_, data). map (\<lambda>t. [t, data]) topics) new)"

definition relayed :: "env \<Rightarrow> nat \<Rightarrow> string list \<Rightarrow> history \<Rightarrow> history \<Rightarrow> bool" where
  "relayed e sock topics h h' \<longleftrightarrow>
     (\<exists>new. received e h' = received e h @ new \<and> sent_on sock h' = sent_on sock h @ relay_of topics new)"

lemma relayed_refl [simp]: "relayed e sock topics h h"
  by (simp add: relayed_def relay_of_def)

lemma relayed_trans: "relayed e sock topics h h' \<Longrightarrow> relayed e sock topics h' h'' \<Longrightarrow> relayed e sock topics h h''"
proof -
  assume "relayed e sock topics h h'" "relayed e sock topics h' h''"
  then obtain new new' where
    "received e h'' = received e h @ (new @ new')"
    "sent_on sock h'' = sent_on sock h @ relay_of topics (new @ new')"
    by (auto simp: relayed_def relay_of_def)
  then show ?thesis unfolding relayed_def by blast
qed

fun relay_silent :: "call \<Rightarrow> bool" where
  "relay_silent (SysRecv _ _) = False"
| "relay_silent (ZmqSend _ _) = False"
| "relay_silent _ = True"

lemma sent_on_silent: "list_all relay_silent cs \<Longrightarrow> sent_on sock cs = []"
proof (induction cs)
  case (Cons c cs)
  then show ?case by (cases c) (auto simp: sent_on_def List.map_filter_simps)
qed simp

lemma relayed_silent: "ext_by relay_silent h h' \<Longrightarrow> relayed e sock topics h h'"
proof -
  assume "ext_by relay_silent h h'"
  then obtain cs where cs: "h' = h @ cs" "list_all relay_silent cs" by (auto simp: ext_by_def)
  have "received e h' = received e h"
    by (rule received_ext[OF \<open>ext_by relay_silent h h'\<close>]) (auto elim: relay_silent.elims)
  with cs show ?thesis by (simp add: relayed_def relay_of_def sent_on_silent)
qed

lemma relayed_snoc: "relay_silent c \<Longrightarrow> relayed e sock topics h (h @ [c])"
  by (rule relayed_silent) (simp add: ext_by_def)

lemma relayed_recv:
  "received_by e h (SysRecv fd len) = [] \<Longrightarrow> relayed e sock topics h (h @ [SysRecv fd len])"
  by (simp add: relayed_def relay_of_def received_snoc)

abbreviation net_socket :: "NetStack \<Rightarrow> nat" where
  "net_socket n \<equiv> pub_socket (zs_publisher (ns_base n))"

lemma deleteClient_silent: "deleteClient e fd s h = (r, s', h') \<Longrightarrow> ext_by relay_silent h h'"
  by (auto simp: deleteClient_def core_simps ext_by_def split: option.splits sum.splits)

lemma receive_relayed:
  assumes "receive_from e (NetStack_callbacks e) fd (s, n, h) = (Inr (), s', n', h')"
  shows "relayed e (net_socket n) (ns_pubTopics n) h h' \<and> net_socket n' = net_socket n \<and>
     ns_pubTopics n' = ns_pubTopics n"
proof -
  let ?c = "SysRecv fd MAX_PACKET_SIZE" and ?s = "s\<lparr>srv_clients := set_disconnected fd (srv_clients s)\<rparr>"
  from assms consider
      (failed) "n' = n" "h' = h @ [?c]" "received_by e h ?c = []"
    | (closed) r s1 h1 m where "deleteClient e fd ?s (h @ [?c]) = (r, s1, h1)" "n' = n\<lparr>ns_clients := ns_clients n - {fd}\<rparr>"
        "h' = log_info m h1" "received_by e h ?c = []"
    | (data) data where "NetStack_onReceiveClientData e fd data (s, n, h @ [?c]) = (Inr (), s', n', h')"
        "received_by e h ?c = [(fd, data)]"
    by (auto simp: receive_from_def core_simps Let_def received_by_def min_is_0 NetStack_callbacks_def
        publishDisconnected_def NetStack_onClientDisconnect_def
        split: option.splits if_splits sum.splits prod.splits)
  then show ?thesis
  proof cases
    case failed
    then show ?thesis using relayed_recv by simp
  next
    case closed
    have "relayed e (net_socket n) (ns_pubTopics n) (h @ [?c]) h1"
      by (rule relayed_silent[OF deleteClient_silent[OF closed(1)]])
    moreover have "relayed e (net_socket n) (ns_pubTopics n) h1 h'"
      unfolding closed(3) log_info_def by (rule relayed_snoc) simp
    ultimately have "relayed e (net_socket n) (ns_pubTopics n) (h @ [?c]) h'" by (rule relayed_trans)
    then have "relayed e (net_socket n) (ns_pubTopics n) h h'"
      by (rule relayed_trans[OF relayed_recv[OF closed(4)]])
    then show ?thesis using closed(2) by simp
  next
    case data
    note eff = onReceiveClientData_ok[OF data(1)]
    have "received e h' = received e h @ [(fd, data)]" using eff(8) data(2) by (simp add: received_snoc)
    moreover have "sent_on (net_socket n) h' = sent_on (net_socket n) h @ relay_of (ns_pubTopics n) [(fd, data)]"
      using eff(6) by (simp add: relay_of_def sent_on_silent)
    ultimately show ?thesis using eff(5,7) unfolding relayed_def by blast
  qed
qed

lemma accept_relayed:
  assumes "accept_on e (NetStack_callbacks e) fd (s, n, h) = (Inr (), s', n', h')"
  shows "relayed e (net_socket n) (ns_pubTopics n) h h' \<and> net_socket n' = net_socket n \<and>
     ns_pubTopics n' = ns_pubTopics n"
proof -
  from assms have "ext_by relay_silent h h'" "ns_base n' = ns_base n" "ns_pubTopics n' = ns_pubTopics n"
    by (auto simp: accept_on_def core_simps Let_def NetStack_callbacks_def NetStack_onClientConnect_def ext_by_def
        log_info_def split: if_splits sum.splits option.splits)
  then show ?thesis using relayed_silent by auto
qed

lemma handle_relayed:
  "handle_fd e (NetStack_callbacks e) fd (s, n, h) = (Inr (), s', n', h') \<Longrightarrow>
     relayed e (net_socket n) (ns_pubTopics n) h h' \<and> net_socket n' = net_socket n \<and>
     ns_pubTopics n' = ns_pubTopics n"
  using receive_relayed[of e fd s n h s' n' h'] accept_relayed[of e fd s n h s' n' h']
  by (auto simp: handle_fd_def split: if_splits)

lemma sends_silent: "ext_by relay_silent h (snd (client_sendMsg e msg c h))"
  by (auto simp: client_sendMsg_def core_simps Let_def ext_by_def)

lemma sendBcast_silent: "ext_by relay_silent h (snd (sendBcast e msg s h))"
proof -
  have "ext_by relay_silent h (snd (sendBcast_loop e msg clients ret h))" for clients ret
  proof (induction e msg clients ret h rule: sendBcast_loop.induct)
    case (2 e msg k client clients ret h)
    then show ?case using sends_silent[of h e msg client]
      by (auto simp: Let_def split: prod.splits intro: ext_by_trans)
  qed simp
  then show ?thesis by (simp add: sendBcast_def)
qed

lemma server_step_relayed:
  assumes "server_step e (NetStack_callbacks e) (t, s, n, h) (t', s', n', h')"
  shows "relayed e (net_socket n) (ns_pubTopics n) h h' \<and> net_socket n' = net_socket n \<and>
     ns_pubTopics n' = ns_pubTopics n"
  using assms
proof (cases rule: server_stepE [consumes 1, case_names step_exit step_select step_handle step_done
      step_bcast step_send step_stop step_finish])
  case (step_select fds h1)
  then have "ext_by relay_silent h h1"
    by (auto simp: select_ready_def core_simps Let_def ext_by_def split: if_splits)
  then show ?thesis using step_select relayed_silent by auto
next
  case (step_handle fd s1 n1 h1 fds)
  then show ?thesis using handle_relayed[OF step_handle(3)] by auto
next
  case (step_bcast msg)
  then show ?thesis using relayed_silent[OF sendBcast_silent] by auto
next
  case (step_send k msg)
  then show ?thesis using relayed_silent[OF sends_silent]
    by (auto simp: sendClientMessage_def split: option.splits)
next
  case (step_finish s1 h1)
  then have "ext_by relay_silent h h1" by (auto simp: finish_joined_eq ext_by_def list_all_iff)
  then show ?thesis using step_finish relayed_silent by auto
qed (auto)

lemma server_steps_relayed:
  assumes "server_steps e (NetStack_callbacks e) (t, s, n, h) (t', s', n', h')"
  shows "relayed e (net_socket n) (ns_pubTopics n) h h'"
proof -
  have "case st of (t', s', n', h') \<Rightarrow> relayed e (net_socket n) (ns_pubTopics n) h h' \<and>
      net_socket n' = net_socket n \<and> ns_pubTopics n' = ns_pubTopics n"
    if "server_steps e (NetStack_callbacks e) (t, s, n, h) st" for st
    using that
  proof (induction rule: rtranclp_induct)
    case base
    show ?case by simp
  next
    case (step y z)
    obtain t1 s1 n1 h1 where y: "y = (t1, s1, n1, h1)" by (cases y) 
    obtain t2 s2 n2 h2 where z: "z = (t2, s2, n2, h2)" by (cases z)
    show ?case using step.IH server_step_relayed[OF step(2)[unfolded y z]] y z
      by (auto intro: relayed_trans)
  qed
  from this[OF assms] show ?thesis by simp
qed

section \<open>Properties\<close>

lemma NetStack_new_inv:
  assumes new: "NetStack_new e sock name pubEndpoints subEndpoint subTopics pubTopics port h = (Inr (), s, n, h')"
    and "srv_joinable s"
  shows "net_listener.system_inv e (srv_sockfd s) (accepted_on h') (Looping, s, n, h')"
proof -
  obtain base h0 where base: "ZmqStack_new e sock name pubEndpoints subEndpoint [] [] subTopics h = (base, h0)"
    by (cases "ZmqStack_new e sock name pubEndpoints subEndpoint [] [] subTopics h")
  obtain ret h1 where start: "start e port (TcpServer_init None) h0 = (Inr ret, s, h1)"
    and ext: "neutral_ext h1 h'" and n: "ns_clients n = {}"
    using new base by (auto simp: NetStack_new_def Let_def split: prod.splits sum.splits if_splits)
  have init: "srv_clients (TcpServer_init None) = []" "\<not> srv_joinable (TcpServer_init None)"
    by (simp_all add: TcpServer_init_def)
  have ok: "m_success ret" "srv_clients s = []" using start_cases[OF start] init assms(2) by auto
  have "srv_inv e s h1" by (rule start_srv_inv[OF start ok(1) init(1)])
  then have "srv_inv e s h'" by (rule srv_inv_cong[OF _ open_fds_neutral_ext[OF ext]]) simp_all
  then show ?thesis using n ok by (auto simp: net_listener.system_inv_def net_listener.in_sync_def)
qed

text \<open>A kernel on which one peer is waiting on descriptor 3 whenever \<open>select\<close> is called.\<close>

definition busy_env :: env where
  "busy_env = quiet_env\<lparr>int_result := (\<lambda>h c. case c of SysSelect _ _ \<Rightarrow> 1 | _ \<Rightarrow> quiet_int h c),
     ready_fds := (\<lambda>_. {3})\<rparr>"

lemma numbers_fds_busy [simp]: "numbers_fds busy_env"
  by (simp add: numbers_fds_def busy_env_def)

definition demo_start :: "NetStack srv_state" where
  "demo_start = snd (NetStack_new busy_env 0 ''net'' [] ''inproc://sub'' [''e''] [''i''] 7000 [])"

lemma demo_new:
  "NetStack_new busy_env 0 ''net'' [] ''inproc://sub'' [''e''] [''i''] 7000 [] = (Inr (), demo_start)"
  "srv_joinable (fst demo_start)" "srv_sockfd (fst demo_start) = 3" "srv_fds (fst demo_start) = {3}"
  "srv_clients (fst demo_start) = []" "\<not> srv_stop (fst demo_start)"
  "filter (\<lambda>c. \<not> fd_neutral c) (snd (snd demo_start)) = [SysSocket AF_INET SOCK_STREAM 0]"
  "ns_clients (fst (snd demo_start)) = {}"
  by (simp_all add: demo_start_def NetStack_new_def ZmqStack_new_def Publisher_new_def zmq_defs Let_def start_def
      core_simps busy_env_def quiet_env_def next_fd_def TcpServer_init_def INVALID_SOCKET_def
      FD_SET_def FD_SETSIZE_def)

lemma demo_run:
  "\<exists>s n h. server_steps busy_env (NetStack_callbacks busy_env) (Looping, demo_start) (Handling [], s, n, h) \<and>
     handles s = {4}"
proof -
  obtain s n h where d: "demo_start = (s, n, h)" by (cases demo_start)
  note facts = demo_new[unfolded d fst_conv snd_conv]
  define h1 where "h1 = h @ [SysSelect 4 {3}]"
  have sel: "select_ready busy_env s h = ([3], h1)"
    using facts
    by (simp add: select_ready_def findMaxFd_def core_simps busy_env_def h1_def quiet_env_def upto_rec1)
  have fd4: "next_fd h1 = 4" using facts by (simp add: next_fd_def h1_def)
  have "\<exists>s' n' h'. handle_fd busy_env (NetStack_callbacks busy_env) 3 (s, n, h1) = (Inr (), s', n', h') \<and> handles s' = {4}"
    using facts fd4
    by (simp add: handle_fd_def accept_on_def core_simps busy_env_def FD_SET_def FD_SETSIZE_def emplace_def
        Let_def NetStack_callbacks_def NetStack_onClientConnect_def getClientInfo_def)
  then obtain s' n' h' where handle: "handle_fd busy_env (NetStack_callbacks busy_env) 3 (s, n, h1) = (Inr (), s', n', h')"
    "handles s' = {4}" by blast
  have "server_step busy_env (NetStack_callbacks busy_env) (Looping, s, n, h) (Handling [3], s, n, h1)"
    by (rule step_select[OF facts(6) sel])
  moreover have "server_step busy_env (NetStack_callbacks busy_env) (Handling [3], s, n, h1) (Handling [], s', n', h')"
    by (rule step_handle[OF handle(1)])
  ultimately have "server_steps busy_env (NetStack_callbacks busy_env) (Looping, s, n, h) (Handling [], s', n', h')"
    by (metis (no_types) converse_rtranclp_into_rtranclp r_into_rtranclp)
  with handle(2) d show ?thesis by auto
qed

text \<open>From its construction to \<open>finish\<close>, in every interleaving of the server thread with
  broadcasts, sends and the stop request, and whenever the thread is not in the middle of
  handling one descriptor, the NetStack's set of clients is exactly the server's table; the
  \<open>fd_set\<close> is the accept socket and those clients; every one of these descriptors is open and
  within \<open>FD_SETSIZE\<close>.\<close>

theorem clients_in_sync:
  assumes "posix_fds e"
    and "NetStack_new e sock name pubEndpoints subEndpoint subTopics pubTopics port h = (Inr (), s, n, h1)"
    and "srv_joinable s"
    and "server_steps e (NetStack_callbacks e) (Looping, s, n, h1) (t, s', n', h')"
    and "t \<noteq> Joined"
  shows "ns_clients n' = handles s' \<and> srv_fds s' = insert (srv_sockfd s') (handles s') \<and>
     (\<forall>fd \<in> srv_fds s'. fd \<in> open_fds e h' \<and> 0 \<le> fd \<and> fd < FD_SETSIZE)"
proof -
  have "net_listener.system_inv e (srv_sockfd s) (accepted_on h1) (t, s', n', h')"
    by (rule net_listener.server_steps_inv[OF assms(1,4)]) (rule NetStack_new_inv[OF assms(2,3)])
  then have "net_listener.in_sync e (s', n', h')"
    using assms(5) by (auto simp: net_listener.system_inv_def split: task.splits)
  then show ?thesis using srv_invD(4,5)[of e s' h'] by (auto simp: net_listener.in_sync_def)
qed

theorem clients_in_sync_witness:
  "\<exists>s n h. server_steps busy_env (NetStack_callbacks busy_env) (Looping, demo_start) (Handling [], s, n, h) \<and>
     ns_clients n = {4} \<and> srv_fds s = {3, 4} \<and> {3, 4} \<subseteq> open_fds busy_env h"
proof -
  obtain s n h where run: "server_steps busy_env (NetStack_callbacks busy_env) (Looping, demo_start) (Handling [], s, n, h)"
    "handles s = {4}" using demo_run by blast
  obtain s0 n0 h0 where d: "demo_start = (s0, n0, h0)" by (cases demo_start)
  note new = demo_new[unfolded d fst_conv snd_conv]
  have sync: "net_listener.system_inv busy_env (srv_sockfd s0) (accepted_on h0) (Handling [], s, n, h)"
    by (rule net_listener.server_steps_inv[OF posix_fds_numbers[OF numbers_fds_busy] run(1)[unfolded d]])
       (rule NetStack_new_inv[OF new(1,2)])
  then have "srv_sockfd s = 3" using new(3) by (simp add: net_listener.system_inv_def)
  with clients_in_sync[OF posix_fds_numbers[OF numbers_fds_busy] new(1,2) run(1)[unfolded d]] run
  show ?thesis by (intro exI[of _ s] exI[of _ n] exI[of _ h]) auto
qed

text \<open>In every such interleaving the server thread calls \<open>accept\<close> on the accept socket
  only. The code takes every ready descriptor that is not in the client table for the accept
  socket; this shows that a client's descriptor is never mistaken for it.\<close>

theorem accept_only_on_listen_socket:
  assumes "posix_fds e"
    and "NetStack_new e sock name pubEndpoints subEndpoint subTopics pubTopics port h = (Inr (), s, n, h1)"
    and "srv_joinable s"
    and "server_steps e (NetStack_callbacks e) (Looping, s, n, h1) (t, s', n', h')"
  shows "accepted_on h' \<subseteq> insert (srv_sockfd s) (accepted_on h1)"
proof -
  have "net_listener.system_inv e (srv_sockfd s) (accepted_on h1) (t, s', n', h')"
    by (rule net_listener.server_steps_inv[OF assms(1,4)]) (rule NetStack_new_inv[OF assms(2,3)])
  then show ?thesis by (auto simp: net_listener.system_inv_def)
qed

theorem accept_only_on_listen_socket_witness:
  "\<exists>t s n h. server_steps busy_env (NetStack_callbacks busy_env) (Looping, demo_start) (t, s, n, h) \<and>
     handles s = {4} \<and> accepted_on h \<subseteq> insert 3 (accepted_on (snd (snd demo_start)))"
proof -
  obtain s n h where run: "server_steps busy_env (NetStack_callbacks busy_env) (Looping, demo_start) (Handling [], s, n, h)"
    "handles s = {4}" using demo_run by blast
  obtain s0 n0 h0 where d: "demo_start = (s0, n0, h0)" by (cases demo_start)
  note new = demo_new[unfolded d fst_conv snd_conv]
  from accept_only_on_listen_socket[OF posix_fds_numbers[OF numbers_fds_busy] new(1,2) run(1)[unfolded d]]
  have "accepted_on h \<subseteq> insert 3 (accepted_on (snd (snd demo_start)))" 
    unfolding d snd_conv new(3) .
  with run show ?thesis by blast
qed

text \<open>What a TCP client sends is published. In every interleaving of the server thread with
  broadcasts, sends and the stop request, the messages that went out on the NetStack's
  publisher are exactly the pieces of data read from the clients, in the order they were
  read, each once on every topic of \<open>m_pubTopics\<close> in the order of that list.\<close>

theorem client_data_published:
  assumes "server_steps e (NetStack_callbacks e) (t, s, n, h) (t', s', n', h')"
  shows "\<exists>new. received e h' = received e h @ new \<and>
     sent_on (pub_socket (zs_publisher (ns_base n))) h' =
       sent_on (pub_socket (zs_publisher (ns_base n))) h @
       concat (map (\<lambda>(_, data). map (\<lambda>topic. [topic, data]) (ns_pubTopics n)) new)"
  using server_steps_relayed[OF assms] by (simp add: relayed_def relay_of_def)

text \<open>A client that has sent five bytes.\<close>

definition chatty_env :: env where
  "chatty_env = busy_env\<lparr>recv_bytes := (\<lambda>_ _. Some ''hello'')\<rparr>"

definition chatty_net :: NetStack where
  "chatty_net = (fst (snd demo_start))\<lparr>ns_clients := {4}, ns_pubTopics := [''i'', ''j'']\<rparr>"

lemma chatty_net_fields:
  "pub_open (zs_publisher (ns_base chatty_net))" "net_socket chatty_net = 0" 
  "ns_pubTopics chatty_net = [''i'', ''j'']" "ns_clients chatty_net = {4}"
  by (simp_all add: chatty_net_def demo_start_def NetStack_new_def ZmqStack_new_def Publisher_new_def zmq_defs Let_def
      start_def core_simps busy_env_def quiet_env_def next_fd_def TcpServer_init_def INVALID_SOCKET_def
      FD_SET_def FD_SETSIZE_def)

lemma chatty_handle:
  "\<exists>s' n' h'. handle_fd chatty_env (NetStack_callbacks chatty_env) 4 (one_client, chatty_net, []) =
     (Inr (), s', n', h') \<and> received chatty_env h' = [(4, ''hello'')]"
  using chatty_net_fields
  by (simp add: handle_fd_def one_client_def receive_from_def core_simps chatty_env_def busy_env_def quiet_env_def
      NetStack_callbacks_def NetStack_onReceiveClientData_def ZmqStack_Publish_all_def publishMsgs_def pub_send_def
      zmq_defs Let_def MAX_PACKET_SIZE_def received_def received_by_def)

theorem client_data_published_witness:
  "\<exists>st. server_steps chatty_env (NetStack_callbacks chatty_env) (Handling [4], one_client, chatty_net, []) (Handling [], st) \<and>
     sent_on 0 (snd (snd st)) = [[''i'', ''hello''], [''j'', ''hello'']]"
proof -
  obtain s' n' h' where run: "handle_fd chatty_env (NetStack_callbacks chatty_env) 4 (one_client, chatty_net, []) =
     (Inr (), s', n', h')" "received chatty_env h' = [(4, ''hello'')]"
    using chatty_handle by blast
  have steps: "server_steps chatty_env (NetStack_callbacks chatty_env) (Handling [4], one_client, chatty_net, [])
      (Handling [], s', n', h')"
    by (rule r_into_rtranclp) (rule step_handle[OF run(1)])
  from client_data_published[OF steps] run(2) chatty_net_fields
  have "sent_on 0 h' = [[''i'', ''hello''], [''j'', ''hello'']]" by simp
  with steps show ?thesis by (intro exI[of _ "(s', n', h')"]) simp
qed

lemma sendBcast_prefix:
  assumes "srv_inv e s h" and "h1 = log_info (''Received message '' @ msg @ '' on topic '' @ topic) h"
  shows "NetStack_onReceivedMessage e (topic # msg # parts) ((s, n), h) =
       (Inr (), (s, n\<lparr>ns_udpTx := ns_udpTx n + 1\<rparr>),
        h1 @ map (\<lambda>fd. SysSend fd msg) (take (Suc (delivered e msg (srv_clients s) h1)) (map fst (srv_clients s)))) \<and>
     m_success (fst (sendBcast e msg s h1)) = (delivered e msg (srv_clients s) h1 = length (srv_clients s))"
proof -
  have keys: "\<forall>(k, c) \<in> set (srv_clients s). c_sockfd c = k" using assms(1) unfolding srv_inv_def by (elim conjE)
  have "0 \<le> k" if "k \<in> handles s" for k using srv_invD(4,5)[OF assms(1)] that by blast
  then have valid: "\<forall>(k, c) \<in> set (srv_clients s). c_sockfd c \<noteq> INVALID_SOCKET"
    using keys by (force simp: INVALID_SOCKET_def)
  have "sends msg (srv_clients s) = map (\<lambda>fd. SysSend fd msg) (map fst (srv_clients s))"
    using keys by auto
  then have "sends msg (take i (srv_clients s)) = map (\<lambda>fd. SysSend fd msg) (take i (map fst (srv_clients s)))" for i
    by (metis take_map)
  then show ?thesis
    using sendBcast_loop_spec[OF valid, of "SocketRet_init\<lparr>m_success := True\<rparr>" e msg h1] assms(2)
    by (auto simp: NetStack_onReceivedMessage_def sendBcast_def Let_def split: prod.splits)
qed

text \<open>C17: a message from the subscriber is offered to the connected clients in table order, up to
  and including the first that does not take all of it; the clients behind that one get
  nothing. The message is counted whatever happened, the table is not touched, and the whole
  broadcast succeeded exactly when it reached every client.\<close>

theorem broadcast_reaches_prefix:
  assumes "srv_inv e s h" and "h1 = log_info (''Received message '' @ msg @ '' on topic '' @ topic) h"
  shows "NetStack_onReceivedMessage e (topic # msg # parts) ((s, n), h) =
       (Inr (), (s, n\<lparr>ns_udpTx := ns_udpTx n + 1\<rparr>),
        h1 @ map (\<lambda>fd. SysSend fd msg) (take (Suc (delivered e msg (srv_clients s) h1)) (map fst (srv_clients s)))) \<and>
     m_success (fst (sendBcast e msg s h1)) = (delivered e msg (srv_clients s) h1 = length (srv_clients s))"
  using assms by (rule sendBcast_prefix)

text \<open>Two clients, the first of which takes only one byte at a time.\<close>

definition two_clients :: TcpServer where
  "two_clients = one_client\<lparr>srv_fds := {3, 4, 5},
     srv_clients := (5, \<lparr>c_ip = ''10.0.0.8'', c_sockfd = 5, c_port = 4242, c_isConnected = True\<rparr>) # srv_clients one_client\<rparr>"

definition slow_env :: env where
  "slow_env = quiet_env\<lparr>int_result := (\<lambda>h c. case c of SysSend fd _ \<Rightarrow> 1 | _ \<Rightarrow> quiet_int h c)\<rparr>"

lemma two_clients_inv: "srv_inv slow_env two_clients (one_client_history @ [SysAccept 3])"
  by (auto simp: srv_inv_def two_clients_def one_client_def one_client_history_def open_fds_def next_fd_def
      slow_env_def FD_SETSIZE_def TcpServer_init_def)

theorem broadcast_reaches_prefix_witness:
  "\<exists>h1. NetStack_onReceivedMessage slow_env [''e'', ''hello''] ((two_clients, chatty_net), one_client_history @ [SysAccept 3]) =
     (Inr (), (two_clients, chatty_net\<lparr>ns_udpTx := ns_udpTx chatty_net + 1\<rparr>), h1 @ [SysSend 5 ''hello''])"
  using broadcast_reaches_prefix[OF two_clients_inv refl, where msg = "''hello''" and topic = "''e''"
      and parts = "[]" and n = chatty_net]
  by (simp add: two_clients_def one_client_def sent_fully_def slow_env_def)

text \<open>C23: the end of a client's stream removes it everywhere: its descriptor is closed, leaves
  the \<open>fd_set\<close>, the table and the NetStack's set of clients, and no other client is affected.\<close>

theorem eof_removes_client:
  assumes "srv_inv e s h" and "ns_clients n = handles s" and "fd \<in> handles s" and "recv_bytes e h fd = Some []"
  shows "\<exists>s' n' h'. handle_fd e (NetStack_callbacks e) fd (s, n, h) = (Inr (), s', n', h') \<and>
     handles s' = handles s - {fd} \<and> ns_clients n' = handles s' \<and> srv_fds s' = srv_fds s - {fd} \<and>
     open_fds e h' = open_fds e h - {fd}"
proof -
  let ?s = "s\<lparr>srv_clients := set_disconnected fd (srv_clients s)\<rparr>" and ?h = "h @ [SysRecv fd MAX_PACKET_SIZE]"
  have "srv_inv e s ?h" by (rule srv_inv_cong[OF assms(1)]) simp_all
  from deleteClient_inv[OF srv_inv_disconnected[OF this], of fd fd] assms(3) obtain s1 where
    del: "deleteClient e fd ?s ?h = (Inr True, s1, ?h @ [SysClose fd])"
    and s1: "srv_inv e s1 (?h @ [SysClose fd])" "handles s1 = handles s - {fd}" "srv_sockfd s1 = srv_sockfd s"
    by auto
  have "srv_fds s1 = srv_fds s - {fd}"
    using srv_invD(3,4)[OF s1(1)] srv_invD(3,4)[OF assms(1)] s1(2,3) assms(3) by auto
  moreover have "open_fds e (?h @ [SysClose fd]) = open_fds e h - {fd}"
    unfolding open_fds_close by simp
  moreover have "map_of (srv_clients s) fd \<noteq> None" using assms(3) by (simp add: map_of_handles)
  ultimately show ?thesis
    using del s1(2) assms(2,4)
    by (auto simp: handle_fd_def receive_from_def core_simps NetStack_callbacks_def publishDisconnected_def
        NetStack_onClientDisconnect_def)
qed

theorem eof_removes_client_witness:
  "\<exists>s' n' h'. handle_fd quiet_env (NetStack_callbacks quiet_env) 4 (one_client, chatty_net, one_client_history) = (Inr (), s', n', h') \<and>
     ns_clients n' = {} \<and> srv_fds s' = {3} \<and> open_fds quiet_env h' = {3}"
proof -
  have one: "handles one_client = {4}" "srv_fds one_client = {3, 4}" by (simp_all add: one_client_def)
  moreover have "open_fds quiet_env one_client_history = {3, 4}"
    by (auto simp: one_client_history_def open_fds_def quiet_env_def next_fd_def)
  moreover have "recv_bytes quiet_env one_client_history 4 = Some []" by (simp add: quiet_env_def)
  ultimately show ?thesis
    using eof_removes_client[of quiet_env one_client one_client_history chatty_net 4]
      one_client_inv[of quiet_env] chatty_net_fields(4) by auto
qed

text \<open>A failing \<open>recv\<close> only marks the client as disconnected. Its entry, its descriptor in
  the \<open>fd_set\<close> and in the kernel, and the NetStack's set all keep it, and no disconnection is
  reported, so the thread will try the same descriptor again at every pass.\<close>

theorem recv_error_keeps_client:
  assumes "map_of (srv_clients s) fd = Some c" and "recv_bytes e h fd = None"
  shows "\<exists>s'. handle_fd e (NetStack_callbacks e) fd (s, n, h) = (Inr (), s', n, h @ [SysRecv fd MAX_PACKET_SIZE]) \<and>
     handles s' = handles s \<and> srv_fds s' = srv_fds s \<and>
     getClientInfo fd s' = Some (c_ip c, c_port c, False)"
proof -
  have "map_of (set_disconnected fd clients) fd = map_option (\<lambda>c. c\<lparr>c_isConnected := False\<rparr>) (map_of clients fd)" for clients
    by (induction clients) (auto simp: set_disconnected_def)
  then show ?thesis
    using assms by (simp add: handle_fd_def receive_from_def core_simps getClientInfo_def)
qed

theorem recv_error_keeps_client_witness:
  "\<exists>s'. handle_fd (quiet_env\<lparr>recv_bytes := (\<lambda>_ _. None)\<rparr>) (NetStack_callbacks (quiet_env\<lparr>recv_bytes := (\<lambda>_ _. None)\<rparr>))
       4 (one_client, chatty_net, []) = (Inr (), s', chatty_net, [SysRecv 4 MAX_PACKET_SIZE]) \<and>
     srv_fds s' = {3, 4} \<and> getClientInfo 4 s' = Some (''10.0.0.7'', 4242, False)"
proof -
  have c: "map_of (srv_clients one_client) 4 =
      Some \<lparr>c_ip = ''10.0.0.7'', c_sockfd = 4, c_port = 4242, c_isConnected = True\<rparr>" "srv_fds one_client = {3, 4}"
    by (simp_all add: one_client_def)
  show ?thesis
    using recv_error_keeps_client[OF c(1), of "quiet_env\<lparr>recv_bytes := (\<lambda>_ _. None)\<rparr>" "[]" chatty_net] c(2)
    by (simp add: quiet_env_def) (elim exE conjE, intro exI conjI, assumption+)
qed

lemma onReceiveClientData_defined:
  assumes "ns_pubTopics n \<noteq> []"
  shows "defined (fst (NetStack_onReceiveClientData e fd data (s, n, h)))"
proof -
  obtain topic0 topics where topics: "ns_pubTopics n = topic0 # topics" using assms by (cases "ns_pubTopics n") auto
  let ?h = "log_info (''Received message '' @ data @ '' from client '' @ show_int fd @
                     '', publishing to topic '' @ topic0) h"
  obtain r z h1 where pub: "ZmqStack_Publish_all e (topic0 # topics) data (ns_base n, ?h) = (r, z, h1)"
    by (cases "ZmqStack_Publish_all e (topic0 # topics) data (ns_base n, ?h)")
  with Publish_all_only_zmq[of e "topic0 # topics" data "(ns_base n, ?h)"]
  have "only_zmq r" by simp
  then show ?thesis using topics pub
    by (auto simp: NetStack_onReceiveClientData_def only_zmq_def split: sum.splits error.splits)
qed


text \<open>A kernel that hands out descriptors past 1023 from its third answer on.\<close>

definition crowded_fd :: "history \<Rightarrow> int" where
  "crowded_fd h = next_fd h + (if length h < 2 then 0 else 1021)"

definition crowded_env :: env where
  "crowded_env = quiet_env\<lparr>int_result :=
     (\<lambda>h c. case c of SysAccept _ \<Rightarrow> crowded_fd h | SysSocket _ _ _ \<Rightarrow> crowded_fd h | _ \<Rightarrow> quiet_int h c)\<rparr>"

lemma crowded_fds_below: "fd \<in> open_fds crowded_env h \<Longrightarrow> fd < crowded_fd h"
proof (induction h rule: rev_induct)
  case (snoc c h)
  have "crowded_fd h \<le> crowded_fd (h @ [c])" "\<not> fd_neutral c \<Longrightarrow> crowded_fd h < crowded_fd (h @ [c])"
    by (auto simp: crowded_fd_def next_fd_def)
  with snoc show ?case
    by (cases c) (auto simp: open_fds_def crowded_env_def split: if_splits)
qed simp

lemma posix_crowded: "posix_fds crowded_env"
  unfolding posix_fds_def new_fd_ok_def using crowded_fds_below
  by (fastforce simp: crowded_env_def crowded_fd_def next_fd_def)


text \<open>C24: an accepted client is filed under its peer's address. After \<open>accept\<close> the server's
  \<open>getClientInfo\<close> gives for the new descriptor an address text and a port that read back as the
  address and port the kernel reported, and the client is connected; the descriptor is new to
  the table, and all other clients are as before.\<close>

theorem accepted_client_info:
  assumes "srv_inv e s h" and "posix_fds e" and "fd \<notin> handles s"
    and "int_result e h (SysAccept fd) = clientfd" and "clientfd \<noteq> -1" and "clientfd < FD_SETSIZE"
  shows "\<exists>s' n' h' ip port. handle_fd e (NetStack_callbacks e) fd (s, n, h) = (Inr (), s', n', h') \<and>
     getClientInfo clientfd s' = Some (ip, port, True) \<and>
     inet_pton ip = Some (sin_addr (peer_addr e h)) \<and> htons port = sin_port (peer_addr e h) \<and>
     ns_clients n' = insert clientfd (ns_clients n) \<and> clientfd \<notin> handles s \<and>
     (\<forall>k. k \<noteq> clientfd \<longrightarrow> getClientInfo k s' = getClientInfo k s)"
proof -
  note new = accept_inv[OF assms(1,2,4,5,6)]
  have absent: "map_of (srv_clients s) fd = None" using assms(3) by (simp add: map_of_handles)
  have fresh: "clientfd \<notin> handles s" using new(2) by (simp add: map_of_handles)
  show ?thesis
    using assms(4-6) new(2,3) absent fresh htons_ntohs
    by (simp add: handle_fd_def accept_on_def core_simps emplace_def Let_def NetStack_callbacks_def
        NetStack_onClientConnect_def getClientInfo_def inet_pton_ntop)
qed

theorem accepted_client_info_witness:
  "\<exists>s' n' h' ip port. handle_fd quiet_env (NetStack_callbacks quiet_env) 3 (one_client, chatty_net, one_client_history) = (Inr (), s', n', h') \<and>
     getClientInfo 5 s' = Some (ip, port, True) \<and> inet_pton ip = Some (10, 0, 0, 7) \<and> ns_clients n' = {4, 5}"
proof -
  have inv: "srv_inv quiet_env one_client one_client_history" by (rule one_client_inv) simp
  have "handles one_client = {4}" by (simp add: one_client_def)
  moreover have "int_result quiet_env one_client_history (SysAccept 3) = 5"
    by (simp add: quiet_env_def one_client_history_def next_fd_def)
  moreover have "sin_addr (peer_addr quiet_env one_client_history) = (10, 0, 0, 7)" by (simp add: quiet_env_def)
  ultimately show ?thesis
    using accepted_client_info[OF inv posix_fds_numbers[OF numbers_fds_quiet], of 3 5 chatty_net] chatty_net_fields(4)
    by (auto simp: FD_SETSIZE_def)
qed

end
