(* ===== verification/NetStackMain.thy ===== *)
theory NetStackMain
  imports NetStack Config
begin

text \<open>
  \<open>net-stack/NetStackMain.cpp\<close>: options, YAML keys, instance topics and construction of the
  bridge between TCP clients and topics; its main thread then waits for the signal.
\<close>

record NetSettings = Settings +
  nm_pubEndpoint :: string
  nm_pubTopics :: "string list"
  nm_listenPort :: "16 word"

definition net_defaults :: NetSettings where
  "net_defaults =
     \<lparr>logLevel = level_trace, configFile = ''net-stack.yaml'', stackName = ''netStack'', pubEndpoints = [],
      subEndpoint = ''tcp://localhost:9210'', healthStatusPort = 6000, metricsPort = 6001, subTopics = [],
      nm_pubEndpoint = ''tcp://localhost:9200'', nm_pubTopics = [], nm_listenPort = 7000\<rparr>"

text \<open>\<open>getopt\<close> also accepts \<open>-d\<close> and \<open>-D\<close>, which have no case and end in the \<open>default\<close>.\<close>

definition net_option :: "char \<Rightarrow> NetSettings handler" where
  "net_option c =
     (if c = CHR ''f'' then set_text (\<lambda>v cfg. cfg\<lparr>configFile := v\<rparr>)
      else if c = CHR ''n'' then set_text (\<lambda>v cfg. cfg\<lparr>stackName := v\<rparr>)
      else if c = CHR ''l'' then set_stoi (\<lambda>v cfg. cfg\<lparr>logLevel := v\<rparr>)
      else if c = CHR ''p'' then set_text (\<lambda>v cfg. cfg\<lparr>pubEndpoints := pubEndpoints cfg @ [v], nm_pubEndpoint := v\<rparr>)
      else if c = CHR ''s'' then set_text (\<lambda>v cfg. cfg\<lparr>subEndpoint := v\<rparr>)
      else if c = CHR ''P'' then set_text (\<lambda>v cfg. cfg\<lparr>nm_pubTopics := nm_pubTopics cfg @ [v]\<rparr>)
      else if c = CHR ''S'' then set_text (\<lambda>v cfg. cfg\<lparr>subTopics := subTopics cfg @ [v]\<rparr>)
      else if c = CHR ''L'' then set_stoul (\<lambda>v cfg. cfg\<lparr>nm_listenPort := ucast v\<rparr>)
      else if c = CHR ''h'' then set_stoul (\<lambda>v cfg. cfg\<lparr>healthStatusPort := ucast v\<rparr>)
      else if c = CHR ''m'' then set_stoi (\<lambda>v cfg. cfg\<lparr>metricsPort := word_of_int v\<rparr>)
      else usage_exit)"

definition net_keys ::
  "'n yaml_lib \<Rightarrow> (string \<Rightarrow> 'n option) \<Rightarrow> (NetSettings \<Rightarrow> unit outcome \<times> NetSettings) list" where
  "net_keys yl y =
     [yaml_set y ''log-level'' (yl_int yl) (\<lambda>v cfg. cfg\<lparr>logLevel := v\<rparr>),
      yaml_set y ''health-port'' (yl_uint16 yl) (\<lambda>v cfg. cfg\<lparr>healthStatusPort := v\<rparr>),
      yaml_set y ''metrics-port'' (yl_uint16 yl) (\<lambda>v cfg. cfg\<lparr>metricsPort := v\<rparr>),
      yaml_set y ''listen-port'' (yl_uint16 yl) (\<lambda>v cfg. cfg\<lparr>nm_listenPort := v\<rparr>),
      yaml_set y ''name'' (yl_string yl) (\<lambda>v cfg. cfg\<lparr>stackName := v\<rparr>),
      yaml_set y ''pub-endpoints'' (yl_strings yl) (\<lambda>v cfg. cfg\<lparr>pubEndpoints := v\<rparr>),
      yaml_set y ''sub-endpoint'' (yl_string yl) (\<lambda>v cfg. cfg\<lparr>subEndpoint := v\<rparr>),
      yaml_set_sequence yl y ''sub-topics'' (\<lambda>v cfg. cfg\<lparr>subTopics := v\<rparr>),
      yaml_set_sequence yl y ''pub-topics'' (\<lambda>v cfg. cfg\<lparr>nm_pubTopics := v\<rparr>)]"

definition net_instance :: "32 word \<Rightarrow> NetSettings \<Rightarrow> NetSettings" where
  "net_instance inst cfg =
     (let name = instance_name (stackName cfg) inst
      in cfg\<lparr>stackName := name, nm_pubTopics := [ingress_topic name], subTopics := [egress_topic name]\<rparr>)"

definition net_configure ::
  "'n yaml_lib \<Rightarrow> (string \<Rightarrow> string option) \<Rightarrow> string option \<Rightarrow> (char \<times> string) list \<Rightarrow> history
     \<Rightarrow> NetSettings outcome \<times> history" where
  "net_configure yl files HOSTNAME opts h =
     (case getContainerInstance HOSTNAME of
        Inl err \<Rightarrow> (Inl err, h)
      | Inr inst \<Rightarrow>
          (case parse_options net_option opts net_defaults of
             (Inl err, _) \<Rightarrow> (Inl err, h)
           | (Inr _, cfg) \<Rightarrow>
               (let (cfg, h) = read_config yl (net_keys yl) (files (configFile cfg)) (cfg, h)
                in (Inr (net_instance inst cfg), h))))"

text \<open>
  \<open>main\<close>, waiting for the signal for at most \<open>fuel\<close> half seconds; then the health server and the
  stack, with its server, are destroyed.
\<close>

definition net_main ::
  "nat \<Rightarrow> env \<Rightarrow> 'n yaml_lib \<Rightarrow> (string \<Rightarrow> string option) \<Rightarrow> string option \<Rightarrow> (char \<times> string) list \<Rightarrow> history
     \<Rightarrow> bool outcome \<times> (TcpServer \<times> NetStack) option \<times> history" where
  "net_main fuel e yl files HOSTNAME opts h =
     (case net_configure yl files HOSTNAME opts h of
        (Inl err, h) \<Rightarrow> (Inl err, None, h)
      | (Inr cfg, h) \<Rightarrow>
          let h = log_endpoints cfg h;
              h = log_each ''    Pub topic '' (nm_pubTopics cfg) h;
              h = log_each ''    Sub topic '' (subTopics cfg) h;
              (started, h) = Exposer_new e (metricsPort cfg) h
          in (case started of
                Inl err \<Rightarrow> (Inl err, None, h)
              | Inr _ \<Rightarrow>
                  (case NetStack_new e 0 (stackName cfg) (pubEndpoints cfg) (subEndpoint cfg) (subTopics cfg)
                          (nm_pubTopics cfg) (nm_listenPort cfg) h of
                     (Inl err, s, n, h) \<Rightarrow> (Inl err, None, h)
                   | (Inr _, s, n, h) \<Rightarrow>
                       let (hs, h) = HealthStatus_new (healthStatusPort cfg) h;
                           h = RegisterCollectable h;
                           (fin, h) = await_signal fuel e h
                       in if fin then
                            let (_, h) = HealthStatus_delete hs h;
                                (s, n, h) = NetStack_delete e (s, n, h)
                            in (Inr True, Some (s, n), h)
                          else (Inr False, Some (s, n), h))))"

section \<open>Properties\<close>

lemma NetStack_new_topics:
  "NetStack_new e sock name eps sep subs pubs port h = (Inr (), s, n, h') \<Longrightarrow>
     ns_pubTopics n = pubs \<and> ns_clients n = {} \<and> zs_subscriptions (ns_base n) = set subs \<and>
     zs_name (ns_base n) = name"
  by (auto simp: NetStack_new_def ZmqStack_new_def Let_def split: prod.splits sum.splits if_splits)

lemma NetStack_delete_topics:
  assumes "NetStack_delete e (s, n, h) = (s', n', h')"
  shows "ns_pubTopics n' = ns_pubTopics n \<and> zs_subscriptions (ns_base n') = zs_subscriptions (ns_base n) \<and>
     zs_name (ns_base n') = zs_name (ns_base n)"
proof -
  obtain s0 h0 where "finish e s h = (s0, h0)" by (metis surj_pair)
  moreover obtain s1 h1 where "TcpServer_delete e s0 h0 = (s1, h1)" by (metis surj_pair)
  moreover obtain z h2 where z: "ZmqStack_delete (ns_base n, h1) = (z, h2)" by (metis surj_pair)
  ultimately have "n' = n\<lparr>ns_clients := {}, ns_base := z\<rparr>" using assms by (simp add: NetStack_delete_def)
  then show ?thesis using ZmqStack_delete_keeps[OF z] by simp
qed


definition no_config :: "unit yaml_lib" where
  "no_config = \<lparr>yl_load = (\<lambda>_. None), yl_int = (\<lambda>_. None), yl_uint16 = (\<lambda>_. None), yl_string = (\<lambda>_. None),
     yl_strings = (\<lambda>_. None), yl_is_sequence = (\<lambda>_. False), yl_is_map = (\<lambda>_. False), yl_entries = (\<lambda>_. [])\<rparr>"


end
