(* ===== verification/NetThreads.thy ===== *)
theory NetThreads
  imports NetStack
begin

text \<open>
  \<open>net-stack/NetStack.cpp\<close> as the callback recipient of the interleaved server: the properties
  of \<open>ServerThreads\<close> and \<open>ServerSafety\<close> for a NetStack from its construction on.
\<close>

section \<open>The contract, and what the notifications call\<close>

lemma publishing_quiet: "ext_by publishing h h' \<Longrightarrow> fd_quiet h h'"
  by (erule ext_by_mono) (auto elim: publishing.elims)

lemma fd_quiet_log [simp]: "fd_quiet h (log_info m h)"
  by (simp add: log_info_def ext_by_def)

lemma onReceiveClientData_quiet:
  assumes "NetStack_onReceiveClientData e fd msg (s, n, h) = (r, s', n', h')"
  shows "fd_quiet h h'"
proof (cases "ns_pubTopics n")
  case (Cons topic topics)
  define h1 where "h1 = log_info (''Received message '' @ msg @ '' from client '' @ show_int fd @
                     '', publishing to topic '' @ topic) h"
  obtain q z h2 where pub: "ZmqStack_Publish_all e (ns_pubTopics n) msg (ns_base n, h1) = (q, z, h2)"
    by (metis surj_pair)
  have "fd_quiet h1 h2" by (rule publishing_quiet[OF Publish_all_ext[OF pub]])
  moreover have "fd_quiet h h1" by (simp add: h1_def)
  moreover have "h' = h2"
    using assms pub Cons by (cases q) (auto simp: NetStack_onReceiveClientData_def h1_def Let_def)
  ultimately show ?thesis by (blast intro: ext_by_trans)
qed (use assms in \<open>simp add: NetStack_onReceiveClientData_def\<close>)

interpretation net_quiet: quiet_listener "NetStack_callbacks e" ns_clients for e
proof unfold_locales
  fix fd s c h r s' c' h'
  assume "onClientConnect (NetStack_callbacks e) fd (s, c, h) = (r, s', c', h')"
  then show "fd_quiet h h'"
    by (auto simp: NetStack_callbacks_def NetStack_onClientConnect_def split: option.splits)
next
  fix fd data s c h r s' c' h'
  assume "onReceiveClientData (NetStack_callbacks e) fd data (s, c, h) = (r, s', c', h')"
  then show "fd_quiet h h'" using onReceiveClientData_quiet by (simp add: NetStack_callbacks_def)
next
  fix fd ret s c h r s' c' h'
  assume "onClientDisconnect (NetStack_callbacks e) fd ret (s, c, h) = (r, s', c', h')"
  then show "fd_quiet h h'" by (auto simp: NetStack_callbacks_def NetStack_onClientDisconnect_def)
qed

text \<open>A NetStack whose server has started satisfies the invariant, with nothing registered.\<close>

lemma NetStack_new_system:
  assumes "NetStack_new e sock name pubEndpoints subEndpoint subTopics pubTopics port h = (Inr (), s, n, h1)"
    and "srv_joinable s"
  shows "net_listener.system_ok e (srv_sockfd s) (AtHead, [], s, n, h1)" and "ns_clients n = {}"
proof -
  have "net_listener.system_inv e (srv_sockfd s) (accepted_on h1) (Looping, s, n, h1)"
    by (rule NetStack_new_inv[OF assms])
  then have sync: "net_listener.in_sync e (s, n, h1)" by (simp add: net_listener.system_inv_def)
  then show "net_listener.system_ok e (srv_sockfd s) (AtHead, [], s, n, h1)"
    by (simp add: net_listener.system_ok_def pointers_ok_def)
  show "ns_clients n = {}"
    using assms by (auto simp: NetStack_new_def Let_def split: prod.splits sum.splits if_splits)
qed

text \<open>The constructor's own calls use the descriptor it has just got.\<close>

lemma NetStack_new_safe:
  assumes "NetStack_new e sock name pubEndpoints subEndpoint subTopics pubTopics port h = (Inr (), s, n, h1)"
    and "srv_joinable s" and "fd_safe e h"
  shows "fd_safe e h1"
proof -
  obtain base h0 where base: "ZmqStack_new e sock name pubEndpoints subEndpoint [] [] subTopics h = (base, h0)"
    by (metis surj_pair)
  then have "fd_quiet h h0"
    by (auto simp: ZmqStack_new_def Publisher_new_def zmq_defs Let_def ext_by_def
        split: if_splits prod.splits option.splits sum.splits error.splits)
  then have h0: "fd_safe e h0" using assms(3) by (rule fd_safe_quiet)
  obtain ret h2 where start: "start e port (TcpServer_init None) h0 = (Inr ret, s, h2)"
    and ext: "h1 = log_info (''Listening on 0.0.0.0:'' @ show_nat (unat port)) h2 \<or>
      h1 = log_error (''Error setting up UDP socket: '' @ m_msg ret) h2"
    using assms(1) base by (auto simp: NetStack_new_def Let_def split: prod.splits sum.splits if_splits)
  let ?socket = "h0 @ [SysSocket AF_INET SOCK_STREAM 0]"
  have "m_success ret" using start_cases[OF start] assms(2) by (auto simp: TcpServer_init_def)
  with start_cases[OF start] have sock: "srv_sockfd s = int_result e h0 (SysSocket AF_INET SOCK_STREAM 0)"
    "srv_sockfd s \<noteq> INVALID_SOCKET"
    and h2: "h2 = ?socket @ tl (start_calls e port (TcpServer_init None) (srv_sockfd s))"
    by (auto simp: start_calls_def)
  have "fd_safe e h2" unfolding h2
    by (rule fd_safe_uses[where fd = "srv_sockfd s"])
       (use h0 sock in \<open>auto simp: start_calls_def INVALID_SOCKET_def\<close>)
  then show ?thesis using ext by (auto simp: log_info_def log_error_def)
qed

section \<open>Data on its way from a client to the topics\<close>

text \<open>What has been read and not been handed to \<open>onReceiveClientData\<close> yet.\<close>

fun in_hand :: "pc \<Rightarrow> (int \<times> string) list" where
  "in_hand (Received fd n data _) = (if n < 1 then [] else [(fd, data)])"
| "in_hand _ = []"

definition relaying :: "env \<Rightarrow> nat \<Rightarrow> string list \<Rightarrow> history \<Rightarrow> pc \<Rightarrow> history \<Rightarrow> bool" where
  "relaying e sock topics h pc h' \<longleftrightarrow>
     (\<exists>new. received e h' = received e h @ new @ in_hand pc \<and> sent_on sock h' = sent_on sock h @ relay_of topics new)"

definition relays :: "env \<Rightarrow> nat \<Rightarrow> string list \<Rightarrow> history \<Rightarrow> NetStack system \<Rightarrow> bool" where
  "relays e sock topics h0 x \<longleftrightarrow> (case x of (pc, ps, s, n, h) \<Rightarrow>
     failed pc \<or> (relaying e sock topics h0 pc h \<and> net_socket n = sock \<and> ns_pubTopics n = topics))"

lemma relaying_silent:
  assumes "relaying e sock topics h0 pc h" and "ext_by relay_silent h h'" and "in_hand pc' = in_hand pc"
  shows "relaying e sock topics h0 pc' h'"
proof -
  obtain cs where cs: "h' = h @ cs" "list_all relay_silent cs" using assms(2) by (auto simp: ext_by_def)
  have "received e h' = received e h"
    by (rule received_ext[OF assms(2)]) (auto elim: relay_silent.elims)
  then show ?thesis using assms(1,3) cs by (simp add: relaying_def sent_on_silent)
qed

lemma relays_silent:
  assumes "relays e sock topics h0 (pc, ps, s, n, h)" and "\<not> failed pc"
    and "ext_by relay_silent h h'" and "in_hand pc' = in_hand pc"
    and "ns_base n' = ns_base n" and "ns_pubTopics n' = ns_pubTopics n"
  shows "relays e sock topics h0 (pc', ps', s', n', h')"
  using assms relaying_silent[OF _ assms(3,4)] by (simp add: relays_def)

lemma relay_silent_log [simp]: "ext_by relay_silent h (log_info m h)"
  by (simp add: log_info_def ext_by_def)

lemma recv_in_hand:
  assumes "core_Recv e fd MAX_PACKET_SIZE h = ((n, data), h')"
  shows "h' = h @ [SysRecv fd MAX_PACKET_SIZE] \<and>
    received_by e h (SysRecv fd MAX_PACKET_SIZE) = in_hand (Received fd n data fds)"
  using assms by (auto simp: core_simps received_by_def min_is_0 MAX_PACKET_SIZE_def split: option.splits)

lemma data_relayed:
  assumes "relays e sock topics h0 (Received fd k data fds, ps, s, n, h)" and "\<not> k < 1"
    and "NetStack_onReceiveClientData e fd data (s, n, h) = (Inr (), s', n', h')"
  shows "relays e sock topics h0 (Scanning fds, ps', s', n', h')"
proof -
  note eff = onReceiveClientData_ok[OF assms(3)]
  obtain new where new: "received e h = received e h0 @ new @ [(fd, data)]"
    "sent_on sock h = sent_on sock h0 @ relay_of topics new" and n: "net_socket n = sock" "ns_pubTopics n = topics"
    using assms(1,2) by (auto simp: relays_def relaying_def)
  have "received e h' = received e h0 @ (new @ [(fd, data)])" using eff(8) new(1) by simp
  moreover have "sent_on sock h' = sent_on sock h0 @ relay_of topics (new @ [(fd, data)])"
    using eff(6) new(2) n by (simp add: relay_of_def)
  ultimately have "relaying e sock topics h0 (Scanning fds) h'" unfolding relaying_def by (intro exI conjI) simp_all
  then show ?thesis using eff(5,7) n by (simp add: relays_def)
qed

lemma thread_move_relays:
  assumes rel: "relays e sock topics h0 (pc, ps, s, n, h)" and live: "\<not> halted pc"
    and move: "thread_move e (NetStack_callbacks e) pc (s, n, h) = (evs, pc', s', n', h')"
  shows "relays e sock topics h0 (pc', ps', s', n', h')"
proof (cases "failed pc'")
  case False
  have nf: "\<not> failed pc" using live by (auto elim: failed.elims)
  note silent = relays_silent[OF rel nf]
  show ?thesis
  proof (cases pc)
    case AtHead
    then show ?thesis using move
      by (intro silent)
         (auto simp: select_ready_def core_simps Let_def ext_by_def split: if_splits)
  next
    case (Scanning fds)
    then show ?thesis using move by (cases fds) (auto intro!: silent)
  next
    case (ClientFound fd fds)
    obtain k data h1 where recv: "core_Recv e fd MAX_PACKET_SIZE h = ((k, data), h1)" by (metis surj_pair)
    note got = recv_in_hand[OF recv, of fds]
    have "relaying e sock topics h0 (Received fd k data fds) h1"
      using rel ClientFound got by (auto simp: relays_def relaying_def received_snoc sent_on_silent)
    then show ?thesis using rel ClientFound move recv by (auto simp: relays_def)
  next
    case (Received fd k data fds)
    show ?thesis
    proof (cases "k < 1")
      case True
      then show ?thesis using move Received by (intro silent) auto
    next
      case k: False
      then have "NetStack_onReceiveClientData e fd data (s, n, h) = (Inr (), s', n', h') \<and> pc' = Scanning fds"
        using move Received False
        by (auto simp: notified_def NetStack_callbacks_def split: prod.splits sum.splits)
      then show ?thesis using data_relayed[OF rel[unfolded Received] k] by simp
    qed
  next
    case (Erasing fd fds)
    obtain r s1 h1 where del: "deleteClient e fd s h = (r, s1, h1)" by (metis surj_pair)
    from deleteClient_silent[OF this] show ?thesis
      using move Erasing False del by (cases r) (auto intro!: silent)
  next
    case (Erased fd fds)
    then show ?thesis using move False
      by (intro silent) (auto simp: notified_def publishDisconnected_def NetStack_callbacks_def NetStack_onClientDisconnect_def)
  next
    case (AcceptFound fd fds)
    then show ?thesis using move
      by (intro silent) (auto simp: core_simps Let_def ext_by_def split: if_splits)
  next
    case (Accepted fd fds)
    then show ?thesis using move by (intro silent) (auto simp: Let_def)
  next
    case (Emplaced fd fds)
    then show ?thesis using move False by (intro silent) (auto split: sum.splits)
  next
    case (Watched fd fds)
    then show ?thesis using move False
      by (intro silent)
         (auto simp: notified_def NetStack_callbacks_def NetStack_onClientConnect_def split: option.splits)
  qed (use live in auto)
qed (simp add: relays_def)

lemma system_step_relays:
  assumes rel: "relays e sock topics h0 (pc, ps, s, n, h)"
    and step: "system_step e (NetStack_callbacks e) (pc, ps, s, n, h) a (pc', ps', s', n', h')"
  shows "relays e sock topics h0 (pc', ps', s', n', h')"
  using step
proof (cases rule: system_stepE [consumes 1, case_names by_thread by_broadcast by_lookup by_use by_dangling
      by_stop by_finish])
  case by_thread
  then show ?thesis using thread_move_relays[OF rel] by auto
next
  case (by_broadcast msg)
  then show ?thesis using relays_silent[OF rel _ sendBcast_silent] by auto
next
  case (by_use i k msg client)
  then show ?thesis using relays_silent[OF rel _ sends_silent] by auto
next
  case (by_finish s1 h1)
  then have "ext_by relay_silent h h'" by (auto simp: finish_joined_eq ext_by_def list_all_iff)
  then show ?thesis using relays_silent[OF rel] by_finish by auto
qed (use rel in \<open>auto simp: relays_def\<close>)

lemma system_run_relays:
  assumes run: "system_run e (NetStack_callbacks e) (pc0, ps0, s, n, h) as x" and "in_hand pc0 = []"
  shows "relays e (net_socket n) (ns_pubTopics n) h x"
proof (rule system_run_invariant[OF run])
  show "relays e (net_socket n) (ns_pubTopics n) h (pc0, ps0, s, n, h)"
    using assms(2) by (simp add: relays_def relaying_def relay_of_def)
  fix as pc ps s1 n1 h1 a z
  assume "relays e (net_socket n) (ns_pubTopics n) h (pc, ps, s1, n1, h1)"
    and "system_step e (NetStack_callbacks e) (pc, ps, s1, n1, h1) a z"
  then show "relays e (net_socket n) (ns_pubTopics n) h z"
    using system_step_relays by (cases z) blast
qed

section \<open>Properties\<close>

text \<open>A run in which one client has connected: the run of \<open>NetStack\<close>, action by action.\<close>

lemma demo_system_run:
  "\<exists>as s n h. system_run busy_env (NetStack_callbacks busy_env) (AtHead, [], demo_start) as (Scanning [], [], s, n, h) \<and>
     handles s = {4}"
proof -
  obtain s n h where "server_steps busy_env (NetStack_callbacks busy_env) (Looping, demo_start) (Handling [], s, n, h)"
    "handles s = {4}" using demo_run by blast
  moreover obtain s0 n0 h0 where d: "demo_start = (s0, n0, h0)" by (cases demo_start)
  ultimately show ?thesis
    using server_steps_run[of busy_env "NetStack_callbacks busy_env" Looping s0 n0 h0 "Handling []" s n h]
    by auto
qed

text \<open>C1: at every point of every interleaving of the server thread with broadcasts, the two
  halves of sends to one client and the stop request, until \<open>finish\<close> has closed everything, the
  NetStack's set of clients is the server's table, but for the one client whose connection or
  disconnection it is just being told of; the \<open>fd_set\<close> is the accept socket and the clients,
  but for the one just being added; and every descriptor of the table is open.\<close>

theorem clients_agree_at_every_point:
  assumes "posix_fds e"
    and "NetStack_new e sock name pubEndpoints subEndpoint subTopics pubTopics port h = (Inr (), s, n, h1)"
    and "srv_joinable s"
    and "system_run e (NetStack_callbacks e) (AtHead, [], s, n, h1) as (pc, ps, s', n', h')"
    and "\<not> failed pc" and "pc \<noteq> AllClosed"
  shows "ns_clients n' = announced pc (handles s') \<and>
     srv_fds s' = insert (srv_sockfd s') (watched pc (handles s')) \<and>
     (\<forall>fd \<in> insert (srv_sockfd s') (handles s'). fd \<in> open_fds e h')"
proof -
  have ok: "net_listener.system_ok e (srv_sockfd s) (pc, ps, s', n', h')"
    using net_listener.system_run_ok[OF assms(1,4) NetStack_new_system(1)[OF assms(2,3)]] by blast
  note register = net_listener.system_ok_register[OF ok assms(5,6)]
  have "srv_fds s' = insert (srv_sockfd s') (watched pc (handles s'))"
    by (rule net_listener.system_ok_fd_set[OF ok assms(5,6)])
  with register show ?thesis by blast
qed

theorem clients_agree_at_every_point_witness:
  "\<exists>as s n h. system_run busy_env (NetStack_callbacks busy_env) (AtHead, [], demo_start) as (Scanning [], [], s, n, h) \<and>
     ns_clients n = {4} \<and> 4 \<in> srv_fds s \<and> 4 \<in> open_fds busy_env h"
proof -
  obtain as s n h where run: "system_run busy_env (NetStack_callbacks busy_env) (AtHead, [], demo_start) as (Scanning [], [], s, n, h)"
    "handles s = {4}" using demo_system_run by blast
  obtain s0 n0 h0 where d: "demo_start = (s0, n0, h0)" by (cases demo_start)
  note new = demo_new[unfolded d fst_conv snd_conv]
  have "ns_clients n = {4}" "4 \<in> srv_fds s" "4 \<in> open_fds busy_env h"
    using clients_agree_at_every_point[OF posix_fds_numbers[OF numbers_fds_busy] new(1,2) run(1)[unfolded d]] run(2)
    by simp_all
  with run show ?thesis by blast
qed

text \<open>C2: no call is ever made on a descriptor that is not open, from the construction of a
  NetStack to the end of \<open>finish\<close>, whatever the interleaving and whatever fails: what is
  selected, received from, sent to, accepted on or closed has been opened and not closed since;
  in particular nothing is closed twice. And \<open>accept\<close> is only called on the accept socket,
  although the code takes every descriptor that is not in the table for it.\<close>

theorem calls_on_open_descriptors:
  assumes "posix_fds e"
    and "NetStack_new e sock name pubEndpoints subEndpoint subTopics pubTopics port h = (Inr (), s, n, h1)"
    and "srv_joinable s" and "fd_safe e h"
    and "system_run e (NetStack_callbacks e) (AtHead, [], s, n, h1) as (pc, ps, s', n', h')"
  shows "fd_safe e h' \<and> accepted_on h' \<subseteq> insert (srv_sockfd s) (accepted_on h1)"
proof -
  have "fd_safe e h1" by (rule NetStack_new_safe[OF assms(2,3,4)])
  from net_quiet.system_run_safe[OF assms(1,5) NetStack_new_system(1)[OF assms(2,3)] this]
  show ?thesis .
qed

theorem calls_on_open_descriptors_witness:
  "\<exists>as s n h. system_run busy_env (NetStack_callbacks busy_env) (AtHead, [], demo_start) as (Scanning [], [], s, n, h) \<and>
     handles s = {4} \<and> fd_safe busy_env h"
proof -
  obtain as s n h where run: "system_run busy_env (NetStack_callbacks busy_env) (AtHead, [], demo_start) as (Scanning [], [], s, n, h)"
    "handles s = {4}" using demo_system_run by blast
  obtain s0 n0 h0 where d: "demo_start = (s0, n0, h0)" by (cases demo_start)
  note new = demo_new[unfolded d fst_conv snd_conv]
  have "fd_safe busy_env h"
    using calls_on_open_descriptors[OF posix_fds_numbers[OF numbers_fds_busy] new(1,2) fd_safe_Nil
        run(1)[unfolded d]] by blast
  with run show ?thesis by blast
qed

text \<open>C4: the notifications a NetStack gets refine the life of a connection, however the threads
  interleave: each client is announced once while it is not known, its data arrives only in
  between, never empty and never longer than the receive buffer, and it is withdrawn once. As
  long as the process has not failed, the NetStack's set of clients is exactly the state the
  specification has reached.\<close>

theorem notifications_refine_connections:
  assumes "posix_fds e"
    and "NetStack_new e sock name pubEndpoints subEndpoint subTopics pubTopics port h = (Inr (), s, n, h1)"
    and "srv_joinable s"
    and "system_run e (NetStack_callbacks e) (AtHead, [], s, n, h1) as (pc, ps, s', n', h')"
  shows "\<exists>live. conn_spec {} (events_of as) = Some live \<and> (\<not> failed pc \<longrightarrow> live = ns_clients n')"
proof -
  note init = NetStack_new_system[OF assms(2,3)]
  from net_listener.system_run_ok[OF assms(1,4) init(1)] show ?thesis unfolding init(2) by blast
qed

theorem notifications_refine_connections_witness:
  "\<exists>as s n h. system_run busy_env (NetStack_callbacks busy_env) (AtHead, [], demo_start) as (Scanning [], [], s, n, h) \<and>
     handles s = {4} \<and> conn_spec {} (events_of as) = Some (ns_clients n)"
proof -
  obtain as s n h where run: "system_run busy_env (NetStack_callbacks busy_env) (AtHead, [], demo_start) as (Scanning [], [], s, n, h)"
    "handles s = {4}" using demo_system_run by blast
  obtain s0 n0 h0 where d: "demo_start = (s0, n0, h0)" by (cases demo_start)
  note new = demo_new[unfolded d fst_conv snd_conv]
  have "conn_spec {} (events_of as) = Some (ns_clients n)"
    using notifications_refine_connections[OF posix_fds_numbers[OF numbers_fds_busy] new(1,2) run(1)[unfolded d]]
    by simp
  with run show ?thesis by blast
qed

text \<open>C6: \<open>finish\<close> can wait for the thread. From any reachable point with \<open>m_stop\<close> set, the thread
  takes at most five actions for each client in the table and eleven more, whatever the other
  threads do in between; and after that many actions of its own it has left the loop (or the
  process has failed), so the join returns provided the kernel's calls do.\<close>

theorem stop_request_ends_thread:
  assumes "posix_fds e"
    and "NetStack_new e sock name pubEndpoints subEndpoint subTopics pubTopics port h = (Inr (), s, n, h1)"
    and "srv_joinable s"
    and "system_run e (NetStack_callbacks e) (AtHead, [], s, n, h1) as (pc, ps, s', n', h')"
    and "srv_stop s'"
  shows "(\<forall>bs y. system_run e (NetStack_callbacks e) (pc, ps, s', n', h') bs y \<longrightarrow>
        moves_of bs \<le> 5 * length (srv_clients s') + 11) \<and>
     (\<exists>pc' st'. thread_run (5 * length (srv_clients s') + 11) e (NetStack_callbacks e) (pc, s', n', h') = (pc', st') \<and>
        halted pc')"
proof -
  have ok: "net_listener.system_ok e (srv_sockfd s) (pc, ps, s', n', h')"
    using net_listener.system_run_ok[OF assms(1,4) NetStack_new_system(1)[OF assms(2,3)]] by blast
  note bound = net_listener.rank_bound[OF ok]
  have "moves_of bs \<le> 5 * length (srv_clients s') + 11"
    if run: "system_run e (NetStack_callbacks e) (pc, ps, s', n', h') bs y" for bs y
  proof -
    obtain pc2 ps2 s2 n2 h2 where "y = (pc2, ps2, s2, n2, h2)" by (metis surj_pair)
    from net_listener.system_run_stop[OF assms(1) ok assms(5) run[unfolded this]] bound show ?thesis by simp
  qed
  moreover note net_listener.thread_run_halts[OF assms(1) ok assms(5) bound]
  ultimately show ?thesis by blast
qed

theorem stop_request_ends_thread_witness:
  "\<exists>as s n h. system_run busy_env (NetStack_callbacks busy_env) (AtHead, [], demo_start) as (Scanning [], [], s, n, h) \<and>
     srv_stop s \<and> handles s = {4} \<and>
     (\<exists>pc' st'. thread_run (5 * length (srv_clients s) + 11) busy_env (NetStack_callbacks busy_env)
        (Scanning [], s, n, h) = (pc', st') \<and> halted pc')"
proof -
  obtain as s n h where run: "system_run busy_env (NetStack_callbacks busy_env) (AtHead, [], demo_start) as (Scanning [], [], s, n, h)"
    "handles s = {4}" using demo_system_run by blast
  have "system_run busy_env (NetStack_callbacks busy_env) (AtHead, [], demo_start) (as @ [Stop])
      (Scanning [], [], request_stop s, n, h)"
    by (rule run_more[OF run(1)]) (simp add: by_stop)
  moreover obtain s0 n0 h0 where d: "demo_start = (s0, n0, h0)" by (cases demo_start)
  ultimately have stopped: "system_run busy_env (NetStack_callbacks busy_env) (AtHead, [], s0, n0, h0) (as @ [Stop])
      (Scanning [], [], request_stop s, n, h)" by simp
  note new = demo_new[unfolded d fst_conv snd_conv]
  have stop: "srv_stop (request_stop s)" "handles (request_stop s) = {4}"
    using run(2) by (simp_all add: request_stop_def)
  note stop_request_ends_thread[OF posix_fds_numbers[OF numbers_fds_busy] new(1,2) stopped stop(1)]
  with stopped stop show ?thesis unfolding d by blast
qed

text \<open>C3: at every point of every such interleaving, what has gone out on the NetStack's publisher
  is exactly the data read from the clients up to then, in the order it was read, each piece
  once on every topic of \<open>m_pubTopics\<close> in the order of that list, but for the one piece that
  has been read and is not handed over yet.\<close>

theorem data_published_at_every_point:
  assumes "system_run e (NetStack_callbacks e) (pc0, ps0, s, n, h) as (pc, ps, s', n', h')"
    and "in_hand pc0 = []" and "\<not> failed pc"
  shows "\<exists>new. received e h' = received e h @ new @ in_hand pc \<and>
     sent_on (pub_socket (zs_publisher (ns_base n))) h' =
       sent_on (pub_socket (zs_publisher (ns_base n))) h @
       concat (map (\<lambda>(_, data). map (\<lambda>topic. [topic, data]) (ns_pubTopics n)) new)"
  using system_run_relays[OF assms(1,2)] assms(3) by (simp add: relays_def relaying_def relay_of_def)

theorem data_published_at_every_point_witness:
  "\<exists>as s n h. system_run chatty_env (NetStack_callbacks chatty_env) (Scanning [4], [], one_client, chatty_net, []) as
       (Scanning [], [], s, n, h) \<and>
     sent_on 0 h = [[''i'', ''hello''], [''j'', ''hello'']]"
proof -
  obtain s' n' h' where handle: "handle_fd chatty_env (NetStack_callbacks chatty_env) 4 (one_client, chatty_net, []) =
     (Inr (), s', n', h')" "received chatty_env h' = [(4, ''hello'')]"
    using chatty_handle by blast
  obtain m where "thread_run m chatty_env (NetStack_callbacks chatty_env) (Scanning [4], one_client, chatty_net, []) =
      (Scanning [], s', n', h')"
    using handle_fd_run[of chatty_env "NetStack_callbacks chatty_env" 4 "[]" "(one_client, chatty_net, [])"] handle(1)
    by (auto simp: ended_def)
  from thread_run_system[OF this] obtain as where
    run: "system_run chatty_env (NetStack_callbacks chatty_env) (Scanning [4], [], one_client, chatty_net, []) as
       (Scanning [], [], s', n', h')" by blast
  have "sent_on 0 h' = [[''i'', ''hello''], [''j'', ''hello'']]"
    using data_published_at_every_point[OF run] handle(2) chatty_net_fields by simp
  with run show ?thesis by blast
qed

text \<open>C16: \<open>sendClientMessage\<close> keeps a pointer to the client after it has released the lock. A send
  that looks its client up just before the server thread removes it, and goes on just after,
  uses the erased entry, whatever the kernel answers; nothing is sent.\<close>

theorem send_races_with_removal:
  assumes "srv_inv e s h" and "k \<in> handles s"
  shows "\<exists>s'. system_run e cb (Erasing k fds, ps, s, c, h) [Lookup k msg, Thread [], Use (length ps)]
     (Failed (Undefined ''use of an erased client''), erase_node k ps, s', c, h @ [SysClose k])"
proof -
  obtain s' where del: "deleteClient e k s h = (Inr True, s', h @ [SysClose k])"
    using deleteClient_inv[OF assms] by auto
  have look: "system_step e cb (Erasing k fds, ps, s, c, h) (Lookup k msg) (Erasing k fds, ps @ [(k, msg, True)], s, c, h)"
    by (rule by_lookup) (use assms(2) in simp_all)
  have "system_step e cb (Erasing k fds, ps @ [(k, msg, True)], s, c, h) (Thread [])
      (Erased k fds, after_move (Erased k fds) (ps @ [(k, msg, True)]), s', c, h @ [SysClose k])"
    by (rule by_thread) (simp_all add: del)
  then have erase: "system_step e cb (Erasing k fds, ps @ [(k, msg, True)], s, c, h) (Thread [])
      (Erased k fds, erase_node k ps @ [(k, msg, False)], s', c, h @ [SysClose k])"
    by (simp add: erase_node_def)
  have len: "length (erase_node k ps) = length ps" by (simp add: erase_node_def)
  have "system_step e cb (Erased k fds, erase_node k ps @ [(k, msg, False)], s', c, h @ [SysClose k])
      (Use (length ps)) (Failed (Undefined ''use of an erased client''),
        take (length ps) (erase_node k ps @ [(k, msg, False)]) @
        drop (Suc (length ps)) (erase_node k ps @ [(k, msg, False)]), s', c, h @ [SysClose k])"
    by (rule by_dangling) (simp_all add: len nth_append)
  then have use: "system_step e cb (Erased k fds, erase_node k ps @ [(k, msg, False)], s', c, h @ [SysClose k])
      (Use (length ps)) (Failed (Undefined ''use of an erased client''), erase_node k ps, s', c, h @ [SysClose k])"
    by (simp add: len)
  from system_run_cons[OF look system_run_cons[OF erase system_run_cons[OF use run_none]]]
  show ?thesis by blast
qed

theorem send_races_with_removal_witness:
  "\<exists>s'. system_run quiet_env silent_callbacks (Erasing 4 [], [], one_client, (), one_client_history)
     [Lookup 4 ''hello'', Thread [], Use 0]
     (Failed (Undefined ''use of an erased client''), [], s', (), one_client_history @ [SysClose 4])"
  using send_races_with_removal[OF one_client_inv[OF numbers_fds_quiet], of 4 silent_callbacks "[]" "[]" "()" "''hello''"]
  by (simp add: one_client_def erase_node_def)

end
