(* ===== verification/ConvThread.thy ===== *)
theory ConvThread
  imports ConvStack
begin

text \<open>
  \<open>conv-stack/ConvStack.cpp\<close> with the threads of \<open>common/Subscriber.h\<close> and \<open>common/Receiver.h\<close>, at the
  grain at which they interleave: the two loops \<open>Run\<close> cut into the actions between which another
  thread may act, the lock \<open>m_mutex\<close> of the converter, and the thread that owns the object, from
  the middle of its construction to the end of its destruction. A \<open>virtual\<close> call reaches the
  converter's handler only while the object is a \<open>ConvStack\<close>.
\<close>

section \<open>The state\<close>

datatype worker = SubThread | RcvThread

text \<open>
  Where a thread is: before its loop, at \<open>while (!m_shutdown)\<close>, about to poll, about to receive,
  with a message about to be handed over; in \<open>ConvStack::onReceivedMessage\<close> at the lock, past
  the lock, and in the loop of \<open>publishMsg\<close> with the topics still to come (with the topic, the
  text and all topics for the last log); at \<open>m_count++\<close>, in the \<open>catch\<close>, past the loop.
\<close>

datatype point =
    Absent
  | Starting
  | AtTop
  | Polling
  | Reading
  | Holding "string list"
  | Waiting "string list"
  | Looking "string list"
  | Sending "string list" string string "string list"
  | Counting
  | Caught int
  | Closing
  | Ended
  | Crashed error

text \<open>
  What the object is at the moment. The subscriber's thread starts before \<open>m_logger\<close> is
  constructed; while the constructor or the destructor of the base runs the object is a
  \<open>ZmqStack\<close>; the members of the converter live between the two.
\<close>

datatype phase = NoLogger | BaseOnly | NoMembers | Alive

text \<open>The owner: in the constructors, in service, in the destructor, and in \<open>ZmqStack::Stop\<close>.\<close>

datatype owner =
    InBase | InBody | InDerived | InMembers
  | Serving
  | Leaving
  | StopSubscriber | JoinSubscriber | StopPublisher | StopReceiver | JoinReceiver
  | Stopped

record conv_system =
  cs_conv :: ConvStack
  cs_sub :: point
  cs_rcv :: point
  cs_lock :: "worker option"
  cs_phase :: phase
  cs_owner :: owner
  cs_hist :: history

fun point_at :: "worker \<Rightarrow> conv_system \<Rightarrow> point" where
  "point_at SubThread S = cs_sub S"
| "point_at RcvThread S = cs_rcv S"

fun go_to :: "worker \<Rightarrow> point \<Rightarrow> conv_system \<Rightarrow> conv_system" where
  "go_to SubThread p S = S\<lparr>cs_sub := p\<rparr>"
| "go_to RcvThread p S = S\<lparr>cs_rcv := p\<rparr>"

fun crashed_at :: "point \<Rightarrow> bool" where
  "crashed_at (Crashed _) = True"
| "crashed_at _ = False"

abbreviation crashed :: "conv_system \<Rightarrow> bool" where
  "crashed S \<equiv> crashed_at (cs_sub S) \<or> crashed_at (cs_rcv S)"

text \<open>The parts of the shared object.\<close>

abbreviation sub_part :: "conv_system \<Rightarrow> Subscriber" where
  "sub_part S \<equiv> zs_subscriber (cv_base (cs_conv S))"

abbreviation rcv_part :: "conv_system \<Rightarrow> Receiver" where
  "rcv_part S \<equiv> the (zs_receiver (cv_base (cs_conv S)))"

definition on_base :: "(ZmqStack \<Rightarrow> ZmqStack) \<Rightarrow> conv_system \<Rightarrow> conv_system" where
  "on_base f S = S\<lparr>cs_conv := (cs_conv S)\<lparr>cv_base := f (cv_base (cs_conv S))\<rparr>\<rparr>"

definition on_sub :: "(Subscriber \<Rightarrow> Subscriber) \<Rightarrow> conv_system \<Rightarrow> conv_system" where
  "on_sub f = on_base (\<lambda>z. z\<lparr>zs_subscriber := f (zs_subscriber z)\<rparr>)"

definition on_rcv :: "(Receiver \<Rightarrow> Receiver) \<Rightarrow> conv_system \<Rightarrow> conv_system" where
  "on_rcv f = on_base (\<lambda>z. z\<lparr>zs_receiver := map_option f (zs_receiver z)\<rparr>)"

section \<open>What differs between the two loops\<close>

fun socket_of :: "worker \<Rightarrow> conv_system \<Rightarrow> nat" where
  "socket_of SubThread S = sub_socket (sub_part S)"
| "socket_of RcvThread S = rcv_socket (rcv_part S)"

fun told_to_stop :: "worker \<Rightarrow> conv_system \<Rightarrow> bool" where
  "told_to_stop SubThread S = sub_shutdown (sub_part S)"
| "told_to_stop RcvThread S = rcv_shutdown (rcv_part S)"

fun set_up :: "env \<Rightarrow> worker \<Rightarrow> conv_system \<Rightarrow> unit outcome \<times> history" where
  "set_up e SubThread S = sub_setup e (sub_part S) (cs_hist S)"
| "set_up e RcvThread S = rcv_setup e (rcv_part S) (cs_hist S)"

fun count_one :: "worker \<Rightarrow> conv_system \<Rightarrow> conv_system" where
  "count_one SubThread S = on_sub (\<lambda>s. s\<lparr>sub_count := sub_count s + 1\<rparr>) S"
| "count_one RcvThread S = on_rcv (\<lambda>r. r\<lparr>rcv_count := rcv_count r + 1\<rparr>) S"

fun count_message :: "worker \<Rightarrow> conv_system \<Rightarrow> conv_system" where
  "count_message SubThread S = on_sub (\<lambda>s. s\<lparr>sub_total := sub_total s + 1\<rparr>) S"
| "count_message RcvThread S = on_rcv (\<lambda>r. r\<lparr>rcv_total := rcv_total r + 1\<rparr>) S"

fun close_socket :: "worker \<Rightarrow> conv_system \<Rightarrow> conv_system" where
  "close_socket SubThread S =
     (case sub_close (sub_part S, (), cs_hist S) of (s, _, h) \<Rightarrow> (on_sub (\<lambda>_. s) S)\<lparr>cs_hist := h\<rparr>)"
| "close_socket RcvThread S =
     (case rcv_close (rcv_part S, (), cs_hist S) of (r, _, h) \<Rightarrow> (on_rcv (\<lambda>_. r) S)\<lparr>cs_hist := h\<rparr>)"

section \<open>One action of a thread\<close>

text \<open>
  \<open>Route\<close> marks the action that decides where a message goes; the others are those of the owner:
  conversions added and removed, those the socket refused, the destructor, and steps of a
  constructor, of the destructor or of \<open>Stop\<close>.
\<close>

datatype conv_action =
    Move worker
  | Route worker "string list"
  | Add string "string list"
  | Remove string
  | Refused string
  | Leave
  | Own

text \<open>The end of the region under the lock; the lock is a member of the converter.\<close>

definition unlock :: "worker \<Rightarrow> point \<Rightarrow> conv_system \<Rightarrow> conv_system" where
  "unlock w p S =
     (if cs_phase S = Alive then (go_to w p S)\<lparr>cs_lock := None\<rparr>
      else go_to w (Crashed (Undefined ''m_mutex of a destroyed ConvStack'')) S)"

text \<open>The \<open>virtual\<close> call of \<open>onReceivedMessage\<close>.\<close>

definition hand_over :: "worker \<Rightarrow> string list \<Rightarrow> conv_system \<Rightarrow> conv_system" where
  "hand_over w msgs S =
     (case cs_phase S of
        NoLogger \<Rightarrow> go_to w (Crashed (Undefined ''m_logger before its construction'')) S
      | BaseOnly \<Rightarrow>
          (case ZmqStack_onReceivedMessage msgs ((), cs_hist S) of
             (Inl err, _, h) \<Rightarrow> (go_to w (Crashed err) S)\<lparr>cs_hist := h\<rparr>
           | (Inr _, _, h) \<Rightarrow> (go_to w Counting S)\<lparr>cs_hist := h\<rparr>)
      | NoMembers \<Rightarrow> go_to w (Crashed (Undefined ''m_mutex of no ConvStack'')) S
      | Alive \<Rightarrow> go_to w (Waiting msgs) S)"

text \<open>The body of the subscriber's loop looks at the topic first, the receiver's does not.\<close>

fun dispatch :: "worker \<Rightarrow> string list \<Rightarrow> conv_system \<Rightarrow> conv_system" where
  "dispatch SubThread msgs S =
     (case msgs of
        [] \<Rightarrow> go_to SubThread (Crashed (Undefined ''msgs[0] of an empty vector'')) S
      | topic # _ \<Rightarrow>
          if topic = WELCOME_TOPIC then (go_to SubThread AtTop S)\<lparr>cs_hist := log_info ''WELCOME_MSG received'' (cs_hist S)\<rparr>
          else if topic = CTRL_TOPIC then
            (if cs_phase S = NoLogger
             then go_to SubThread (Crashed (Undefined ''m_logger before its construction'')) S
             else (case ZmqStack_onCtrlMessage msgs ((), cs_hist S) of
                     (Inl err, _, h) \<Rightarrow> (go_to SubThread (Crashed err) S)\<lparr>cs_hist := h\<rparr>
                   | (Inr _, _, h) \<Rightarrow> (go_to SubThread AtTop S)\<lparr>cs_hist := h\<rparr>))
          else hand_over SubThread msgs (count_message SubThread S))"
| "dispatch RcvThread msgs S = hand_over RcvThread msgs (count_message RcvThread S)"

text \<open>Under the lock: the lookup, with the log that comes before it or the first send.\<close>

definition look_up :: "worker \<Rightarrow> string list \<Rightarrow> conv_system \<Rightarrow> conv_system" where
  "look_up w msgs S =
     (if cs_phase S \<noteq> Alive then go_to w (Crashed (Undefined ''m_conversionMap of a destroyed ConvStack'')) S
      else if msgs = [] then go_to w (Crashed (Undefined ''msgs[0] of an empty vector'')) S
      else
        let (topic, msg) = route_key msgs;
            h = (if length msgs = 1
                 then log_info (zs_name (cv_base (cs_conv S)) @ '' Receiver received message '' @ msg @ '' '') (cs_hist S)
                 else cs_hist S)
        in (case cv_map (cs_conv S) topic of
              None \<Rightarrow> unlock w Counting (S\<lparr>cs_hist := h\<rparr>)
            | Some topics \<Rightarrow>
                (go_to w (Sending topics topic msg topics) S)\<lparr>cs_hist :=
                   log_info (''Published message '' @ msg @ '' to topics '' @ fmt_join '' '' topics) h\<rparr>))"

text \<open>One round of the loop of \<open>publishMsg\<close>, and what comes after the loop.\<close>

fun send_next :: "env \<Rightarrow> worker \<Rightarrow> point \<Rightarrow> conv_system \<Rightarrow> conv_system" where
  "send_next e w (Sending (t # ts) topic msg topics) S =
     (case publishMsg e t msg (zs_publisher (cv_base (cs_conv S)), cs_hist S) of
        (r, p, h) \<Rightarrow>
          let S = (on_base (\<lambda>z. z\<lparr>zs_publisher := p\<rparr>) S)\<lparr>cs_hist := h\<rparr>
          in (case r of
                Inr _ \<Rightarrow> go_to w (Sending ts topic msg topics) S
              | Inl (ZmqError n) \<Rightarrow> unlock w (Caught n) S
              | Inl err \<Rightarrow> go_to w (Crashed err) S))"
| "send_next e w (Sending [] topic msg topics) S =
     unlock w Counting (S\<lparr>cs_hist :=
       log_info (zs_name (cv_base (cs_conv S)) @ '' receive message '' @ msg @ '' on topic '' @ topic @
         '' publishing to '' @ fmt_join '' '' topics) (cs_hist S)\<rparr>)"
| "send_next e w p S = S"

text \<open>\<open>None\<close>: the thread cannot act, because it is not there, has ended, or waits for the lock.\<close>

definition worker_move :: "env \<Rightarrow> worker \<Rightarrow> conv_system \<Rightarrow> (conv_action \<times> conv_system) option" where
  "worker_move e w S =
     (case point_at w S of
        Starting \<Rightarrow>
          (case set_up e w S of
             (Inl err, h) \<Rightarrow> Some (Move w, (go_to w (Crashed err) S)\<lparr>cs_hist := h\<rparr>)
           | (Inr _, h) \<Rightarrow> Some (Move w, (go_to w AtTop S)\<lparr>cs_hist := h\<rparr>))
      | AtTop \<Rightarrow> Some (Move w, go_to w (if told_to_stop w S then Closing else Polling) S)
      | Polling \<Rightarrow>
          (case zmq_poll e (socket_of w S) (cs_hist S) of
             (Inl (ZmqError n), h) \<Rightarrow> Some (Move w, (go_to w (Caught n) S)\<lparr>cs_hist := h\<rparr>)
           | (Inl err, h) \<Rightarrow> Some (Move w, (go_to w (Crashed err) S)\<lparr>cs_hist := h\<rparr>)
           | (Inr pollin, h) \<Rightarrow> Some (Move w, (go_to w (if pollin then Reading else Counting) S)\<lparr>cs_hist := h\<rparr>))
      | Reading \<Rightarrow>
          (case recv_multipart e (socket_of w S) (cs_hist S) of
             (Inl (ZmqError n), h) \<Rightarrow> Some (Move w, (go_to w (Caught n) S)\<lparr>cs_hist := h\<rparr>)
           | (Inl err, h) \<Rightarrow> Some (Move w, (go_to w (Crashed err) S)\<lparr>cs_hist := h\<rparr>)
           | (Inr (res, msgs), h) \<Rightarrow>
               Some (Move w, (go_to w (Holding msgs) S)\<lparr>cs_hist := if \<not> res then log_error ''Error receiving'' h else h\<rparr>))
      | Holding msgs \<Rightarrow> Some (Move w, dispatch w msgs S)
      | Waiting msgs \<Rightarrow>
          if cs_phase S \<noteq> Alive
          then Some (Move w, go_to w (Crashed (Undefined ''m_mutex of a destroyed ConvStack'')) S)
          else if cs_lock S = None then Some (Move w, (go_to w (Looking msgs) S)\<lparr>cs_lock := Some w\<rparr>)
          else None
      | Looking msgs \<Rightarrow> Some (Route w msgs, look_up w msgs S)
      | Sending ts topic msg topics \<Rightarrow> Some (Move w, send_next e w (Sending ts topic msg topics) S)
      | Counting \<Rightarrow> Some (Move w, go_to w AtTop (count_one w S))
      | Caught n \<Rightarrow>
          Some (Move w, (go_to w Closing S)\<lparr>cs_hist := log_error (''Caught exception '' @ zmq_strerror e n) (cs_hist S)\<rparr>)
      | Closing \<Rightarrow> Some (Move w, go_to w Ended (close_socket w S))
      | _ \<Rightarrow> None)"

section \<open>The owner\<close>

text \<open>
  \<open>None\<close>: the owner waits in \<open>join\<close>, or has no next step of its own. The receiver is made in the
  body of the base constructor; \<open>Stop\<close> ends the subscriber, closes the publisher and ends the
  receiver, in this order.
\<close>

definition owner_move :: "conv_system \<Rightarrow> conv_system option" where
  "owner_move S =
     (case cs_owner S of
        InBase \<Rightarrow> Some (S\<lparr>cs_phase := BaseOnly, cs_owner := InBody\<rparr>)
      | InBody \<Rightarrow>
          Some (S\<lparr>cs_rcv := (if zs_receiver (cv_base (cs_conv S)) = None then Absent else Starting), cs_owner := InDerived\<rparr>)
      | InDerived \<Rightarrow> Some (S\<lparr>cs_phase := NoMembers, cs_owner := InMembers\<rparr>)
      | InMembers \<Rightarrow> Some (S\<lparr>cs_phase := Alive, cs_owner := Serving\<rparr>)
      | Serving \<Rightarrow> Some (S\<lparr>cs_owner := StopSubscriber\<rparr>)
      | Leaving \<Rightarrow> Some (S\<lparr>cs_phase := BaseOnly, cs_owner := StopSubscriber\<rparr>)
      | StopSubscriber \<Rightarrow>
          if sub_joinable (sub_part S)
          then Some ((on_sub (\<lambda>s. s\<lparr>sub_shutdown := True\<rparr>) S)\<lparr>cs_owner := JoinSubscriber\<rparr>)
          else Some (S\<lparr>cs_owner := StopPublisher\<rparr>)
      | JoinSubscriber \<Rightarrow>
          if cs_sub S = Ended then Some ((on_sub (\<lambda>s. s\<lparr>sub_joinable := False\<rparr>) S)\<lparr>cs_owner := StopPublisher\<rparr>)
          else None
      | StopPublisher \<Rightarrow>
          (case Publisher_Stop (zs_publisher (cv_base (cs_conv S))) (cs_hist S) of
             (p, h) \<Rightarrow> Some ((on_base (\<lambda>z. z\<lparr>zs_publisher := p\<rparr>) S)\<lparr>cs_hist := h, cs_owner := StopReceiver\<rparr>))
      | StopReceiver \<Rightarrow>
          (case zs_receiver (cv_base (cs_conv S)) of
             Some r \<Rightarrow>
               if rcv_joinable r
               then Some ((on_rcv (\<lambda>r. r\<lparr>rcv_shutdown := True\<rparr>) S)\<lparr>cs_owner := JoinReceiver\<rparr>)
               else Some (S\<lparr>cs_owner := Stopped\<rparr>)
           | None \<Rightarrow> Some (S\<lparr>cs_owner := Stopped\<rparr>))
      | JoinReceiver \<Rightarrow>
          if cs_rcv S = Ended then Some ((on_rcv (\<lambda>r. r\<lparr>rcv_joinable := False\<rparr>) S)\<lparr>cs_owner := Stopped\<rparr>)
          else None
      | Stopped \<Rightarrow> None)"

text \<open>The object while the constructor of its base has just started the subscriber's thread.\<close>

definition conv_start ::
  "env \<Rightarrow> nat \<Rightarrow> string \<Rightarrow> string list \<Rightarrow> string \<Rightarrow> string \<Rightarrow> string list \<Rightarrow> (string \<rightharpoonup> string list)
     \<Rightarrow> history \<Rightarrow> conv_system" where
  "conv_start e sock name pubEndpoints subEndpoint receiverEndpoint subTopics conversionMap h =
     (let (v, h) = ConvStack_new e sock name pubEndpoints subEndpoint receiverEndpoint subTopics conversionMap h
      in \<lparr>cs_conv = v, cs_sub = Starting, cs_rcv = Absent, cs_lock = None, cs_phase = NoLogger,
          cs_owner = InBase, cs_hist = h\<rparr>)"

section \<open>The steps of the process\<close>

text \<open>An exception or undefined behaviour in a thread ends the process.\<close>

inductive conv_step :: "env \<Rightarrow> conv_system \<Rightarrow> conv_action \<Rightarrow> conv_system \<Rightarrow> bool" for e :: env where
  by_worker: "\<not> crashed S \<Longrightarrow> worker_move e w S = Some (a, S') \<Longrightarrow> conv_step e S a S'"
| by_add: "\<not> crashed S \<Longrightarrow> cs_owner S = Serving \<Longrightarrow> cs_lock S = None \<Longrightarrow>
    AddConversion e t ts (cs_conv S, cs_hist S) = (Inr (), v, h) \<Longrightarrow>
    conv_step e S (Add t ts) (S\<lparr>cs_conv := v, cs_hist := h\<rparr>)"
| by_add_refused: "\<not> crashed S \<Longrightarrow> cs_owner S = Serving \<Longrightarrow> cs_lock S = None \<Longrightarrow>
    AddConversion e t ts (cs_conv S, cs_hist S) = (Inl err, v, h) \<Longrightarrow>
    conv_step e S (Refused t) (S\<lparr>cs_conv := v, cs_hist := h\<rparr>)"
| by_remove: "\<not> crashed S \<Longrightarrow> cs_owner S = Serving \<Longrightarrow> cs_lock S = None \<Longrightarrow>
    RemoveConversion e t (cs_conv S, cs_hist S) = (Inr (), v, h) \<Longrightarrow>
    conv_step e S (Remove t) (S\<lparr>cs_conv := v, cs_hist := h\<rparr>)"
| by_remove_refused: "\<not> crashed S \<Longrightarrow> cs_owner S = Serving \<Longrightarrow> cs_lock S = None \<Longrightarrow>
    RemoveConversion e t (cs_conv S, cs_hist S) = (Inl err, v, h) \<Longrightarrow>
    conv_step e S (Refused t) (S\<lparr>cs_conv := v, cs_hist := h\<rparr>)"
| by_leave: "\<not> crashed S \<Longrightarrow> cs_owner S = Serving \<Longrightarrow>
    conv_step e S Leave (S\<lparr>cs_phase := NoMembers, cs_owner := Leaving\<rparr>)"
| by_owner: "\<not> crashed S \<Longrightarrow> owner_move S = Some S' \<Longrightarrow> conv_step e S Own S'"

inductive_cases conv_stepE: "conv_step e S a S'"

inductive conv_run :: "env \<Rightarrow> conv_system \<Rightarrow> conv_action list \<Rightarrow> conv_system \<Rightarrow> bool" for e :: env where
  conv_none: "conv_run e S [] S"
| conv_more: "conv_run e S as T \<Longrightarrow> conv_step e T a U \<Longrightarrow> conv_run e S (as @ [a]) U"

text \<open>An invariant of the steps, indexed by the actions so far, is one of the runs.\<close>

lemma conv_run_invariant:
  assumes "conv_run e S as T" and "I [] S"
    and "\<And>as T a U. I as T \<Longrightarrow> conv_step e T a U \<Longrightarrow> I (as @ [a]) U"
  shows "I as T"
  using assms(1,2) by (induction rule: conv_run.induct) (auto intro: assms(3))

lemma conv_run_cons: "conv_step e S a T \<Longrightarrow> conv_run e T as U \<Longrightarrow> conv_run e S (a # as) U"
proof (rotate_tac, induction rule: conv_run.induct)
  case (conv_none T)
  then show ?case using conv_more[OF conv_run.conv_none] by fastforce
next
  case (conv_more T as U a' V)
  then show ?case using conv_run.conv_more by fastforce
qed

end
