(* ===== verification/ConvThreads.thy ===== *)
theory ConvThreads
  imports ConvThread "HOL-Library.Sublist"
begin

text \<open>
  What holds of the converter between any two actions of its threads: the lock, what has been
  published so far, what \<open>Stop\<close> waits for, and what a message meets that comes before the
  constructor or after the destructor has done its work.
\<close>

section \<open>Parts of a state\<close>

lemma point_at_go_to [simp]: "point_at w (go_to w' p S) = (if w = w' then p else point_at w S)"
  by (cases w; cases w') simp_all

lemma go_to_fields [simp]:
  "cs_conv (go_to w p S) = cs_conv S" "cs_lock (go_to w p S) = cs_lock S" "cs_phase (go_to w p S) = cs_phase S"
  "cs_owner (go_to w p S) = cs_owner S" "cs_hist (go_to w p S) = cs_hist S"
  "cs_sub (go_to w p S) = (if w = SubThread then p else cs_sub S)"
  "cs_rcv (go_to w p S) = (if w = RcvThread then p else cs_rcv S)"
  by (cases w; simp)+

declare go_to.simps [simp del]

lemma point_at_update [simp]:
  "point_at w (S\<lparr>cs_conv := v\<rparr>) = point_at w S" "point_at w (S\<lparr>cs_lock := l\<rparr>) = point_at w S"
  "point_at w (S\<lparr>cs_phase := ph\<rparr>) = point_at w S" "point_at w (S\<lparr>cs_owner := ow\<rparr>) = point_at w S"
  "point_at w (S\<lparr>cs_hist := h\<rparr>) = point_at w S"
  by (cases w; simp)+

lemma on_base_fields [simp]:
  "cs_sub (on_base f S) = cs_sub S" "cs_rcv (on_base f S) = cs_rcv S" "point_at w (on_base f S) = point_at w S"
  "cs_lock (on_base f S) = cs_lock S" "cs_phase (on_base f S) = cs_phase S"
  "cs_owner (on_base f S) = cs_owner S" "cs_hist (on_base f S) = cs_hist S"
  "cv_map (cs_conv (on_base f S)) = cv_map (cs_conv S)"
  "cv_base (cs_conv (on_base f S)) = f (cv_base (cs_conv S))"
  by (simp_all add: on_base_def)

lemma on_part_fields [simp]:
  "cs_sub (on_sub f S) = cs_sub S" "cs_rcv (on_sub f S) = cs_rcv S" "point_at w (on_sub f S) = point_at w S"
  "cs_lock (on_sub f S) = cs_lock S" "cs_phase (on_sub f S) = cs_phase S" "cs_owner (on_sub f S) = cs_owner S"
  "cs_hist (on_sub f S) = cs_hist S" "cv_map (cs_conv (on_sub f S)) = cv_map (cs_conv S)"
  "zs_publisher (cv_base (cs_conv (on_sub f S))) = zs_publisher (cv_base (cs_conv S))"
  "zs_receiver (cv_base (cs_conv (on_sub f S))) = zs_receiver (cv_base (cs_conv S))"
  "sub_part (on_sub f S) = f (sub_part S)"
  "cs_sub (on_rcv g S) = cs_sub S" "cs_rcv (on_rcv g S) = cs_rcv S" "point_at w (on_rcv g S) = point_at w S"
  "cs_lock (on_rcv g S) = cs_lock S" "cs_phase (on_rcv g S) = cs_phase S" "cs_owner (on_rcv g S) = cs_owner S"
  "cs_hist (on_rcv g S) = cs_hist S" "cv_map (cs_conv (on_rcv g S)) = cv_map (cs_conv S)"
  "zs_publisher (cv_base (cs_conv (on_rcv g S))) = zs_publisher (cv_base (cs_conv S))"
  "sub_part (on_rcv g S) = sub_part S"
  "zs_receiver (cv_base (cs_conv (on_rcv g S))) = map_option g (zs_receiver (cv_base (cs_conv S)))"
  by (simp_all add: on_sub_def on_rcv_def)

lemma count_fields [simp]:
  "point_at w (count_one w' S) = point_at w S" "cs_lock (count_one w' S) = cs_lock S"
  "cs_phase (count_one w' S) = cs_phase S" "cs_owner (count_one w' S) = cs_owner S"
  "cs_hist (count_one w' S) = cs_hist S" "cv_map (cs_conv (count_one w' S)) = cv_map (cs_conv S)"
  "zs_publisher (cv_base (cs_conv (count_one w' S))) = zs_publisher (cv_base (cs_conv S))"
  "point_at w (count_message w' S) = point_at w S" "cs_lock (count_message w' S) = cs_lock S"
  "cs_phase (count_message w' S) = cs_phase S" "cs_owner (count_message w' S) = cs_owner S"
  "cs_hist (count_message w' S) = cs_hist S" "cv_map (cs_conv (count_message w' S)) = cv_map (cs_conv S)"
  "zs_publisher (cv_base (cs_conv (count_message w' S))) = zs_publisher (cv_base (cs_conv S))"
  by (cases w'; simp)+

text \<open>A crash is one of the two threads'.\<close>

lemma crashed_iff: "crashed S \<longleftrightarrow> (\<exists>w. crashed_at (point_at w S))"
  by (metis point_at.simps worker.exhaust)

section \<open>Calls that publish nothing\<close>

fun silent :: "call \<Rightarrow> bool" where
  "silent (ZmqSend _ _) = False"
| "silent _ = True"

lemma silent_sent_on: "ext_by silent h h' \<Longrightarrow> sent_on k h' = sent_on k h"
proof -
  have "sent_on k cs = []" if "list_all silent cs" for cs
    using that
  proof (induction cs)
    case (Cons c cs)
    then show ?case by (cases c) (auto simp: sent_on_def List.map_filter_def)
  qed simp
  then show "ext_by silent h h' \<Longrightarrow> sent_on k h' = sent_on k h" by (auto simp: ext_by_def)
qed

lemma silent_snoc [simp]: "ext_by silent h0 h \<Longrightarrow> silent c \<Longrightarrow> ext_by silent h0 (h @ [c])"
  by (rule ext_by_snoc)

lemma silent_log [simp]:
  "ext_by silent h0 h \<Longrightarrow> ext_by silent h0 (log_info m h)" "ext_by silent h0 h \<Longrightarrow> ext_by silent h0 (log_error m h)"
  by (simp_all add: log_info_def log_error_def)

lemma ext_by_append: "ext_by P h (h @ cs) = list_all P cs"
  by (simp add: ext_by_def)

lemma zmq_call_silent: "ext_by silent h0 h \<Longrightarrow> silent c \<Longrightarrow> ext_by silent h0 (snd (zmq_call e c h))"
  by (simp add: ext_by_snoc)

lemma sub_set_silent: "ext_by silent h0 h \<Longrightarrow> ext_by silent h0 (snd (sub_set e opt s h))"
  by (simp add: sub_set_def zmq_call_silent)

lemma andThen_keeps:
  "P (snd r) \<Longrightarrow> (\<And>a t. P t \<Longrightarrow> P (snd (f a t))) \<Longrightarrow> P (snd (andThen r f))"
  by (cases r; cases "fst r") auto

lemma sub_setup_silent: "ext_by silent h (snd (sub_setup e s h))"
proof -
  let ?P = "ext_by silent h"
  have connects: "?P (snd (for_each (\<lambda>endpoint. zmq_call e (ZmqConnect (sub_socket s) endpoint)) eps h'))" if "?P h'" for eps h'
    by (rule for_each_keeps) (use that in simp_all)
  have topics: "?P (snd (for_each (\<lambda>topic h. andThen (sub_set e (Subscribe topic) s h) (\<lambda>_ h.
          (Inr (), log_info (''Subscribing to topic '' @ topic) h))) ts h'))" if "?P h'" for ts h'
  proof (rule for_each_keeps)
    fix topic h'
    assume "?P h'"
    then show "?P (snd (andThen (sub_set e (Subscribe topic) s h') (\<lambda>_ h. (Inr (), log_info (''Subscribing to topic '' @ topic) h))))"
      by (intro andThen_keeps[where P = "ext_by silent h"] sub_set_silent) simp_all
  qed (rule that)
  have "?P (snd (sub_setup_try e s h))"
    unfolding sub_setup_try_def
    by (intro andThen_keeps[where P = "ext_by silent h"] sub_set_silent ext_by_refl connects topics silent_log) assumption+
  then show ?thesis
    by (cases "sub_setup_try e s h") (auto simp: sub_setup_def catch_zmq_def split: sum.splits error.splits)
qed

lemma rcv_setup_silent: "ext_by silent h (snd (rcv_setup e r h))"
  by (auto simp: rcv_setup_def catch_zmq_def andThen_def zmq_call_def split: option.splits sum.splits error.splits)

section \<open>The actions of a thread, by what they do\<close>

text \<open>The region under the lock.\<close>

fun in_region :: "point \<Rightarrow> bool" where
  "in_region (Looking _) = True"
| "in_region (Sending _ _ _ _) = True"
| "in_region _ = False"

text \<open>Nothing is published, and what others rely on is left as it was.\<close>

definition quiet_change :: "conv_system \<Rightarrow> conv_system \<Rightarrow> bool" where
  "quiet_change S S' \<longleftrightarrow>
     cv_map (cs_conv S') = cv_map (cs_conv S) \<and>
     zs_publisher (cv_base (cs_conv S')) = zs_publisher (cv_base (cs_conv S)) \<and>
     ext_by silent (cs_hist S) (cs_hist S')"

lemma quiet_change_refl [simp]: "quiet_change S S"
  by (simp add: quiet_change_def)

lemma quiet_change_update [simp]:
  "quiet_change S (go_to w p S') = quiet_change S S'" "quiet_change S (S'\<lparr>cs_lock := l\<rparr>) = quiet_change S S'"
  "quiet_change S (on_sub f S') = quiet_change S S'" "quiet_change S (on_rcv g S') = quiet_change S S'"
  "quiet_change S (count_one w S') = quiet_change S S'" "quiet_change S (count_message w S') = quiet_change S S'"
  by (simp_all add: quiet_change_def)

lemma quiet_change_go_hist [simp]:
  "quiet_change S ((go_to w p S')\<lparr>cs_hist := h\<rparr>) = quiet_change S (S'\<lparr>cs_hist := h\<rparr>)"
  by (simp add: quiet_change_def)

lemma quiet_change_hist [simp]: "quiet_change S (S\<lparr>cs_hist := h\<rparr>) = ext_by silent (cs_hist S) h"
  by (simp add: quiet_change_def)

text \<open>What no action of a thread changes, whatever it does.\<close>

definition same_frame :: "worker \<Rightarrow> conv_system \<Rightarrow> conv_system \<Rightarrow> bool" where
  "same_frame w S S' \<longleftrightarrow>
     cs_phase S' = cs_phase S \<and> cs_owner S' = cs_owner S \<and> cv_map (cs_conv S') = cv_map (cs_conv S) \<and>
     (\<forall>w'. w' \<noteq> w \<longrightarrow> point_at w' S' = point_at w' S)"

lemma same_frame_refl [simp]: "same_frame w S S"
  by (simp add: same_frame_def)

lemma same_frame_update [simp]:
  "same_frame w S (go_to w p S') = same_frame w S S'"
  "same_frame w S (S'\<lparr>cs_hist := h\<rparr>) = same_frame w S S'"
  "same_frame w S (S'\<lparr>cs_lock := l\<rparr>) = same_frame w S S'"
  "same_frame w S (on_base f S') = same_frame w S S'" "same_frame w S (on_sub g S') = same_frame w S S'"
  "same_frame w S (on_rcv k S') = same_frame w S S'" "same_frame w S (count_one w S') = same_frame w S S'"
  "same_frame w S (count_message w S') = same_frame w S S'" "same_frame w S (unlock w p S') = same_frame w S S'"
  by (auto simp: same_frame_def unlock_def)

lemma close_socket_frame [simp]: "same_frame w S (close_socket w S)"
  by (cases w) (simp_all split: prod.split)

lemma hand_over_frame [simp]: "same_frame w S (hand_over w msgs S') = same_frame w S S'"
  by (auto simp: hand_over_def split: phase.split prod.split sum.split)

lemma dispatch_frame [simp]: "same_frame w S (dispatch w msgs S)"
  by (cases w) (auto split: list.split prod.split sum.split)

lemma look_up_frame [simp]: "same_frame w S (look_up w msgs S)"
  by (auto simp: look_up_def Let_def split: prod.split option.split)

lemma send_next_frame [simp]: "same_frame w S (send_next e w p S)"
  by (cases "(e, w, p, S)" rule: send_next.cases) (auto simp: Let_def split: prod.split sum.split error.split)

lemma worker_move_frame:
  assumes "worker_move e w S = Some (a, S')"
  shows "same_frame w S S'"
  using assms by (cases "point_at w S") (auto simp: worker_move_def split: prod.splits sum.splits error.splits if_splits)

text \<open>The messages of a handler that are still to be sent.\<close>

fun unsent_at :: "point \<Rightarrow> string list list" where
  "unsent_at (Sending ts _ msg _) = map (\<lambda>t. [t, msg]) ts"
| "unsent_at _ = []"

text \<open>An action outside the region changes nothing the region protects.\<close>

definition outside :: "worker \<Rightarrow> conv_system \<Rightarrow> conv_system \<Rightarrow> bool" where
  "outside w S S' \<longleftrightarrow> cs_lock S' = cs_lock S \<and> quiet_change S S' \<and> \<not> in_region (point_at w S')"

lemma outside_go_to [simp]:
  "outside w S (go_to w p S') \<longleftrightarrow> cs_lock S' = cs_lock S \<and> quiet_change S S' \<and> \<not> in_region p"
  "outside w S ((go_to w p S')\<lparr>cs_hist := h\<rparr>) \<longleftrightarrow>
     cs_lock S' = cs_lock S \<and> quiet_change S (S'\<lparr>cs_hist := h\<rparr>) \<and> \<not> in_region p"
  by (simp_all add: outside_def quiet_change_def)

lemma hist_count [simp]: "quiet_change S ((count_message w S)\<lparr>cs_hist := h\<rparr>) = ext_by silent (cs_hist S) h"
  by (simp add: quiet_change_def)

lemma base_handlers_silent:
  "ZmqStack_onReceivedMessage msgs (z, h) = (r, z', h') \<Longrightarrow> ext_by silent h h'"
  "ZmqStack_onCtrlMessage msgs (z, h) = (r, z', h') \<Longrightarrow> ext_by silent h h'"
  by (auto simp: ZmqStack_onReceivedMessage_def ZmqStack_onCtrlMessage_def split: list.splits)

lemma close_socket_quiet [simp]:
  "quiet_change S (close_socket w S)" "cs_lock (close_socket w S) = cs_lock S"
  by (cases w; auto simp: sub_close_def rcv_close_def quiet_change_def Let_def split: prod.split)+

lemma set_up_silent: "ext_by silent (cs_hist S) (snd (set_up e w S))"
  by (cases w) (simp_all add: sub_setup_silent rcv_setup_silent)

lemma dispatch_outside: "outside w S (dispatch w msgs S)"
proof -
  have "outside w S (hand_over w msgs (count_message w S))"
    by (auto simp: hand_over_def dest: base_handlers_silent split: phase.split prod.split sum.split)
  then show ?thesis
    by (cases w) (auto dest: base_handlers_silent split: list.split prod.split sum.split)
qed

lemma move_outside:
  assumes "worker_move e w S = Some (a, S')" and "\<not> in_region (point_at w S)" and "\<forall>msgs. point_at w S \<noteq> Waiting msgs"
  shows "a = Move w \<and> outside w S S'"
  using assms set_up_silent[of S e w] dispatch_outside[of w S]
  by (cases "point_at w S")
    (auto simp: worker_move_def zmq_defs outside_def ext_by_append split: prod.splits sum.splits error.splits if_splits option.splits)

text \<open>The four kinds of action of a thread.\<close>

lemma worker_move_cases [consumes 1, case_names outside enter route send]:
  assumes "worker_move e w S = Some (a, S')"
  obtains "a = Move w" "outside w S S'" "\<not> in_region (point_at w S)"
  | msgs where "a = Move w" "point_at w S = Waiting msgs" "cs_lock S = None" "cs_phase S = Alive"
      "S' = (go_to w (Looking msgs) S)\<lparr>cs_lock := Some w\<rparr>"
  | msgs where "a = Route w msgs" "point_at w S = Looking msgs" "S' = look_up w msgs S"
  | ts topic msg topics where "a = Move w" "point_at w S = Sending ts topic msg topics"
      "S' = send_next e w (Sending ts topic msg topics) S"
proof (cases "point_at w S")
  case (Waiting msgs)
  then show thesis using assms that(1,2)
    by (auto simp: worker_move_def outside_def split: if_splits)
next
  case (Looking msgs)
  then show thesis using assms that(3) by (auto simp: worker_move_def)
next
  case (Sending ts topic msg topics)
  then show thesis using assms that(4) by (auto simp: worker_move_def)
qed (use move_outside[OF assms] that(1) in auto)

text \<open>An action in the region keeps the lock until the thread leaves it.\<close>

definition keeps_lock :: "worker \<Rightarrow> conv_system \<Rightarrow> conv_system \<Rightarrow> bool" where
  "keeps_lock w S S' \<longleftrightarrow>
     cs_lock S' = (if in_region (point_at w S') \<or> crashed_at (point_at w S') then cs_lock S else None)"

lemma unlock_keeps_lock [simp]:
  "\<not> in_region p \<Longrightarrow> \<not> crashed_at p \<Longrightarrow> cs_lock S' = cs_lock S \<Longrightarrow> keeps_lock w S (unlock w p S')"
  by (simp add: keeps_lock_def unlock_def)

lemma unlock_quiet [simp]: "quiet_change S (unlock w p S') = quiet_change S S'"
  by (simp add: unlock_def)

lemma unsent_unlock [simp]: "unsent_at p = [] \<Longrightarrow> unsent_at (point_at w (unlock w p S)) = []"
  by (simp add: unlock_def)

lemma look_up_region:
  "keeps_lock w S (look_up w msgs S) \<and> quiet_change S (look_up w msgs S) \<and>
   (crashed_at (point_at w (look_up w msgs S)) \<and> unsent_at (point_at w (look_up w msgs S)) = [] \<or>
    msgs \<noteq> [] \<and> unsent_at (point_at w (look_up w msgs S)) = routed_message (cv_map (cs_conv S)) msgs)"
proof (cases "cs_phase S \<noteq> Alive \<or> msgs = []")
  case True
  then show ?thesis by (auto simp: look_up_def keeps_lock_def)
next
  case False
  obtain topic msg where key: "route_key msgs = (topic, msg)" by (metis surj_pair)
  define h where "h = (if length msgs = 1
    then log_info (zs_name (cv_base (cs_conv S)) @ '' Receiver received message '' @ msg @ '' '') (cs_hist S)
    else cs_hist S)"
  have silent: "ext_by silent (cs_hist S) h" by (simp add: h_def)
  show ?thesis
  proof (cases "cv_map (cs_conv S) topic")
    case None
    then have "look_up w msgs S = unlock w Counting (S\<lparr>cs_hist := h\<rparr>)"
      using False by (simp only: look_up_def key h_def Let_def prod.case option.case if_False de_Morgan_disj not_not simp_thms)
    then show ?thesis using False None silent by (simp add: routed_message_def routed_def key)
  next
    case (Some topics)
    then have "look_up w msgs S = (go_to w (Sending topics topic msg topics) S)\<lparr>cs_hist :=
        log_info (''Published message '' @ msg @ '' to topics '' @ fmt_join '' '' topics) h\<rparr>"
      using False by (simp only: look_up_def key h_def Let_def prod.case option.case if_False de_Morgan_disj not_not simp_thms)
    then show ?thesis using False Some silent by (simp add: routed_message_def routed_def key keeps_lock_def)
  qed
qed

text \<open>A send puts the next message on the publisher's socket, or the rest is given up.\<close>

abbreviation conv_pub :: "conv_system \<Rightarrow> Publisher" where
  "conv_pub S \<equiv> zs_publisher (cv_base (cs_conv S))"

abbreviation published :: "conv_system \<Rightarrow> string list list" where
  "published S \<equiv> sent_on (pub_socket (conv_pub S)) (cs_hist S)"

lemma publishMsg_closed: "\<not> pub_open p \<Longrightarrow> publishMsg e t msg (p, h) = (Inl (ZmqError ENOTSOCK), p, h)"
  by (simp add: publishMsg_def pub_send_def)

lemma send_next_region:
  fixes e w ts topic msg topics S
  defines "S' \<equiv> send_next e w (Sending ts topic msg topics) S"
  shows "keeps_lock w S S' \<and> pub_socket (conv_pub S') = pub_socket (conv_pub S) \<and>
     pub_open (conv_pub S') = pub_open (conv_pub S) \<and>
     (\<exists>b. published S' = published S @ b \<and>
        (b @ unsent_at (point_at w S') = map (\<lambda>t. [t, msg]) ts \<or>
         unsent_at (point_at w S') = [] \<and> prefix b (map (\<lambda>t. [t, msg]) ts) \<and>
         (pub_open (conv_pub S) \<longrightarrow> (\<exists>h c n. zmq_throws e h (ZmqSend (pub_socket (conv_pub S)) c) = Some n))))"
proof (cases ts)
  case Nil
  then show ?thesis by (auto simp: S'_def keeps_lock_def unlock_def log_info_def)
next
  case (Cons t ts')
  obtain r p h where pub: "publishMsg e t msg (conv_pub S, cs_hist S) = (r, p, h)" by (metis surj_pair)
  show ?thesis
  proof (cases "pub_open (conv_pub S)")
    case False
    with pub have "r = Inl (ZmqError ENOTSOCK)" "p = conv_pub S" "h = cs_hist S" by (simp_all add: publishMsg_closed)
    then show ?thesis using Cons pub False by (simp add: S'_def unlock_def keeps_lock_def Let_def)
  next
    case True
    note sent = publishMsg_cases[OF pub True]
    have throws: "\<exists>n. zmq_throws e (cs_hist S) (ZmqSend (pub_socket (conv_pub S)) [t, msg]) = Some n \<and> r = Inl (ZmqError n)"
      if "r \<noteq> Inr ()"
      using pub True that
      by (auto simp: publishMsg_def pub_send_def andThen_def zmq_defs Let_def split: option.splits sum.splits)
    show ?thesis
    proof (cases r)
      case (Inr u)
      then show ?thesis using Cons pub sent by (simp add: S'_def keeps_lock_def Let_def)
    next
      case (Inl err)
      with throws obtain n where "zmq_throws e (cs_hist S) (ZmqSend (pub_socket (conv_pub S)) [t, msg]) = Some n"
        "r = Inl (ZmqError n)" by auto
      then show ?thesis using Cons pub sent
        by (auto simp: S'_def keeps_lock_def unlock_def Let_def)
    qed
  qed
qed

section \<open>The actions of the owner\<close>

text \<open>Conversions come and go, the publisher may be closed; the threads and the lock stay where they are.\<close>

lemma Subscribe_silent:
  assumes "ZmqStack_Subscribe e t (z, h) = (r, z', h')"
  shows "ext_by silent h h'" and "zs_publisher z' = zs_publisher z" and "zs_receiver z' = zs_receiver z"
  using assms sub_set_silent[OF ext_by_refl, of h e "Subscribe t" "zs_subscriber z"]
  by (auto simp: ZmqStack_Subscribe_def Subscriber_Subscribe_def Let_def split: prod.splits)

lemma Unsubscribe_silent:
  assumes "ZmqStack_Unsubscribe e t (z, h) = (r, z', h')"
  shows "ext_by silent h h'" and "zs_publisher z' = zs_publisher z" and "zs_receiver z' = zs_receiver z"
  using assms sub_set_silent[OF ext_by_refl, of h e "Unsubscribe t" "zs_subscriber z"]
  by (auto simp: ZmqStack_Unsubscribe_def Subscriber_Unsubscribe_def Let_def split: prod.splits)

lemma AddConversion_parts:
  assumes "AddConversion e t ts (v, h) = (r, v', h')"
  shows "cv_map v' = (if r = Inr () then (cv_map v)(t \<mapsto> ts) else cv_map v) \<and>
     zs_publisher (cv_base v') = zs_publisher (cv_base v) \<and> ext_by silent h h'"
  using assms by (auto simp: AddConversion_def dest: Subscribe_silent split: prod.splits sum.splits)

lemma RemoveConversion_parts:
  assumes "RemoveConversion e t (v, h) = (r, v', h')"
  shows "cv_map v' = (if r = Inr () then (cv_map v)(t := None) else cv_map v) \<and>
     zs_publisher (cv_base v') = zs_publisher (cv_base v) \<and> ext_by silent h h'"
  using assms by (auto simp: RemoveConversion_def dest: Unsubscribe_silent split: prod.splits sum.splits)

text \<open>The specification of the converter: what each action routes, and where, in order.\<close>

fun spec_do :: "conv_action \<Rightarrow> (string \<rightharpoonup> string list) \<times> string list list list
    \<Rightarrow> (string \<rightharpoonup> string list) \<times> string list list list" where
  "spec_do (Route w msgs) (m, out) = (m, out @ [routed_message m msgs])"
| "spec_do (Add t ts) (m, out) = (m(t \<mapsto> ts), out)"
| "spec_do (Remove t) (m, out) = (m(t := None), out)"
| "spec_do _ (m, out) = (m, out)"

definition spec_run :: "(string \<rightharpoonup> string list) \<Rightarrow> conv_action list
    \<Rightarrow> (string \<rightharpoonup> string list) \<times> string list list list" where
  "spec_run m as = foldl (\<lambda>s a. spec_do a s) (m, []) as"

lemma spec_run_simps [simp]:
  "spec_run m [] = (m, [])" "spec_run m (as @ [a]) = spec_do a (spec_run m as)"
  by (simp_all add: spec_run_def)

lemma spec_do_move [simp]: "spec_do (Move w) s = s" "spec_do (Refused t) s = s" "spec_do Leave s = s" "spec_do Own s = s"
  by (cases s; simp)+

text \<open>What an action that is not a thread's does.\<close>

definition aside :: "conv_action \<Rightarrow> conv_system \<Rightarrow> conv_system \<Rightarrow> bool" where
  "aside a S S' \<longleftrightarrow>
     cs_sub S' = cs_sub S \<and> cs_lock S' = cs_lock S \<and>
     (cs_rcv S' = cs_rcv S \<or> cs_owner S = InBody \<and> cs_rcv S' \<in> {Absent, Starting}) \<and>
     (cs_owner S' \<in> {InBase, InBody} \<longrightarrow> cs_owner S = InBase \<and> cs_rcv S' = cs_rcv S) \<and>
     pub_socket (conv_pub S') = pub_socket (conv_pub S) \<and> published S' = published S \<and>
     (pub_open (conv_pub S') \<longrightarrow> pub_open (conv_pub S)) \<and>
     spec_do a (cv_map (cs_conv S), []) = (cv_map (cs_conv S'), [])"

lemma owner_aside: "owner_move S = Some S' \<Longrightarrow> aside Own S S'"
  by (cases "cs_owner S")
     (auto simp: owner_move_def aside_def Publisher_Stop_def Let_def split: if_splits prod.splits option.splits)

lemma conv_step_cases [consumes 1, case_names worker aside]:
  assumes "conv_step e S a S'"
  obtains w where "\<not> crashed S" "worker_move e w S = Some (a, S')"
  | "\<not> crashed S" "aside a S S'"
  using assms
proof cases
  case (by_owner)
  then show ?thesis using that(2) owner_aside by blast
qed (use that in \<open>auto simp: aside_def silent_sent_on dest!: AddConversion_parts RemoveConversion_parts\<close>)

section \<open>The lock\<close>

text \<open>Whoever is in the region holds the lock, and nobody else does unless the process has died.\<close>

definition lock_inv :: "conv_system \<Rightarrow> bool" where
  "lock_inv S \<longleftrightarrow>
     (\<forall>w. in_region (point_at w S) \<longrightarrow> cs_lock S = Some w) \<and>
     (\<not> crashed S \<longrightarrow> (\<forall>w. cs_lock S = Some w \<longrightarrow> in_region (point_at w S))) \<and>
     (cs_owner S \<in> {InBase, InBody} \<longrightarrow> cs_rcv S = Absent)"

lemma lock_invI:
  assumes "\<And>w. in_region (point_at w S) \<Longrightarrow> cs_lock S = Some w"
    and "\<And>w. \<not> crashed S \<Longrightarrow> cs_lock S = Some w \<Longrightarrow> in_region (point_at w S)"
    and "cs_owner S \<in> {InBase, InBody} \<longrightarrow> cs_rcv S = Absent"
  shows "lock_inv S"
  unfolding lock_inv_def by (intro conjI allI impI) (auto intro: assms(1) assms(2) simp: assms(3)[rule_format])

lemma lock_invD:
  assumes "lock_inv S"
  shows "in_region (point_at w S) \<Longrightarrow> cs_lock S = Some w"
    and "\<not> crashed S \<Longrightarrow> cs_lock S = Some w \<Longrightarrow> in_region (point_at w S)"
    and "cs_owner S \<in> {InBase, InBody} \<Longrightarrow> cs_rcv S = Absent"
  using assms unfolding lock_inv_def by blast+

lemma point_at_frame: "same_frame w S S' \<Longrightarrow> w' \<noteq> w \<Longrightarrow> point_at w' S' = point_at w' S"
  by (simp add: same_frame_def)

lemma absent_stays: "worker_move e w S = Some (a, S') \<Longrightarrow> point_at w S \<noteq> Absent"
  by (auto simp: worker_move_def)

lemma lock_inv_worker:
  assumes "worker_move e w S = Some (a, S')" and "lock_inv S" and "\<not> crashed S"
  shows "lock_inv S'"
proof -
  note frame = worker_move_frame[OF assms(1)]
  have rcv: "cs_owner S' \<in> {InBase, InBody} \<longrightarrow> cs_rcv S' = Absent"
    using frame absent_stays[OF assms(1)] lock_invD(3)[OF assms(2)]
    by (cases w) (auto simp: same_frame_def dest: spec[where x = RcvThread])
  have others: "point_at w' S' = point_at w' S" if "w' \<noteq> w" for w'
    using frame that by (rule point_at_frame)
  have own: "keeps_lock w S S'" if "in_region (point_at w S)"
    using assms(1) that
  proof (cases rule: worker_move_cases)
    case (route msgs)
    then show ?thesis using look_up_region by simp
  next
    case (send ts topic msg topics)
    then show ?thesis using send_next_region by simp
  qed simp_all
  have inside: "cs_lock S' = (if in_region (point_at w S') \<or> crashed_at (point_at w S') then Some w else None)"
    if "in_region (point_at w S)"
    using own[OF that] lock_invD(1)[OF assms(2) that] by (simp add: keeps_lock_def)
  have entered: "cs_lock S' = Some w \<and> in_region (point_at w S') \<and> cs_lock S = None \<or>
      cs_lock S' = cs_lock S \<and> \<not> in_region (point_at w S')" if "\<not> in_region (point_at w S)"
    using assms(1) that by (cases rule: worker_move_cases) (auto simp: outside_def)
  show ?thesis
  proof (cases "in_region (point_at w S)")
    case True
    then have "cs_lock S = Some w" by (rule lock_invD(1)[OF assms(2)])
    then have "\<not> in_region (point_at w' S')" if "w' \<noteq> w" for w'
      using that others[OF that] lock_invD(1)[OF assms(2), of w'] by auto
    then have "cs_lock S' = Some w'" if "in_region (point_at w' S')" for w'
      using inside[OF True] that by (cases "w' = w") auto
    moreover have "in_region (point_at w' S')" if "\<not> crashed S'" "cs_lock S' = Some w'" for w'
      using inside[OF True] that unfolding crashed_iff by (auto split: if_splits)
    ultimately show ?thesis using rcv by (rule lock_invI)
  next
    case False
    have region: "in_region (point_at w' S) \<Longrightarrow> cs_lock S = Some w'" "cs_lock S = Some w' \<Longrightarrow> in_region (point_at w' S)" for w'
      by (rule lock_invD[OF assms(2)], assumption) (rule lock_invD(2)[OF assms(2,3)], assumption)
    have same: "in_region (point_at w' S') = (cs_lock S' = Some w')" for w'
    proof (cases "w' = w")
      case True
      then show ?thesis using entered[OF False] region(2)[of w'] False by force
    next
      case ne: False
      then show ?thesis using entered[OF False] region[of w'] others[OF ne] by force
    qed
    show ?thesis by (rule lock_invI) (use same rcv in simp_all)
  qed
qed

lemma lock_inv_aside:
  assumes "aside a S S'" and "lock_inv S"
  shows "lock_inv S'"
proof -
  have "in_region (cs_rcv S') = in_region (cs_rcv S)" "crashed_at (cs_rcv S') = crashed_at (cs_rcv S)"
    using assms(1) lock_invD(3)[OF assms(2)] by (auto simp: aside_def)
  then have "in_region (point_at w S') = in_region (point_at w S)" "crashed S' = crashed S" for w
    using assms(1) by (cases w; simp add: aside_def)+
  moreover have "cs_lock S' = cs_lock S" "cs_owner S' \<in> {InBase, InBody} \<longrightarrow> cs_rcv S' = Absent"
    using assms(1) lock_invD(3)[OF assms(2)] by (auto simp: aside_def)
  moreover note assms(2)
  ultimately show ?thesis by (simp only: lock_inv_def) (elim conjE, intro conjI, assumption+)
qed

lemma lock_inv_step: "conv_step e S a S' \<Longrightarrow> lock_inv S \<Longrightarrow> lock_inv S'"
  by (erule conv_step_cases) (auto dest: lock_inv_worker lock_inv_aside)

lemma lock_inv_run: "conv_run e S as S' \<Longrightarrow> lock_inv S \<Longrightarrow> lock_inv S'"
  by (erule conv_run_invariant[where I = "\<lambda>_. lock_inv"]) (auto intro: lock_inv_step)

lemma conv_start_fields:
  fixes e sock name pubs subE recvE topics m h
  defines "S \<equiv> conv_start e sock name pubs subE recvE topics m h"
  shows "cs_sub S = Starting" "cs_rcv S = Absent" "cs_lock S = None" "cs_phase S = NoLogger" "cs_owner S = InBase"
    "cv_map (cs_conv S) = m"
  by (simp_all add: S_def conv_start_def ConvStack_new_def split: prod.split)

lemma lock_inv_start: "lock_inv (conv_start e sock name pubs subE recvE topics m h)"
proof -
  have "\<not> in_region (point_at w (conv_start e sock name pubs subE recvE topics m h))" for w
    by (cases w) (simp_all add: conv_start_fields)
  then show ?thesis by (simp add: lock_inv_def conv_start_fields)
qed

section \<open>What has been published\<close>

lemma unsent_in_region: "\<not> in_region p \<Longrightarrow> unsent_at p = []"
  by (cases p) simp_all

text \<open>
  The messages published so far are blocks, one for each routing, in the order of the routings:
  a prefix of what that routing gives. What a thread has still to send completes the last block.
\<close>

definition routes_inv :: "conv_system \<Rightarrow> conv_action list \<Rightarrow> conv_system \<Rightarrow> bool" where
  "routes_inv S0 as S \<longleftrightarrow> lock_inv S \<and>
     pub_socket (conv_pub S) = pub_socket (conv_pub S0) \<and>
     (\<exists>blocks rs. spec_run (cv_map (cs_conv S0)) as = (cv_map (cs_conv S), rs) \<and>
        published S = published S0 @ concat blocks \<and> list_all2 prefix blocks rs \<and>
        (\<forall>w. unsent_at (point_at w S) \<noteq> [] \<longrightarrow>
           blocks \<noteq> [] \<and> last blocks @ unsent_at (point_at w S) = last rs))"

lemma routes_invI:
  assumes "lock_inv S" and "pub_socket (conv_pub S) = pub_socket (conv_pub S0)"
    and "spec_run (cv_map (cs_conv S0)) as = (cv_map (cs_conv S), rs)"
    and "published S = published S0 @ concat blocks" and "list_all2 prefix blocks rs"
    and "\<And>w. unsent_at (point_at w S) \<noteq> [] \<Longrightarrow> blocks \<noteq> [] \<and> last blocks @ unsent_at (point_at w S) = last rs"
  shows "routes_inv S0 as S"
  unfolding routes_inv_def using assms(1,2)
  by (intro conjI exI[where x = blocks] exI[where x = rs]) (use assms(3-5) assms(6) in blast)+

lemma routes_invE:
  assumes "routes_inv S0 as S"
  obtains blocks rs where "lock_inv S" "pub_socket (conv_pub S) = pub_socket (conv_pub S0)"
    "spec_run (cv_map (cs_conv S0)) as = (cv_map (cs_conv S), rs)"
    "published S = published S0 @ concat blocks" "list_all2 prefix blocks rs"
    "\<forall>w. unsent_at (point_at w S) \<noteq> [] \<longrightarrow> blocks \<noteq> [] \<and> last blocks @ unsent_at (point_at w S) = last rs"
  using assms unfolding routes_inv_def by blast

lemma quiet_published:
  assumes "quiet_change S S'"
  shows "published S' = published S" and "conv_pub S' = conv_pub S" and "cv_map (cs_conv S') = cv_map (cs_conv S)"
  using assms by (simp_all add: quiet_change_def silent_sent_on)

lemma others_unsent:
  assumes "lock_inv S" and "in_region (point_at w S)" and "w' \<noteq> w"
  shows "unsent_at (point_at w' S) = []"
  using assms lock_invD(1)[OF assms(1), of w'] lock_invD(1)[OF assms(1), of w]
  by (auto intro: unsent_in_region)

lemma routes_inv_quiet:
  assumes "routes_inv S0 as S" and "lock_inv S'" and "published S' = published S"
    and "pub_socket (conv_pub S') = pub_socket (conv_pub S)"
    and "spec_do a (cv_map (cs_conv S), []) = (cv_map (cs_conv S'), [])"
    and "\<And>w. unsent_at (point_at w S') = unsent_at (point_at w S)"
  shows "routes_inv S0 (as @ [a]) S'"
proof -
  from assms(1) obtain blocks rs where inv: "lock_inv S" "pub_socket (conv_pub S) = pub_socket (conv_pub S0)"
    "spec_run (cv_map (cs_conv S0)) as = (cv_map (cs_conv S), rs)" "published S = published S0 @ concat blocks"
    "list_all2 prefix blocks rs"
    "\<forall>w. unsent_at (point_at w S) \<noteq> [] \<longrightarrow> blocks \<noteq> [] \<and> last blocks @ unsent_at (point_at w S) = last rs"
    by (rule routes_invE)
  have "spec_do a (cv_map (cs_conv S), out) = (cv_map (cs_conv S'), out)" for out
    using assms(5) by (cases a) auto
  then have "spec_run (cv_map (cs_conv S0)) (as @ [a]) = (cv_map (cs_conv S'), rs)" using inv(3) by simp
  note run = this
  show ?thesis
    by (rule routes_invI[OF assms(2) _ run]) (use assms(3,4) inv(1-5) in simp_all, use inv(6) assms(6) in metis)
qed

lemma routes_inv_route:
  assumes "routes_inv S0 as S" and "lock_inv S'" and "point_at w S = Looking msgs" and "S' = look_up w msgs S"
  shows "routes_inv S0 (as @ [Route w msgs]) S'"
proof -
  let ?m = "cv_map (cs_conv S)"
  from assms(1) obtain blocks rs where inv: "lock_inv S" "pub_socket (conv_pub S) = pub_socket (conv_pub S0)"
    "spec_run (cv_map (cs_conv S0)) as = (?m, rs)" "published S = published S0 @ concat blocks" "list_all2 prefix blocks rs"
    by (rule routes_invE)
  note region = look_up_region[of w S msgs, folded assms(4)]
  have same: "published S' = published S" "conv_pub S' = conv_pub S" "cv_map (cs_conv S') = ?m"
    using quiet_published[of S S'] region by auto
  have own: "unsent_at (point_at w S') = [] \<or> unsent_at (point_at w S') = routed_message ?m msgs"
    using region by blast
  have others: "unsent_at (point_at w' S') = []" if "w' \<noteq> w" for w'
    using others_unsent[OF inv(1), of w w'] that assms(3,4) look_up_frame[of w S msgs]
    by (simp add: same_frame_def)
  have last: "unsent_at (point_at w' S') \<noteq> [] \<longrightarrow> unsent_at (point_at w' S') = routed_message ?m msgs" for w'
    using own others[of w'] by (cases "w' = w") auto
  show ?thesis
  proof (rule routes_invI[where blocks = "blocks @ [[]]" and rs = "rs @ [routed_message ?m msgs]"])
    show "list_all2 prefix (blocks @ [[]]) (rs @ [routed_message ?m msgs])"
      using inv(5) by (simp add: list_all2_appendI)
  qed (use assms(2) inv same last in simp_all)
qed

lemma list_all2_snoc: "list_all2 P (xs @ [x]) (ys @ [y]) \<longleftrightarrow> list_all2 P xs ys \<and> P x y"
  by (cases "length xs = length ys") (auto simp: list_all2_append dest: list_all2_lengthD)

lemma list_all2_extend_last:
  assumes "list_all2 P xs ys" and "xs \<noteq> []" and "P x (last ys)"
  shows "list_all2 P (butlast xs @ [x]) ys"
  using assms by (cases xs rule: rev_cases; cases ys rule: rev_cases) (auto simp: list_all2_snoc)

lemma concat_butlast: "xs \<noteq> [] \<Longrightarrow> concat (butlast xs) @ last xs = concat xs"
  by (cases xs rule: rev_cases) simp_all

lemma routes_inv_send:
  assumes "routes_inv S0 as S" and "lock_inv S'" and "point_at w S = Sending ts topic msg topics"
    and "S' = send_next e w (Sending ts topic msg topics) S"
  shows "routes_inv S0 (as @ [Move w]) S'"
proof (cases "ts = []")
  case True
  have "published S' = published S" "unsent_at (point_at w S') = []" "conv_pub S' = conv_pub S"
    using assms(4) True by (auto simp: unlock_def log_info_def)
  moreover have "unsent_at (point_at w' S') = unsent_at (point_at w' S)" if "w' \<noteq> w" for w'
    using that send_next_frame[of w S e "Sending ts topic msg topics"] assms(4) by (simp add: same_frame_def)
  moreover have "cv_map (cs_conv S') = cv_map (cs_conv S)"
    using send_next_frame[of w S e "Sending ts topic msg topics"] assms(4) by (simp add: same_frame_def)
  moreover have "unsent_at (point_at w S) = []" using assms(3) True by simp
  ultimately show ?thesis
    by (intro routes_inv_quiet[OF assms(1,2)]) (simp_all, metis)
next
  case False
  let ?r = "map (\<lambda>t. [t, msg]) ts"
  have ne: "unsent_at (point_at w S) = ?r" "?r \<noteq> []" using assms(3) False by simp_all
  from assms(1) obtain blocks rs where inv: "lock_inv S" "pub_socket (conv_pub S) = pub_socket (conv_pub S0)"
    "spec_run (cv_map (cs_conv S0)) as = (cv_map (cs_conv S), rs)" "published S = published S0 @ concat blocks"
    "list_all2 prefix blocks rs" "blocks \<noteq> []" "last blocks @ ?r = last rs"
    by (rule routes_invE) (use ne in metis)
  from send_next_region[of w S e ts topic msg topics, folded assms(4)]
  obtain b where region: "published S' = published S @ b" "pub_socket (conv_pub S') = pub_socket (conv_pub S)"
    "b @ unsent_at (point_at w S') = ?r \<or> unsent_at (point_at w S') = [] \<and> prefix b ?r"
    by blast
  have others: "unsent_at (point_at w' S') = []" if "w' \<noteq> w" for w'
    using others_unsent[OF inv(1), of w w'] that assms(3,4) send_next_frame[of w S e "Sending ts topic msg topics"]
    by (simp add: same_frame_def)
  have map: "cv_map (cs_conv S') = cv_map (cs_conv S)"
    using send_next_frame[of w S e "Sending ts topic msg topics"] assms(4) by (simp add: same_frame_def)
  have pre: "prefix (last blocks @ b) (last rs)"
  proof -
    have "prefix b ?r" using region(3) by (metis prefixI)
    then show ?thesis unfolding inv(7)[symmetric] by simp
  qed
  have last: "unsent_at (point_at w' S') \<noteq> [] \<longrightarrow> (last blocks @ b) @ unsent_at (point_at w' S') = last rs" for w'
    using others[of w'] region(3) inv(7) by (cases "w' = w") auto
  show ?thesis
  proof (rule routes_invI[where blocks = "butlast blocks @ [last blocks @ b]"])
    show "list_all2 prefix (butlast blocks @ [last blocks @ b]) rs"
      by (rule list_all2_extend_last[OF inv(5,6) pre])
    show "published S' = published S0 @ concat (butlast blocks @ [last blocks @ b])"
      using region(1) inv(4) concat_butlast[OF inv(6)] by simp
  qed (use assms(2) inv map region(2) last in simp_all)
qed

lemma routes_inv_step:
  assumes "routes_inv S0 as S" and "conv_step e S a S'"
  shows "routes_inv S0 (as @ [a]) S'"
proof -
  have lock: "lock_inv S'" using assms(1) lock_inv_step[OF assms(2)] by (simp add: routes_inv_def)
  show ?thesis
    using assms(2)
  proof (cases rule: conv_step_cases)
    case (worker w)
    note frame = worker_move_frame[OF worker(2)]
    show ?thesis
      using worker(2)
    proof (cases rule: worker_move_cases)
      case outside
      then have same: "published S' = published S" "conv_pub S' = conv_pub S" "cv_map (cs_conv S') = cv_map (cs_conv S)"
        using quiet_published[of S S'] by (simp_all add: outside_def)
      have "unsent_at (point_at w' S') = unsent_at (point_at w' S)" for w'
        using outside(2,3) point_at_frame[OF frame, of w']
        by (cases "w' = w") (simp_all add: outside_def unsent_in_region)
      then show ?thesis using same outside(1) by (intro routes_inv_quiet[OF assms(1) lock]) simp_all
    next
      case (enter msgs)
      have "unsent_at (point_at w' S') = unsent_at (point_at w' S)" for w'
        using enter(2,5) by (cases "w' = w") simp_all
      then show ?thesis using enter(1,5) by (intro routes_inv_quiet[OF assms(1) lock]) simp_all
    next
      case (route msgs)
      then show ?thesis using routes_inv_route[OF assms(1) lock] by simp
    next
      case (send ts topic msg topics)
      then show ?thesis using routes_inv_send[OF assms(1) lock] by simp
    qed
  next
    case aside
    have "unsent_at (cs_rcv S) = []" if "cs_owner S = InBody"
      using assms(1) that lock_invD(3)[of S] by (simp add: routes_inv_def)
    then have "unsent_at (point_at w S') = unsent_at (point_at w S)" for w
      using aside(2) by (cases w) (auto simp: aside_def)
    note unsent = this
    show ?thesis
      by (rule routes_inv_quiet[OF assms(1) lock]) (use aside(2)[unfolded aside_def] unsent in blast)+
  qed
qed

lemma routes_inv_refl: "lock_inv S \<Longrightarrow> \<forall>w. unsent_at (point_at w S) = [] \<Longrightarrow> routes_inv S [] S"
  by (rule routes_invI[where blocks = "[]" and rs = "[]"]) simp_all

section \<open>Nothing is lost while the publisher takes the messages\<close>

definition takes_all :: "env \<Rightarrow> nat \<Rightarrow> bool" where
  "takes_all e sock \<longleftrightarrow> (\<forall>h msg. zmq_throws e h (ZmqSend sock msg) = None)"

definition unsent :: "conv_system \<Rightarrow> string list list" where
  "unsent S = unsent_at (cs_sub S) @ unsent_at (cs_rcv S)"

text \<open>Only one of the two threads has messages to send, so the order of the two does not matter.\<close>

lemma unsent_region:
  assumes "lock_inv S" and "in_region (point_at w S)"
  shows "unsent S = unsent_at (point_at w S)"
  using others_unsent[OF assms, of SubThread] others_unsent[OF assms, of RcvThread]
  by (cases w) (simp_all add: unsent_def)

lemma unsent_eq:
  "(\<And>w. unsent_at (point_at w S') = unsent_at (point_at w S)) \<Longrightarrow> unsent S' = unsent S"
  by (metis point_at.simps unsent_def)

lemma unsent_frame:
  assumes "same_frame w S S'" and "unsent_at (point_at w S') = unsent_at (point_at w S)"
  shows "unsent S' = unsent S"
  using assms by (intro unsent_eq) (metis point_at_frame)

text \<open>With such a publisher every message routed is published or still to be published.\<close>

definition complete_inv :: "env \<Rightarrow> conv_system \<Rightarrow> conv_action list \<Rightarrow> conv_system \<Rightarrow> bool" where
  "complete_inv e S0 as S \<longleftrightarrow>
     (takes_all e (pub_socket (conv_pub S0)) \<longrightarrow> pub_open (conv_pub S) \<longrightarrow> \<not> crashed S \<longrightarrow>
      published S @ unsent S = published S0 @ concat (snd (spec_run (cv_map (cs_conv S0)) as)))"

lemma spec_do_out: "snd (spec_do a (m, out)) = out @ snd (spec_do a (m, []))"
  by (cases a) simp_all

lemma spec_run_out:
  "fst (spec_run m as) = m' \<Longrightarrow> snd (spec_run m (as @ [a])) = snd (spec_run m as) @ snd (spec_do a (m', []))"
  using spec_do_out[of a "fst (spec_run m as)" "snd (spec_run m as)"] by (cases "spec_run m as") simp

lemma complete_inv_step:
  assumes "complete_inv e S0 as S" and "routes_inv S0 as S" and "\<not> crashed S"
    and "pub_open (conv_pub S') \<Longrightarrow> pub_open (conv_pub S)"
    and "takes_all e (pub_socket (conv_pub S0)) \<Longrightarrow> pub_open (conv_pub S) \<Longrightarrow> \<not> crashed S' \<Longrightarrow>
      published S' @ unsent S' = published S @ unsent S @ concat (snd (spec_do a (cv_map (cs_conv S), [])))"
  shows "complete_inv e S0 (as @ [a]) S'"
proof -
  have "fst (spec_run (cv_map (cs_conv S0)) as) = cv_map (cs_conv S)"
    using assms(2) by (auto elim: routes_invE)
  from spec_run_out[OF this, of a] show ?thesis
    using assms(1,3-5) unfolding complete_inv_def by (metis append.assoc concat_append)
qed

lemma crashed_point: "crashed_at (point_at w S) \<Longrightarrow> crashed S"
  by (metis crashed_iff)

lemma complete_inv_worker:
  assumes "complete_inv e S0 as S" and "routes_inv S0 as S" and "\<not> crashed S" and "worker_move e w S = Some (a, S')"
  shows "complete_inv e S0 (as @ [a]) S'"
proof -
  have lock: "lock_inv S" and sock: "pub_socket (conv_pub S) = pub_socket (conv_pub S0)"
    using assms(2) by (auto elim: routes_invE)
  note frame = worker_move_frame[OF assms(4)]
  have quiet: "complete_inv e S0 (as @ [a]) S'" if "quiet_change S S'" "a = Move w" "unsent_at (point_at w S') = unsent_at (point_at w S)"
    using quiet_published[OF that(1)] unsent_frame[OF frame that(3)] that(2)
    by (intro complete_inv_step[OF assms(1-3)]) simp_all
  show ?thesis
    using assms(4)
  proof (cases rule: worker_move_cases)
    case outside
    then show ?thesis by (intro quiet) (simp_all add: outside_def unsent_in_region)
  next
    case (enter msgs)
    then show ?thesis by (intro quiet) simp_all
  next
    case (route msgs)
    have region: "in_region (point_at w S)" "unsent_at (point_at w S) = []" using route(2) by simp_all
    have others: "unsent_at (point_at w' S') = []" if "w' \<noteq> w" for w'
      using others_unsent[OF lock region(1) that] point_at_frame[OF frame that] by simp
    have "unsent S' = unsent_at (point_at w S')"
      using others[of SubThread] others[of RcvThread] by (cases w) (simp_all add: unsent_def)
    moreover have "unsent S = []" using unsent_region[OF lock region(1)] region(2) by simp
    moreover note look_up_region[of w S msgs, folded route(3)]
    ultimately show ?thesis
      using quiet_published[of S S'] crashed_point[of w S'] route(1)
      by (intro complete_inv_step[OF assms(1-3)]) auto
  next
    case (send ts topic msg topics)
    have region: "in_region (point_at w S)" "unsent_at (point_at w S) = map (\<lambda>t. [t, msg]) ts" using send(2) by simp_all
    have others: "unsent_at (point_at w' S') = []" if "w' \<noteq> w" for w'
      using others_unsent[OF lock region(1) that] point_at_frame[OF frame that] by simp
    have "unsent S' = unsent_at (point_at w S')"
      using others[of SubThread] others[of RcvThread] by (cases w) (simp_all add: unsent_def)
    moreover have "unsent S = map (\<lambda>t. [t, msg]) ts" using unsent_region[OF lock region(1)] region(2) by simp
    moreover obtain b where "published S' = published S @ b" "pub_open (conv_pub S') = pub_open (conv_pub S)"
      "b @ unsent_at (point_at w S') = map (\<lambda>t. [t, msg]) ts \<or>
       (pub_open (conv_pub S) \<longrightarrow> (\<exists>h c n. zmq_throws e h (ZmqSend (pub_socket (conv_pub S)) c) = Some n))"
      using send_next_region[of w S e ts topic msg topics, folded send(3)] by blast
    ultimately show ?thesis
      using send(1) sock by (intro complete_inv_step[OF assms(1-3)]) (auto simp: takes_all_def)
  qed
qed

lemma complete_inv_conv_step:
  assumes "complete_inv e S0 as S" and "routes_inv S0 as S" and "conv_step e S a S'"
  shows "complete_inv e S0 (as @ [a]) S'"
  using assms(3)
proof (cases rule: conv_step_cases)
  case (worker w)
  then show ?thesis by (intro complete_inv_worker[OF assms(1,2)])
next
  case aside
  note a = aside(2)[unfolded aside_def]
  have "unsent_at (cs_rcv S) = []" if "cs_owner S = InBody"
    using assms(2) that lock_invD(3)[of S] by (auto elim!: routes_invE)
  then have "unsent S' = unsent S" using a by (auto simp: unsent_def)
  then show ?thesis
    by (intro complete_inv_step[OF assms(1,2) aside(1)]) (use a in auto)
qed

lemma conv_run_invariants:
  assumes "conv_run e S as S'" and "lock_inv S" and "unsent S = []"
  shows "routes_inv S as S' \<and> complete_inv e S as S'"
proof (rule conv_run_invariant[OF assms(1), where I = "\<lambda>as T. routes_inv S as T \<and> complete_inv e S as T"])
  have "\<forall>w. unsent_at (point_at w S) = []"
    using assms(3) by (metis point_at.simps unsent_def worker.exhaust append_is_Nil_conv)
  then show "routes_inv S [] S \<and> complete_inv e S [] S"
    using assms(2,3) by (simp add: routes_inv_refl complete_inv_def)
qed (use routes_inv_step complete_inv_conv_step in blast)

end
