(* ===== verification/ConvSafety.thy ===== *)
theory ConvSafety
  imports ConvThreads
begin

text \<open>
  The properties of the converter and its threads: the handlers and the lock, the order in which
  messages are published, what a converter in service survives, what the window around it costs,
  and what \<open>Stop\<close> waits for.
\<close>

section \<open>Playing a schedule\<close>

text \<open>A schedule of the process, as a list of who acts next; used to exhibit runs.\<close>

datatype turn = Thread worker | OwnerTurn | Adding string "string list" | Destroy

definition play_turn :: "env \<Rightarrow> turn \<Rightarrow> conv_system \<Rightarrow> (conv_action \<times> conv_system) option" where
  "play_turn e c S =
     (if crashed S then None
      else case c of
        Thread w \<Rightarrow> worker_move e w S
      | OwnerTurn \<Rightarrow> map_option (\<lambda>S'. (Own, S')) (owner_move S)
      | Adding t ts \<Rightarrow>
          if cs_owner S = Serving \<and> cs_lock S = None
          then (case AddConversion e t ts (cs_conv S, cs_hist S) of
                  (Inr _, v, h) \<Rightarrow> Some (Add t ts, S\<lparr>cs_conv := v, cs_hist := h\<rparr>)
                | (Inl _, v, h) \<Rightarrow> Some (Refused t, S\<lparr>cs_conv := v, cs_hist := h\<rparr>))
          else None
      | Destroy \<Rightarrow> if cs_owner S = Serving then Some (Leave, S\<lparr>cs_phase := NoMembers, cs_owner := Leaving\<rparr>) else None)"

fun play :: "env \<Rightarrow> turn list \<Rightarrow> conv_system \<Rightarrow> (conv_action list \<times> conv_system) option" where
  "play e [] S = Some ([], S)"
| "play e (c # cs) S =
     (case play_turn e c S of
        None \<Rightarrow> None
      | Some (a, T) \<Rightarrow> map_option (\<lambda>(as, U). (a # as, U)) (play e cs T))"

lemma play_turn_step: "play_turn e c S = Some (a, S') \<Longrightarrow> conv_step e S a S'"
  by (auto simp: play_turn_def intro: conv_step.intros split: if_splits turn.splits sum.splits prod.splits)

lemma play_run: "play e cs S = Some (as, S') \<Longrightarrow> conv_run e S as S'"
proof (induction cs arbitrary: S as)
  case Nil
  then show ?case by (simp add: conv_none)
next
  case (Cons c cs)
  then obtain a T as' where "play_turn e c S = Some (a, T)" "play e cs T = Some (as', S')" "as = a # as'"
    by (auto split: option.splits)
  then show ?case using Cons.IH play_turn_step conv_run_cons by blast
qed

lemma conv_run_trans: "conv_run e T bs U \<Longrightarrow> conv_run e S as T \<Longrightarrow> conv_run e S (as @ bs) U"
proof (induction rule: conv_run.induct)
  case (conv_more T bs U a V)
  then have "conv_run e S ((as @ bs) @ [a]) V" by (intro conv_run.conv_more) auto
  then show ?case by simp
qed simp

text \<open>An outside that has a message on each socket whenever it is asked.\<close>

definition routing_env :: env where
  "routing_env = quiet_env\<lparr>zmq_pollin := (\<lambda>_ _. True),
     zmq_frames := (\<lambda>_ k. if k = 1 then [''in'', ''x''] else [''z''])\<rparr>"

definition sample_system :: conv_system where
  "sample_system = conv_start routing_env 0 ''conv'' [''p''] ''s'' ''r'' [''in'']
     [''in'' \<mapsto> [''out1'', ''out2''], receiver_topic \<mapsto> [''out3'']] []"

abbreviation sub_turns :: "nat \<Rightarrow> turn list" where
  "sub_turns n \<equiv> replicate n (Thread SubThread)"

abbreviation rcv_turns :: "nat \<Rightarrow> turn list" where
  "rcv_turns n \<equiv> replicate n (Thread RcvThread)"

definition service_turns :: "turn list" where
  "service_turns = replicate 4 OwnerTurn"

text \<open>The subscriber's thread sends the first of two messages while the receiver's waits for the lock.\<close>

definition sample_turns :: "turn list" where
  "sample_turns = service_turns @ sub_turns 7 @ rcv_turns 5 @ sub_turns 1"

lemmas play_simps =
  play_turn_def owner_move_def worker_move_def hand_over_def look_up_def unlock_def on_base_def on_sub_def on_rcv_def
  go_to.simps numeral_eq_Suc zmq_defs sub_setup_def sub_setup_try_def sub_set_def rcv_setup_def publishMsg_def
  pub_send_def WELCOME_TOPIC_def CTRL_TOPIC_def receiver_topic_def Let_def

lemmas sample_simps =
  play_simps sample_system_def conv_start_def ConvStack_new_def ZmqStack_new_def Publisher_new_def Subscriber_new_def
  Receiver_new_def routing_env_def quiet_env_def service_turns_def

lemma sample_play:
  "\<exists>S. play routing_env sample_turns sample_system = Some
      ([Own, Own, Own, Own] @ replicate 6 (Move SubThread) @ [Route SubThread [''in'', ''x'']] @
       replicate 5 (Move RcvThread) @ [Move SubThread], S) \<and>
     cs_sub S = Sending [''out2''] ''in'' ''x'' [''out1'', ''out2''] \<and> cs_rcv S = Waiting [''z''] \<and>
     published S = [[''out1'', ''x'']] \<and> pub_open (conv_pub S) \<and> cs_owner S = Serving"
  by (simp add: sample_simps sample_turns_def sent_on_def List.map_filter_def)

lemma sample_start_published: "sent_on 0 (cs_hist sample_system) = []" "pub_socket (conv_pub sample_system) = 0"
  by (simp_all add: sample_simps sent_on_def List.map_filter_def)

section \<open>The handlers and the lock\<close>

text \<open>C8: the two threads of a converter are never both in the region of its lock. From the
  construction of the object on, through service, conversions added and removed, and
  destruction, a thread that looks a message up or publishes it holds the lock, and as long as
  the process lives the lock is held by nobody else: every way out of the handler, the
  exception of a send included, has released it.\<close>

theorem handlers_exclude_each_other:
  assumes "conv_run e (conv_start e sock name pubEndpoints subEndpoint receiverEndpoint subTopics conversionMap h) as S"
  shows "\<not> (in_region (cs_sub S) \<and> in_region (cs_rcv S)) \<and>
     (crashed S \<or> (\<forall>w. cs_lock S = Some w \<longleftrightarrow> in_region (point_at w S)))"
proof -
  have inv: "lock_inv S" by (rule lock_inv_run[OF assms lock_inv_start])
  have "\<not> (in_region (cs_sub S) \<and> in_region (cs_rcv S))"
    using lock_invD(1)[OF inv, of SubThread] lock_invD(1)[OF inv, of RcvThread] by auto
  moreover have "crashed S \<or> (\<forall>w. cs_lock S = Some w \<longleftrightarrow> in_region (point_at w S))"
    using lock_invD(1,2)[OF inv] by blast
  ultimately show ?thesis ..
qed

theorem handlers_exclude_each_other_witness:
  "\<exists>as S. conv_run routing_env sample_system as S \<and> in_region (cs_sub S) \<and> cs_rcv S = Waiting [''z''] \<and>
     \<not> in_region (cs_rcv S) \<and> cs_lock S = Some SubThread"
proof -
  obtain as S where play: "play routing_env sample_turns sample_system = Some (as, S)"
    and at: "cs_sub S = Sending [''out2''] ''in'' ''x'' [''out1'', ''out2'']" "cs_rcv S = Waiting [''z'']"
    using sample_play by blast
  from play_run[OF play] have run: "conv_run routing_env sample_system as S" .
  from handlers_exclude_each_other[OF run[unfolded sample_system_def]] at
  have "cs_lock S = Some SubThread" by (auto dest: spec[where x = SubThread])
  with run at show ?thesis by (intro exI[where x = as] exI[where x = S]) simp
qed

text \<open>C7: the converter implements its specification, a map from topics to topics with a list of
  publications. Whatever the order in which its two threads, their sends and the owner's
  \<open>AddConversion\<close> and \<open>RemoveConversion\<close> interleave, what it has put on the publisher's socket is,
  message by message in the order in which the lock was taken, what the map gave at that
  moment: the blocks of two messages are never mixed, and a block is cut short only by an
  exception. While the publisher is open, the process alive and no send throws, every
  publication of every message is on the socket or still held by the thread under the lock.\<close>

theorem conversions_in_lock_order:
  assumes "conv_run e S as S'"
    and "S = conv_start e sock name pubEndpoints subEndpoint receiverEndpoint subTopics conversionMap h"
  shows "\<exists>blocks routes. spec_run conversionMap as = (cv_map (cs_conv S'), routes) \<and>
     published S' = published S @ concat blocks \<and> list_all2 prefix blocks routes \<and>
     (takes_all e (pub_socket (conv_pub S)) \<and> pub_open (conv_pub S') \<and> \<not> crashed S' \<longrightarrow>
      published S' @ unsent S' = published S @ concat routes)"
proof -
  have "unsent S = []" "cv_map (cs_conv S) = conversionMap" unfolding assms(2) by (simp_all add: unsent_def conv_start_fields)
  moreover have "lock_inv S" unfolding assms(2) by (rule lock_inv_start)
  ultimately have inv: "routes_inv S as S'" "complete_inv e S as S'"
    using conv_run_invariants[OF assms(1)] by blast+
  from inv(1) obtain blocks rs where
    "spec_run (cv_map (cs_conv S)) as = (cv_map (cs_conv S'), rs)" "published S' = published S @ concat blocks"
    "list_all2 prefix blocks rs"
    by (rule routes_invE)
  then show ?thesis using inv(2) \<open>cv_map (cs_conv S) = conversionMap\<close>
    by (intro exI[where x = blocks] exI[where x = rs]) (simp add: complete_inv_def)
qed

theorem conversions_in_lock_order_witness:
  "\<exists>as S. conv_run routing_env sample_system as S \<and>
     published S @ unsent S = [[''out1'', ''x''], [''out2'', ''x'']] \<and> cs_rcv S = Waiting [''z'']"
proof -
  obtain S where play: "play routing_env sample_turns sample_system = Some
      ([Own, Own, Own, Own] @ replicate 6 (Move SubThread) @ [Route SubThread [''in'', ''x'']] @
       replicate 5 (Move RcvThread) @ [Move SubThread], S)" (is "_ = Some (?as, S)")
    and at: "cs_sub S = Sending [''out2''] ''in'' ''x'' [''out1'', ''out2'']" "cs_rcv S = Waiting [''z'']"
      "pub_open (conv_pub S)"
    using sample_play by blast
  note run = play_run[OF play]
  have takes: "takes_all routing_env 0" by (simp add: takes_all_def routing_env_def quiet_env_def)
  from conversions_in_lock_order[OF run sample_system_def] obtain blocks routes where
    routes: "spec_run [''in'' \<mapsto> [''out1'', ''out2''], receiver_topic \<mapsto> [''out3'']] ?as = (cv_map (cs_conv S), routes)"
    "takes_all routing_env (pub_socket (conv_pub sample_system)) \<and> pub_open (conv_pub S) \<and> \<not> crashed S \<longrightarrow>
      published S @ unsent S = published sample_system @ concat routes"
    by blast
  have "published S @ unsent S = concat routes"
    using routes(2) takes at by (simp add: sample_start_published)
  moreover from routes(1) have "routes = [[[''out1'', ''x''], [''out2'', ''x'']]]"
    by (simp add: spec_run_def numeral_eq_Suc routed_message_def routed_def receiver_topic_def)
  ultimately show ?thesis using run at(2) by auto
qed

section \<open>A converter in service\<close>

lemma sub_set_only_zmq: "only_zmq (fst (sub_set e opt s h))"
  by (auto simp: sub_set_def zmq_call_def split: option.splits)

lemma zmq_call_only_zmq: "only_zmq (fst (zmq_call e c h))"
  by (auto simp: zmq_call_def split: option.splits)

lemma set_up_returns: "\<exists>h. set_up e w S = (Inr (), h)"
proof -
  have caught: "\<exists>h. catch_zmq r (\<lambda>n h. (Inr (), f n h)) = (Inr (), h)" if "only_zmq (fst r)" for r :: "unit outcome \<times> history" and f
    using that by (cases r) (auto simp: catch_zmq_def only_zmq_def split: sum.splits error.splits)
  show ?thesis
  proof (cases w)
    case SubThread
    have "only_zmq (fst (sub_setup_try e (sub_part S) (cs_hist S)))"
      unfolding sub_setup_try_def
      by (intro only_zmq_andThen sub_set_only_zmq only_zmq_for_each zmq_call_only_zmq) simp
    then show ?thesis unfolding SubThread set_up.simps sub_setup_def by (rule caught)
  next
    case RcvThread
    have "only_zmq (fst (andThen (zmq_call e (ZmqSet (rcv_socket r) (Linger 0)) h) (\<lambda>_ h.
          zmq_call e (ZmqBind (rcv_socket r) (rcv_endpoint r)) (log_info m h))))" for r m h
      by (intro only_zmq_andThen zmq_call_only_zmq)
    then show ?thesis unfolding RcvThread set_up.simps rcv_setup_def by (rule caught)
  qed
qed

text \<open>
  What a socket may deliver: at least one part, and two from the control channel. This is the
  least the handlers ask for.
\<close>

fun frames_ok :: "worker \<Rightarrow> string list \<Rightarrow> bool" where
  "frames_ok SubThread msgs \<longleftrightarrow> msgs \<noteq> [] \<and> (hd msgs = CTRL_TOPIC \<longrightarrow> 2 \<le> length msgs)"
| "frames_ok RcvThread msgs \<longleftrightarrow> msgs \<noteq> []"

definition good_frames :: "env \<Rightarrow> conv_system \<Rightarrow> bool" where
  "good_frames e S \<longleftrightarrow>
     (\<forall>h. frames_ok SubThread (zmq_frames e h (sub_socket (sub_part S))) \<and>
          (\<forall>r. zs_receiver (cv_base (cs_conv S)) = Some r \<longrightarrow> frames_ok RcvThread (zmq_frames e h (rcv_socket r))))"

fun safe_point :: "worker \<Rightarrow> point \<Rightarrow> bool" where
  "safe_point w (Holding msgs) \<longleftrightarrow> frames_ok w msgs"
| "safe_point w (Waiting msgs) \<longleftrightarrow> msgs \<noteq> []"
| "safe_point w (Looking msgs) \<longleftrightarrow> msgs \<noteq> []"
| "safe_point w (Crashed _) \<longleftrightarrow> False"
| "safe_point w _ \<longleftrightarrow> True"

text \<open>The object is complete; the owner uses it, or is in \<open>Stop\<close> (not in the destructor).\<close>

definition in_service :: "conv_system \<Rightarrow> bool" where
  "in_service S \<longleftrightarrow>
     cs_phase S = Alive \<and>
     cs_owner S \<in> {Serving, StopSubscriber, JoinSubscriber, StopPublisher, StopReceiver, JoinReceiver, Stopped} \<and>
     (cs_rcv S \<noteq> Absent \<longrightarrow> zs_receiver (cv_base (cs_conv S)) \<noteq> None) \<and>
     (\<forall>w. safe_point w (point_at w S))"

lemma safe_not_crashed: "in_service S \<Longrightarrow> \<not> crashed S"
  unfolding crashed_iff in_service_def by (metis crashed_at.elims(2) safe_point.simps(4))

text \<open>The sockets stay what they are.\<close>

definition sockets :: "conv_system \<Rightarrow> nat \<times> nat option" where
  "sockets S = (sub_socket (sub_part S), map_option rcv_socket (zs_receiver (cv_base (cs_conv S))))"

lemma good_frames_sockets: "sockets S' = sockets S \<Longrightarrow> good_frames e S' = good_frames e S"
  by (cases "zs_receiver (cv_base (cs_conv S))"; cases "zs_receiver (cv_base (cs_conv S'))")
     (auto simp: sockets_def good_frames_def)

lemma sockets_update [simp]:
  "sockets (go_to w p S) = sockets S" "sockets (S\<lparr>cs_hist := h\<rparr>) = sockets S" "sockets (S\<lparr>cs_lock := l\<rparr>) = sockets S"
  "sockets (S\<lparr>cs_owner := ow\<rparr>) = sockets S" "sockets (S\<lparr>cs_phase := ph\<rparr>) = sockets S"
  "sockets (S\<lparr>cs_rcv := pt\<rparr>) = sockets S"
  "sockets (unlock w p S) = sockets S" "sockets (on_base (\<lambda>z. z\<lparr>zs_publisher := q\<rparr>) S) = sockets S"
  by (simp_all add: sockets_def unlock_def)

lemma sockets_on_part [simp]:
  "(\<And>s. sub_socket (f s) = sub_socket s) \<Longrightarrow> sockets (on_sub f S) = sockets S"
  "(\<And>r. rcv_socket (g r) = rcv_socket r) \<Longrightarrow> sockets (on_rcv g S) = sockets S"
  by (simp_all add: sockets_def option.map_comp comp_def)

lemma sockets_count [simp]: "sockets (count_one w S) = sockets S" "sockets (count_message w S) = sockets S"
  by (cases w; simp)+

lemma sockets_close [simp]: "sockets (close_socket w S) = sockets S"
  by (cases w; cases "zs_receiver (cv_base (cs_conv S))")
     (simp_all add: sub_close_def rcv_close_def sockets_def)

lemma sockets_hand_over [simp]: "sockets (hand_over w msgs S) = sockets S"
  by (auto simp: hand_over_def split: phase.split prod.split sum.split)

lemma sockets_dispatch [simp]: "sockets (dispatch w msgs S) = sockets S"
  by (cases w) (auto split: list.split prod.split sum.split)

lemma sockets_look_up [simp]: "sockets (look_up w msgs S) = sockets S"
  by (auto simp: look_up_def Let_def split: prod.split option.split)

lemma sockets_send_next [simp]: "sockets (send_next e w p S) = sockets S"
  by (cases "(e, w, p, S)" rule: send_next.cases) (auto simp: Let_def split: prod.split sum.split error.split)

lemma worker_move_sockets:
  assumes "worker_move e w S = Some (a, S')"
  shows "sockets S' = sockets S"
  using assms by (cases "point_at w S") (auto simp: worker_move_def split: prod.splits sum.splits error.splits if_splits)

lemma conversion_sockets:
  "AddConversion e t ts (v, h) = (r, v', h') \<Longrightarrow>
     zs_subscriber (cv_base v') = zs_subscriber (cv_base v) \<and> zs_receiver (cv_base v') = zs_receiver (cv_base v)"
  "RemoveConversion e t (v, h) = (r, v', h') \<Longrightarrow>
     zs_subscriber (cv_base v') = zs_subscriber (cv_base v) \<and> zs_receiver (cv_base v') = zs_receiver (cv_base v)"
  by (auto simp: AddConversion_def RemoveConversion_def ZmqStack_Subscribe_def ZmqStack_Unsubscribe_def Let_def
      split: prod.splits sum.splits)

lemma owner_move_sockets: "owner_move S = Some S' \<Longrightarrow> sockets S' = sockets S"
  by (cases "cs_owner S") (auto simp: owner_move_def Let_def split: if_splits prod.splits option.splits)

lemma sockets_conv:
  "zs_subscriber (cv_base v) = sub_part S \<and> zs_receiver (cv_base v) = zs_receiver (cv_base (cs_conv S)) \<Longrightarrow>
     sockets (S\<lparr>cs_conv := v\<rparr>) = sockets S"
  by (simp add: sockets_def)

lemma conv_step_sockets: "conv_step e S a S' \<Longrightarrow> sockets S' = sockets S"
  by (erule conv_stepE)
     (auto simp: worker_move_sockets owner_move_sockets intro!: sockets_conv dest: conversion_sockets)

text \<open>An action of a thread of a converter in service leaves it in service.\<close>

lemma base_handlers_ok:
  "2 \<le> length msgs \<Longrightarrow> \<exists>h'. ZmqStack_onCtrlMessage msgs (z, h) = (Inr (), z, h')"
  by (cases msgs; cases "tl msgs") (simp_all add: ZmqStack_onCtrlMessage_def)

lemma dispatch_safe:
  assumes "frames_ok w msgs" and "cs_phase S = Alive"
  shows "safe_point w (point_at w (dispatch w msgs S))"
proof (cases w)
  case SubThread
  then show ?thesis using assms base_handlers_ok[of msgs "()" "cs_hist S"]
    by (cases msgs) (auto simp: hand_over_def)
next
  case RcvThread
  then show ?thesis using assms by (simp add: hand_over_def)
qed

lemma look_up_safe: "msgs \<noteq> [] \<Longrightarrow> cs_phase S = Alive \<Longrightarrow> safe_point w (point_at w (look_up w msgs S))"
  by (auto simp: look_up_def unlock_def Let_def split: prod.split option.split)

lemma publishMsg_zmq: "publishMsg e t msg ph = (Inl err, st) \<Longrightarrow> \<exists>n. err = ZmqError n"
  using publishMsg_only_zmq[of e t msg ph] by (cases err) auto

lemma send_next_safe:
  assumes "cs_phase S = Alive"
  shows "safe_point w (point_at w (send_next e w (Sending ts topic msg topics) S))"
proof (cases ts)
  case (Cons t ts')
  obtain r p h where pub: "publishMsg e t msg (conv_pub S, cs_hist S) = (r, p, h)" by (metis surj_pair)
  then show ?thesis using Cons assms publishMsg_zmq[of e t msg "(conv_pub S, cs_hist S)"]
    by (cases r) (auto simp: unlock_def Let_def split: error.split)
qed (use assms in \<open>simp add: unlock_def\<close>)

lemma worker_move_safe:
  assumes "worker_move e w S = Some (a, S')" and "in_service S" and "good_frames e S"
  shows "safe_point w (point_at w S')"
proof -
  have alive: "cs_phase S = Alive" and safe: "safe_point w (point_at w S)" and rcv: "cs_rcv S \<noteq> Absent \<longrightarrow> zs_receiver (cv_base (cs_conv S)) \<noteq> None"
    using assms(2) by (auto simp: in_service_def)
  obtain h where ready: "set_up e w S = (Inr (), h)" using set_up_returns by blast
  show ?thesis
  proof (cases "point_at w S")
    case Reading
    have "frames_ok w (zmq_frames e h (socket_of w S))" for h
      using assms(3) rcv Reading by (cases w) (auto simp: good_frames_def)
    then show ?thesis using assms(1) Reading
      by (auto simp: worker_move_def zmq_defs split: option.splits if_splits)
  qed (use assms(1) ready alive safe dispatch_safe look_up_safe send_next_safe in
      \<open>auto simp: worker_move_def zmq_defs split: option.splits if_splits\<close>)
qed

lemma Ended_stays: "worker_move e w S = Some (a, S') \<Longrightarrow> point_at w S \<noteq> Ended"
  by (auto simp: worker_move_def)

lemma in_service_worker:
  assumes "worker_move e w S = Some (a, S')" and "in_service S" and "good_frames e S"
  shows "in_service S'"
proof -
  note frame = worker_move_frame[OF assms(1)]
  have "safe_point w' (point_at w' S')" for w'
    using worker_move_safe[OF assms] point_at_frame[OF frame, of w'] assms(2)
    by (cases "w' = w") (simp_all add: in_service_def)
  moreover have "cs_rcv S' \<noteq> Absent \<longrightarrow> cs_rcv S \<noteq> Absent"
    using point_at_frame[OF frame, of RcvThread] absent_stays[OF assms(1)] by (cases w) auto
  moreover have "(zs_receiver (cv_base (cs_conv S')) = None) = (zs_receiver (cv_base (cs_conv S)) = None)"
    using worker_move_sockets[OF assms(1)] by (cases "zs_receiver (cv_base (cs_conv S))") (auto simp: sockets_def)
  ultimately show ?thesis using frame assms(2) by (auto simp: in_service_def same_frame_def)
qed

lemma in_service_owner:
  assumes "owner_move S = Some S'" and "in_service S"
  shows "in_service S'"
proof -
  have "safe_point w (point_at w S')" if "cs_sub S' = cs_sub S" "cs_rcv S' = cs_rcv S" for w
    using that assms(2) by (cases w) (auto simp: in_service_def dest: spec[where x = SubThread] spec[where x = RcvThread])
  then show ?thesis using assms
    by (cases "cs_owner S") (auto simp: owner_move_def in_service_def Let_def split: if_splits prod.splits option.splits)
qed

lemma in_service_conversion:
  assumes "in_service S" and "zs_receiver (cv_base v) = zs_receiver (cv_base (cs_conv S))"
  shows "in_service (S\<lparr>cs_conv := v, cs_hist := h\<rparr>)"
  using assms by (simp add: in_service_def)

lemma in_service_step:
  assumes "conv_step e S a S'" and "in_service S" and "good_frames e S" and "a \<noteq> Leave"
  shows "in_service S'"
  using assms(1)
proof cases
  case (by_worker w)
  then show ?thesis using in_service_worker assms(2,3) by blast
next
  case by_owner
  then show ?thesis using in_service_owner assms(2) by blast
qed (use assms(2,4) in \<open>auto intro!: in_service_conversion dest: conversion_sockets\<close>)


text \<open>The sample converter once its owner is done with the constructors.\<close>

lemma sample_service:
  "\<exists>S. play routing_env service_turns sample_system = Some (replicate 4 Own, S) \<and> cs_sub S = Starting \<and> cs_rcv S = Starting \<and>
     cs_phase S = Alive \<and> cs_owner S = Serving \<and> sub_part S = sub_part sample_system \<and>
     zs_receiver (cv_base (cs_conv S)) = Some (Receiver_new 2 ''r'') \<and> pub_open (conv_pub S)"
  by (simp add: sample_simps)

lemma sample_in_service:
  assumes "cs_sub S = Starting" "cs_rcv S = Starting" "cs_phase S = Alive" "cs_owner S = Serving"
    "sub_part S = sub_part sample_system" "zs_receiver (cv_base (cs_conv S)) = Some (Receiver_new 2 ''r'')"
  shows "in_service S" and "good_frames routing_env S"
proof -
  have "safe_point w (point_at w S)" for w using assms(1,2) by (cases w) simp_all
  then show "in_service S" using assms by (simp add: in_service_def)
  have "sub_socket (sub_part S) = 1" unfolding assms(5) by (simp add: sample_simps)
  then show "good_frames routing_env S"
    using assms(6) by (simp add: good_frames_def routing_env_def CTRL_TOPIC_def)
qed


section \<open>Around the service\<close>

text \<open>C12: what becomes of a message that is there when the subscriber's thread first reads is decided
  by a race with the constructor that started the thread. If the thread is faster than the
  rest of the base constructor the message is handed over before the logger exists, which is
  undefined behaviour; if the base is complete but the converter is not, the message is logged,
  counted and lost; only after the last constructor is it routed.\<close>

theorem first_message_races_constructor:
  assumes "S = conv_start e sock name pubEndpoints subEndpoint receiverEndpoint subTopics conversionMap h"
    and "snd (set_up e SubThread S) = h1" and "k = sub_socket (sub_part S)"
    and "zmq_throws e h1 (ZmqPoll k) = None" and "zmq_pollin e h1 k"
    and "zmq_throws e (h1 @ [ZmqPoll k]) (ZmqRecv k) = None"
    and "zmq_frames e (h1 @ [ZmqPoll k]) k = msgs"
    and "msgs \<noteq> []" and "hd msgs \<notin> {WELCOME_TOPIC, CTRL_TOPIC}"
  shows "(\<exists>S'. conv_run e S (replicate 5 (Move SubThread)) S' \<and> crashed S') \<and>
     (\<exists>S'. conv_run e S (Own # replicate 6 (Move SubThread)) S' \<and> \<not> crashed S' \<and> cs_sub S' = AtTop \<and>
        published S' = published S \<and> sub_total (sub_part S') = Suc (sub_total (sub_part S))) \<and>
     (\<exists>S'. conv_run e S (replicate 4 Own @ replicate 6 (Move SubThread) @ [Route SubThread msgs]) S')"
proof -
  obtain topic rest where msgs: "msgs = topic # rest" "topic \<noteq> WELCOME_TOPIC" "topic \<noteq> CTRL_TOPIC"
    using assms(8,9) by (cases msgs) auto
  have start: "cs_sub S = Starting" "cs_rcv S = Absent" "cs_lock S = None" "cs_phase S = NoLogger" "cs_owner S = InBase"
    "\<not> sub_shutdown (sub_part S)"
    unfolding assms(1) by (simp_all add: conv_start_def ConvStack_new_def ZmqStack_new_def Subscriber_new_def Let_def split: prod.split)
  obtain h0 where "set_up e SubThread S = (Inr (), h0)" using set_up_returns by blast
  then have ready: "sub_setup e (sub_part S) (cs_hist S) = (Inr (), h1)" using assms(2) by simp
  note step = play_turn_def worker_move_def numeral_eq_Suc go_to.simps zmq_defs hand_over_def on_sub_def on_base_def owner_move_def
  have "\<exists>S'. play e (sub_turns 5) S = Some (replicate 5 (Move SubThread), S') \<and> crashed S'"
    using start ready msgs assms(3-7) by (simp add: step)
  moreover have "\<exists>S'. play e (OwnerTurn # sub_turns 6) S = Some (Own # replicate 6 (Move SubThread), S') \<and>
      \<not> crashed S' \<and> cs_sub S' = AtTop \<and> published S' = published S \<and> sub_total (sub_part S') = Suc (sub_total (sub_part S))"
  proof -
    have "\<exists>h'. ZmqStack_onReceivedMessage msgs ((), h0) = (Inr (), (), h')" for h0
      using msgs(1) by (cases rest) (simp_all add: ZmqStack_onReceivedMessage_def)
    then obtain f where logged: "\<And>h0. ZmqStack_onReceivedMessage msgs ((), h0) = (Inr (), (), f h0)" by metis
    have "sent_on j (f h0) = sent_on j h0" "sent_on j h1 = sent_on j (cs_hist S)" for j h0
      using silent_sent_on[OF base_handlers_silent(1)[OF logged]] silent_sent_on[OF set_up_silent[of S e SubThread]] assms(2)
      by simp_all
    then show ?thesis using start ready msgs(2,3) assms(3-7) logged[unfolded msgs(1)] unfolding msgs(1)
      by (simp add: step)
  qed
  moreover have "\<exists>S'. play e (service_turns @ sub_turns 7) S =
      Some (replicate 4 Own @ replicate 6 (Move SubThread) @ [Route SubThread msgs], S')"
    using start ready msgs assms(3-7) by (simp add: step service_turns_def)
  ultimately show ?thesis using play_run by blast
qed

theorem first_message_races_constructor_witness:
  "(\<exists>as S'. conv_run routing_env sample_system as S' \<and> crashed S') \<and>
   (\<exists>as S'. conv_run routing_env sample_system as S' \<and> published S' = [] \<and> sub_total (sub_part S') = 1)"
proof -
  have socket: "sub_socket (sub_part sample_system) = 1" "sub_total (sub_part sample_system) = 0"
    by (simp_all add: sample_simps)
  have "zmq_throws routing_env h c = None" "zmq_pollin routing_env h 1" "zmq_frames routing_env h 1 = [''in'', ''x'']" for h c
    by (simp_all add: routing_env_def quiet_env_def)
  moreover have "hd [''in'', ''x''] \<notin> {WELCOME_TOPIC, CTRL_TOPIC}" by (simp add: WELCOME_TOPIC_def CTRL_TOPIC_def)
  ultimately show ?thesis
    using first_message_races_constructor[OF sample_system_def refl socket(1)[symmetric], of "[''in'', ''x'']"]
      sample_start_published socket(2) by (metis One_nat_def list.simps(3))
qed

fun in_handler :: "point \<Rightarrow> bool" where
  "in_handler (Waiting _) = True"
| "in_handler (Looking _) = True"
| "in_handler (Sending _ _ _ _) = True"
| "in_handler _ = False"

lemma crashes_after_destruction:
  assumes "\<not> crashed S" and "cs_phase S \<noteq> Alive" and "in_handler (point_at w S)"
  shows "\<exists>as S'. conv_run e S as S' \<and> crashed S'"
  using assms
proof (induction "length (unsent_at (point_at w S))" arbitrary: S)
  case (0 S)
  have "\<exists>a S'. worker_move e w S = Some (a, S') \<and> crashed_at (point_at w S')"
    using 0 by (cases "point_at w S") (auto simp: worker_move_def look_up_def unlock_def)
  then obtain a S' where "conv_step e S a S'" "crashed S'"
    using 0(2) crashed_point by (blast intro: by_worker)
  then show ?case using conv_run_cons conv_none by blast
next
  case (Suc n S)
  then obtain t ts topic msg topics where at: "point_at w S = Sending (t # ts) topic msg topics" and n: "length ts = n"
    by (cases "point_at w S") (auto simp: Suc_length_conv)
  define S' where "S' = send_next e w (Sending (t # ts) topic msg topics) S"
  have "worker_move e w S = Some (Move w, S')" by (simp add: worker_move_def at S'_def del: send_next.simps)
  then have step: "conv_step e S (Move w) S'" by (rule by_worker[OF Suc.prems(1)])
  have frame: "same_frame w S S'" unfolding S'_def by (rule send_next_frame)
  obtain r p h where pub: "publishMsg e t msg (conv_pub S, cs_hist S) = (r, p, h)" by (metis surj_pair)
  have own: "crashed_at (point_at w S') \<or> point_at w S' = Sending ts topic msg topics"
    using Suc.prems(2) pub by (auto simp: S'_def unlock_def Let_def split: sum.split error.split)
  show ?case
  proof (cases "crashed S'")
    case True
    then show ?thesis using step conv_run_cons conv_none by blast
  next
    case False
    then have "point_at w S' = Sending ts topic msg topics" using own crashed_point by blast
    then obtain as S'' where "conv_run e S' as S''" "crashed S''"
      using Suc.hyps(1)[of S'] False frame Suc.prems(2) n by (auto simp: same_frame_def)
    then show ?thesis using step conv_run_cons by blast
  qed
qed

text \<open>C13: destroying a converter whose thread is in the handler is undefined behaviour. The
  destructor of the converter destroys the map and the lock and only then does the destructor
  of its base stop the threads: from every state in which a thread waits for the lock, looks
  its message up or publishes it there is a run in which, after the owner has started to
  destroy the object, this thread uses a member that no longer exists.\<close>

theorem destruction_while_handling:
  assumes "\<not> crashed S" and "cs_owner S = Serving" and "in_handler (point_at w S)"
  shows "\<exists>as S'. conv_run e S (Leave # as) S' \<and> crashed S'"
proof -
  let ?T = "S\<lparr>cs_phase := NoMembers, cs_owner := Leaving\<rparr>"
  have "\<exists>as S'. conv_run e ?T as S' \<and> crashed S'"
    using assms by (intro crashes_after_destruction[where w = w]) simp_all
  moreover have "conv_step e S Leave ?T" using assms by (intro by_leave)
  ultimately show ?thesis using conv_run_cons by blast
qed

theorem destruction_while_handling_witness:
  "\<exists>as bs S S'. conv_run routing_env sample_system as S \<and> cs_rcv S = Waiting [''z''] \<and>
     conv_run routing_env S (Leave # bs) S' \<and> crashed S'"
proof -
  obtain as S where play: "play routing_env sample_turns sample_system = Some (as, S)"
    and at: "cs_sub S = Sending [''out2''] ''in'' ''x'' [''out1'', ''out2'']" "cs_rcv S = Waiting [''z'']"
    and owner: "cs_owner S = Serving"
    using sample_play by blast
  from play_run[OF play] have run: "conv_run routing_env sample_system as S" .
  from destruction_while_handling[of S RcvThread routing_env] at owner run show ?thesis by auto
qed

end
