(* ===== verification/ConvStop.thy ===== *)
theory ConvStop
  imports ConvSafety
begin

text \<open>
  \<open>ZmqStack::Stop\<close> of a converter whose threads are running: that it returns in every fair
  execution, and what becomes of the messages the receiver takes after the publisher is closed.
\<close>

section \<open>A thread that has been told to stop\<close>

text \<open>How far a thread is from its end; the topics of a message count while they are sent.\<close>

fun stage :: "point \<Rightarrow> nat \<times> nat" where
  "stage Starting = (10, 0)"
| "stage Polling = (9, 0)"
| "stage Reading = (8, 0)"
| "stage (Holding _) = (7, 0)"
| "stage (Waiting _) = (6, 0)"
| "stage (Looking _) = (5, 0)"
| "stage (Sending ts _ _ _) = (4, length ts)"
| "stage Counting = (3, 0)"
| "stage (Caught _) = (2, 0)"
| "stage AtTop = (2, 0)"
| "stage Closing = (1, 0)"
| "stage _ = (0, 0)"

definition closer :: "(point \<times> point) set" where
  "closer = inv_image (less_than <*lex*> less_than) stage"

lemma wf_closer: "wf closer"
  unfolding closer_def by (intro wf_inv_image wf_lex_prod wf_less_than)

lemma dispatch_stage: "fst (stage (point_at w (dispatch w msgs S))) < 7"
  by (cases w) (auto simp: hand_over_def split: list.split prod.split sum.split phase.split)

lemma look_up_stage: "fst (stage (point_at w (look_up w msgs S))) < 5"
  by (auto simp: look_up_def unlock_def Let_def split: prod.split option.split)

lemma send_next_stage:
  "(point_at w (send_next e w (Sending ts topic msg topics) S), Sending ts topic msg topics) \<in> closer"
proof (cases ts)
  case (Cons t ts')
  obtain r p h where "publishMsg e t msg (conv_pub S, cs_hist S) = (r, p, h)" by (metis surj_pair)
  then show ?thesis using Cons by (auto simp: closer_def unlock_def Let_def split: sum.split error.split)
qed (simp add: closer_def unlock_def)

text \<open>Every action of such a thread brings it closer to its end.\<close>

lemma told_moves_closer:
  assumes "worker_move e w S = Some (a, S')" and "told_to_stop w S"
  shows "(point_at w S', point_at w S) \<in> closer"
proof (cases "point_at w S")
  case (Holding msgs)
  then show ?thesis using assms(1) dispatch_stage[of w msgs S]
    by (cases "stage (point_at w (dispatch w msgs S))") (auto simp: worker_move_def closer_def)
next
  case (Looking msgs)
  then show ?thesis using assms(1) look_up_stage[of w msgs S]
    by (cases "stage (point_at w (look_up w msgs S))") (auto simp: worker_move_def closer_def)
next
  case (Sending ts topic msg topics)
  then show ?thesis using assms(1) send_next_stage[of w e ts topic msg topics S] by (auto simp: worker_move_def)
qed (use assms in \<open>auto simp: worker_move_def closer_def split: prod.splits sum.splits error.splits if_splits\<close>)

text \<open>Nobody takes the request back.\<close>

definition flags :: "conv_system \<Rightarrow> bool \<times> bool option" where
  "flags S = (sub_shutdown (sub_part S), map_option rcv_shutdown (zs_receiver (cv_base (cs_conv S))))"

lemma flags_update [simp]:
  "flags (go_to w p S) = flags S" "flags (S\<lparr>cs_hist := h\<rparr>) = flags S" "flags (S\<lparr>cs_lock := l\<rparr>) = flags S"
  "flags (S\<lparr>cs_owner := ow\<rparr>) = flags S" "flags (S\<lparr>cs_phase := ph\<rparr>) = flags S" "flags (S\<lparr>cs_rcv := pt\<rparr>) = flags S"
  "flags (unlock w p S) = flags S" "flags (on_base (\<lambda>z. z\<lparr>zs_publisher := q\<rparr>) S) = flags S"
  by (simp_all add: flags_def unlock_def)

lemma flags_on_part [simp]:
  "(\<And>s. sub_shutdown (f s) = sub_shutdown s) \<Longrightarrow> flags (on_sub f S) = flags S"
  "(\<And>r. rcv_shutdown (g r) = rcv_shutdown r) \<Longrightarrow> flags (on_rcv g S) = flags S"
  by (simp_all add: flags_def option.map_comp comp_def)

lemma flags_count [simp]: "flags (count_one w S) = flags S" "flags (count_message w S) = flags S"
  by (cases w; simp)+

lemma flags_close [simp]: "flags (close_socket w S) = flags S"
  by (cases w; cases "zs_receiver (cv_base (cs_conv S))") (simp_all add: sub_close_def rcv_close_def flags_def)

lemma flags_parts [simp]:
  "flags (hand_over w msgs S) = flags S" "flags (look_up w msgs S) = flags S"
  by (auto simp: hand_over_def look_up_def Let_def split: phase.split prod.split sum.split option.split)

lemma flags_dispatch [simp]: "flags (dispatch w msgs S) = flags S"
  by (cases w) (auto split: list.split prod.split sum.split)

lemma flags_send_next [simp]: "flags (send_next e w p S) = flags S"
  by (cases "(e, w, p, S)" rule: send_next.cases) (auto simp: Let_def split: prod.split sum.split error.split)

lemma worker_move_flags:
  assumes "worker_move e w S = Some (a, S')"
  shows "flags S' = flags S"
  using assms by (cases "point_at w S") (auto simp: worker_move_def split: prod.splits sum.splits error.splits if_splits)

lemma flags_conv:
  "zs_subscriber (cv_base v) = sub_part S \<and> zs_receiver (cv_base v) = zs_receiver (cv_base (cs_conv S)) \<Longrightarrow>
     flags (S\<lparr>cs_conv := v\<rparr>) = flags S"
  by (simp add: flags_def)

definition told :: "worker \<Rightarrow> conv_system \<Rightarrow> bool" where
  "told w S \<longleftrightarrow> told_to_stop w S \<and> (w = RcvThread \<longrightarrow> zs_receiver (cv_base (cs_conv S)) \<noteq> None)"

lemma told_flags: "told w S \<longleftrightarrow> (case w of SubThread \<Rightarrow> fst (flags S) | RcvThread \<Rightarrow> snd (flags S) = Some True)"
  by (cases w) (auto simp: told_def flags_def)

lemma told_same: "flags S' = flags S \<Longrightarrow> told w S' = told w S"
  by (cases w) (simp_all add: told_flags)

lemma flags_told: "flags S' = flags S \<Longrightarrow> told_to_stop w S' = told_to_stop w S"
  by (cases w; cases "zs_receiver (cv_base (cs_conv S))"; cases "zs_receiver (cv_base (cs_conv S'))")
     (auto simp: flags_def)

lemma owner_told:
  assumes "owner_move S = Some S'" and "told w S"
  shows "told w S'"
proof (cases "cs_owner S")
  case StopSubscriber
  then show ?thesis using assms by (cases w) (auto simp: owner_move_def told_def split: if_splits)
next
  case StopReceiver
  then show ?thesis using assms by (cases w) (auto simp: owner_move_def told_def split: if_splits option.splits)
qed (use assms in \<open>auto simp: owner_move_def told_flags Let_def split: if_splits prod.splits worker.splits\<close>)

lemma conv_step_flags: "conv_step e S a S' \<Longrightarrow> a \<noteq> Own \<Longrightarrow> flags S' = flags S"
  by (erule conv_stepE) (auto simp: worker_move_flags intro!: flags_conv dest: conversion_sockets)

lemma told_stays:
  assumes "conv_step e S a S'" and "told w S"
  shows "told w S'"
proof (cases "a = Own")
  case True
  with assms(1) have "owner_move S = Some S' \<or> flags S' = flags S"
    by (auto elim!: conv_stepE simp: worker_move_flags)
  then show ?thesis using owner_told assms(2) told_same by blast
next
  case False
  then show ?thesis using conv_step_flags[OF assms(1)] assms(2) told_same by blast
qed

section \<open>Executions\<close>

text \<open>
  An infinite execution: at every instant one action of the process, or none. It is fair to a
  thread that acts again and again if it can act again and again (the mutex is fair in this
  sense), and to the owner likewise.
\<close>

definition execution :: "env \<Rightarrow> (nat \<Rightarrow> conv_action option) \<Rightarrow> (nat \<Rightarrow> conv_system) \<Rightarrow> bool" where
  "execution e acts \<sigma> \<longleftrightarrow>
     (\<forall>i. case acts i of None \<Rightarrow> \<sigma> (Suc i) = \<sigma> i | Some a \<Rightarrow> conv_step e (\<sigma> i) a (\<sigma> (Suc i)))"

fun by_thread :: "worker \<Rightarrow> conv_action option \<Rightarrow> bool" where
  "by_thread w (Some (Move w')) = (w' = w)"
| "by_thread w (Some (Route w' _)) = (w' = w)"
| "by_thread w _ = False"

definition again :: "(nat \<Rightarrow> bool) \<Rightarrow> bool" where
  "again P \<longleftrightarrow> (\<forall>n. \<exists>i\<ge>n. P i)"

definition fair :: "env \<Rightarrow> (nat \<Rightarrow> conv_action option) \<Rightarrow> (nat \<Rightarrow> conv_system) \<Rightarrow> bool" where
  "fair e acts \<sigma> \<longleftrightarrow>
     (\<forall>w. again (\<lambda>i. worker_move e w (\<sigma> i) \<noteq> None) \<longrightarrow> again (\<lambda>i. by_thread w (acts i))) \<and>
     (again (\<lambda>i. owner_move (\<sigma> i) \<noteq> None) \<longrightarrow> again (\<lambda>i. acts i = Some Own))"

lemma not_again: "\<not> again P \<longleftrightarrow> (\<exists>n. \<forall>i\<ge>n. \<not> P i)"
  by (auto simp: again_def)

lemma execution_step: "execution e acts \<sigma> \<Longrightarrow> acts i = Some a \<Longrightarrow> conv_step e (\<sigma> i) a (\<sigma> (Suc i))"
  by (auto simp: execution_def dest: spec[where x = i])

lemma execution_idle: "execution e acts \<sigma> \<Longrightarrow> acts i = None \<Longrightarrow> \<sigma> (Suc i) = \<sigma> i"
  by (auto simp: execution_def dest: spec[where x = i])

lemma execution_stays:
  assumes "execution e acts \<sigma>" and "P (\<sigma> n)"
    and "\<And>i a. n \<le> i \<Longrightarrow> P (\<sigma> i) \<Longrightarrow> conv_step e (\<sigma> i) a (\<sigma> (Suc i)) \<Longrightarrow> P (\<sigma> (Suc i))" and "n \<le> m"
  shows "P (\<sigma> m)"
  using assms(4)
proof (induction m rule: dec_induct)
  case base
  then show ?case by (rule assms(2))
next
  case (step m)
  then show ?case
    using assms(3)[of m] execution_step[OF assms(1), of m] execution_idle[OF assms(1), of m] by (cases "acts m") auto
qed

text \<open>Which thread an action is of.\<close>

lemma step_by_thread:
  assumes "conv_step e S a S'" and "by_thread w (Some a)"
  shows "worker_move e w S = Some (a, S')"
  using assms(1)
proof cases
  case (by_worker w')
  then have "a = Move w' \<or> (\<exists>msgs. a = Route w' msgs)" by (auto elim!: worker_move_cases)
  then show ?thesis using by_worker assms(2) by auto
qed (use assms(2) in auto)

lemma step_of_others:
  assumes "conv_step e S a S'" and "\<not> by_thread w (Some a)" and "point_at w S \<noteq> Absent"
    and "cs_owner S \<noteq> InBody"
  shows "point_at w S' = point_at w S"
  using assms(1)
proof (cases rule: conv_step_cases)
  case (worker w')
  have "a = Move w' \<or> (\<exists>msgs. a = Route w' msgs)" using worker(2) by (auto elim!: worker_move_cases)
  then have "w' \<noteq> w" using assms(2) by auto
  then show ?thesis using point_at_frame[OF worker_move_frame[OF worker(2)]] by simp
next
  case aside
  then show ?thesis using assms(4) by (cases w) (auto simp: aside_def)
qed

section \<open>Stop returns\<close>

text \<open>The object is in service, its owner has called \<open>Stop\<close>, and each part that has a thread has made it.\<close>

definition stopping :: "env \<Rightarrow> conv_system \<Rightarrow> bool" where
  "stopping e S \<longleftrightarrow>
     in_service S \<and> cs_owner S \<noteq> Serving \<and> good_frames e S \<and> lock_inv S \<and>
     cs_sub S \<noteq> Absent \<and> (cs_rcv S = Absent \<longleftrightarrow> zs_receiver (cv_base (cs_conv S)) = None)"

lemma parts_not_absent:
  "point_at w (dispatch w msgs S) \<noteq> Absent" "point_at w (look_up w msgs S) \<noteq> Absent"
  "point_at w (send_next e w (Sending ts topic msg topics) S) \<noteq> Absent"
    apply (cases w; auto simp: hand_over_def split: list.split prod.split sum.split phase.split)
   apply (auto simp: look_up_def unlock_def Let_def split: prod.split option.split)[1]
  using send_next_stage[of w e ts topic msg topics S] apply (cases ts; auto simp: unlock_def Let_def split: prod.split sum.split error.split)
  done

lemma never_absent: "worker_move e w S = Some (a, S') \<Longrightarrow> point_at w S' \<noteq> Absent"
  by (cases "point_at w S")
     (auto simp: worker_move_def parts_not_absent simp del: send_next.simps dispatch.simps
       split: prod.splits sum.splits error.splits if_splits)

lemma leave_serving: "conv_step e S Leave S' \<Longrightarrow> cs_owner S = Serving"
  by (erule conv_stepE) (auto elim!: worker_move_cases)

lemma stopping_step:
  assumes "stopping e S" and "conv_step e S a S'"
  shows "stopping e S'"
proof -
  have leave: "a \<noteq> Leave" using assms leave_serving by (auto simp: stopping_def)
  have service: "in_service S'" "good_frames e S'" "lock_inv S'" "sockets S' = sockets S"
    using in_service_step[OF assms(2) _ _ leave] assms(1) lock_inv_step[OF assms(2)] conv_step_sockets[OF assms(2)]
      good_frames_sockets[OF conv_step_sockets[OF assms(2)], of e]
    by (simp_all add: stopping_def)
  have receiver: "(zs_receiver (cv_base (cs_conv S')) = None) = (zs_receiver (cv_base (cs_conv S)) = None)"
    using service(4) by (cases "zs_receiver (cv_base (cs_conv S))") (auto simp: sockets_def)
  have absent: "(point_at w S' = Absent) = (point_at w S = Absent)" for w
  proof (cases "by_thread w (Some a)")
    case True
    then show ?thesis using step_by_thread[OF assms(2)] absent_stays never_absent by blast
  next
    case False
    show ?thesis
    proof (cases "point_at w S = Absent")
      case True
      show ?thesis
        using assms(2)
      proof (cases rule: conv_step_cases)
        case (worker w')
        then have "w' \<noteq> w" using True absent_stays by blast
        then show ?thesis using point_at_frame[OF worker_move_frame[OF worker(2)]] by simp
      next
        case aside
        have "cs_owner S \<noteq> InBody" using assms(1) by (auto simp: stopping_def in_service_def)
        then show ?thesis using aside(2) by (cases w) (auto simp: aside_def)
      qed
    next
      case absent: False
      then show ?thesis using step_of_others[OF assms(2) False absent] assms(1)
        by (auto simp: stopping_def in_service_def)
    qed
  qed
  have "cs_owner S' \<noteq> Serving"
    using assms(2)
  proof cases
    case (by_worker w)
    then show ?thesis using worker_move_frame assms(1) by (auto simp: same_frame_def stopping_def)
  next
    case by_owner
    then show ?thesis using assms(1)
      by (cases "cs_owner S") (auto simp: owner_move_def stopping_def in_service_def Let_def split: if_splits prod.splits option.splits)
  qed (use assms(1) in \<open>auto simp: stopping_def\<close>)
  then show ?thesis using service(1-3) receiver absent[of SubThread] absent[of RcvThread] assms(1)
    by (simp add: stopping_def)
qed

text \<open>A thread whose every action brings it closer to its end acts finitely often.\<close>

lemma finitely_many_moves:
  assumes ex: "execution e acts \<sigma>"
    and closer: "\<And>i. n \<le> i \<Longrightarrow> by_thread w (acts i) \<Longrightarrow> (point_at w (\<sigma> (Suc i)), point_at w (\<sigma> i)) \<in> closer"
    and others: "\<And>i. n \<le> i \<Longrightarrow> \<not> by_thread w (acts i) \<Longrightarrow> point_at w (\<sigma> (Suc i)) = point_at w (\<sigma> i)"
  shows "\<not> again (\<lambda>i. by_thread w (acts i))"
proof
  assume again: "again (\<lambda>i. by_thread w (acts i))"
  have "\<forall>i\<ge>n. point_at w (\<sigma> i) \<noteq> p" for p
    using wf_closer
  proof (induction p rule: wf_induct_rule)
    case (less p)
    show ?case
    proof (intro allI impI notI)
      fix i
      assume i: "n \<le> i" "point_at w (\<sigma> i) = p"
      define j where "j = (LEAST j. i \<le> j \<and> by_thread w (acts j))"
      have j: "i \<le> j \<and> by_thread w (acts j)"
        unfolding j_def by (rule LeastI_ex) (use again in \<open>auto simp: again_def\<close>)
      have before: "\<not> by_thread w (acts k)" if "i \<le> k" "k < j" for k
        using not_less_Least[of k "\<lambda>j. i \<le> j \<and> by_thread w (acts j)"] that by (simp add: j_def)
      have "m \<le> j \<longrightarrow> point_at w (\<sigma> m) = p" if "i \<le> m" for m
        using that
      proof (induction m rule: dec_induct)
        case base
        then show ?case using i(2) by simp
      next
        case (step m)
        then show ?case using others[of m] before[of m] i(1) by auto
      qed
      then have "point_at w (\<sigma> j) = p" using j by simp
      then have "(point_at w (\<sigma> (Suc j)), p) \<in> closer" using closer[of j] j i(1) by simp
      moreover have "n \<le> Suc j" using j i(1) by simp
      ultimately show False using less by blast
    qed
  qed
  then show False by blast
qed

text \<open>Under the lock every action brings a thread closer to its end, told or not.\<close>

lemma region_moves_closer:
  assumes "worker_move e w S = Some (a, S')" and "in_region (point_at w S)"
  shows "(point_at w S', point_at w S) \<in> closer"
proof (cases "point_at w S")
  case (Looking msgs)
  then show ?thesis using assms(1) look_up_stage[of w msgs S]
    by (cases "stage (point_at w (look_up w msgs S))") (auto simp: worker_move_def closer_def)
next
  case (Sending ts topic msg topics)
  then show ?thesis using assms(1) send_next_stage[of w e ts topic msg topics S] by (auto simp: worker_move_def)
qed (use assms(2) in auto)

lemma region_can_move: "in_region (point_at w S) \<Longrightarrow> worker_move e w S \<noteq> None"
  by (cases "point_at w S") (auto simp: worker_move_def)

lemma blocked_waits:
  assumes "worker_move e w S = None" and "in_service S" and "point_at w S \<noteq> Absent" and "point_at w S \<noteq> Ended"
  shows "\<exists>msgs. point_at w S = Waiting msgs" and "cs_lock S \<noteq> None"
proof -
  have "cs_phase S = Alive" "safe_point w (point_at w S)" using assms(2) by (simp_all add: in_service_def)
  then show "\<exists>msgs. point_at w S = Waiting msgs" "cs_lock S \<noteq> None"
    using assms(1,3,4)
    by (cases "point_at w S"; auto simp: worker_move_def split: prod.splits sum.splits error.splits if_splits)+
qed

text \<open>In an execution that has entered \<open>Stop\<close>: what holds at every later instant.\<close>

lemma stopping_later:
  assumes "execution e acts \<sigma>" and "stopping e (\<sigma> n)" and "n \<le> m"
  shows "stopping e (\<sigma> m)"
  by (rule execution_stays[OF assms(1), where P = "stopping e", OF assms(2) _ assms(3)]) (rule stopping_step)

lemma told_later:
  assumes "execution e acts \<sigma>" and "told w (\<sigma> n)" and "n \<le> m"
  shows "told w (\<sigma> m)"
  by (rule execution_stays[OF assms(1), where P = "told w", OF assms(2) _ assms(3)]) (rule told_stays)

lemma own_instant:
  assumes "execution e acts \<sigma>" and "by_thread w (acts i)"
  shows "\<exists>a. worker_move e w (\<sigma> i) = Some (a, \<sigma> (Suc i))"
proof (cases "acts i")
  case (Some a)
  then show ?thesis using step_by_thread[OF execution_step[OF assms(1) Some]] assms(2) by auto
qed (use assms(2) in simp)

lemma others_instant:
  assumes "execution e acts \<sigma>" and "\<not> by_thread w (acts i)" and "stopping e (\<sigma> i)" and "point_at w (\<sigma> i) \<noteq> Absent"
  shows "point_at w (\<sigma> (Suc i)) = point_at w (\<sigma> i)"
proof (cases "acts i")
  case None
  then show ?thesis using execution_idle[OF assms(1)] by simp
next
  case (Some a)
  have "cs_owner (\<sigma> i) \<noteq> InBody" using assms(3) by (auto simp: stopping_def in_service_def)
  with Some show ?thesis using step_of_others[OF execution_step[OF assms(1) Some]] assms(2,4) by simp
qed

text \<open>Absence is permanent while the owner is in \<open>Stop\<close>, and so is presence.\<close>

lemma absent_later:
  assumes "execution e acts \<sigma>" and "stopping e (\<sigma> n)" and "n \<le> m"
  shows "(point_at w (\<sigma> m) = Absent) = (point_at w (\<sigma> n) = Absent)"
proof -
  have sock: "sockets (\<sigma> m) = sockets (\<sigma> n)"
    by (rule execution_stays[OF assms(1), where P = "\<lambda>S. sockets S = sockets (\<sigma> n)", OF refl _ assms(3)])
      (simp add: conv_step_sockets)
  then have "(zs_receiver (cv_base (cs_conv (\<sigma> m))) = None) = (zs_receiver (cv_base (cs_conv (\<sigma> n))) = None)"
    by (metis option.map_disc_iff prod.inject sockets_def)
  then show ?thesis using stopping_later[OF assms] assms(2) by (cases w) (auto simp: stopping_def)
qed

lemma told_thread_ends:
  assumes ex: "execution e acts \<sigma>" and fair: "fair e acts \<sigma>" and stop: "stopping e (\<sigma> n)"
    and told: "told w (\<sigma> n)" and there: "point_at w (\<sigma> n) \<noteq> Absent"
  shows "\<exists>m\<ge>n. point_at w (\<sigma> m) = Ended"
proof (rule ccontr)
  assume "\<not> (\<exists>m\<ge>n. point_at w (\<sigma> m) = Ended)"
  then have never: "point_at w (\<sigma> m) \<noteq> Ended" if "n \<le> m" for m using that by blast
  note st = stopping_later[OF ex stop] and tl = told_later[OF ex told]
  have present: "point_at w (\<sigma> m) \<noteq> Absent" if "n \<le> m" for m
    using absent_later[OF ex stop that] there by simp
  have "\<not> again (\<lambda>i. by_thread w (acts i))"
  proof (rule finitely_many_moves[OF ex])
    fix i
    assume i: "n \<le> i" "by_thread w (acts i)"
    then show "(point_at w (\<sigma> (Suc i)), point_at w (\<sigma> i)) \<in> closer"
      using own_instant[OF ex i(2)] told_moves_closer tl[OF i(1)] by (auto simp: told_def)
  qed (use others_instant[OF ex] st present in blast)
  then obtain k1 where k1: "\<forall>i\<ge>k1. \<not> by_thread w (acts i)" by (auto simp: not_again)
  have "\<not> again (\<lambda>i. worker_move e w (\<sigma> i) \<noteq> None)"
    using fair \<open>\<not> again (\<lambda>i. by_thread w (acts i))\<close> by (auto simp: fair_def)
  then obtain k2 where k2: "\<forall>i\<ge>k2. worker_move e w (\<sigma> i) = None" unfolding not_again not_not by blast
  define k where "k = max n k2"
  have blocked: "\<exists>msgs. point_at w (\<sigma> i) = Waiting msgs" "cs_lock (\<sigma> i) \<noteq> None" if "k \<le> i" for i
    using blocked_waits[of e w "\<sigma> i"] k2 that st[of i] present[of i] never[of i] by (auto simp: k_def stopping_def)
  obtain w' where w': "w' \<noteq> w" by (metis worker.distinct(1))
  have two: "w'' = w \<or> w'' = w'" for w'' using w' by (cases w; cases w'; cases w'') auto
  have holder: "in_region (point_at w' (\<sigma> i))" if i: "k \<le> i" for i
  proof -
    have inv: "lock_inv (\<sigma> i)" and alive: "\<not> crashed (\<sigma> i)"
      using st[of i] i safe_not_crashed by (auto simp: k_def stopping_def)
    obtain h where "cs_lock (\<sigma> i) = Some h" using blocked(2)[OF i] by auto
    with lock_invD(2)[OF inv alive] have "in_region (point_at h (\<sigma> i))" by blast
    moreover have "h \<noteq> w" using blocked(1)[OF i] calculation by auto
    ultimately show ?thesis using two[of h] by auto
  qed
  have "again (\<lambda>i. worker_move e w' (\<sigma> i) \<noteq> None)"
    unfolding again_def using region_can_move[OF holder] by (metis nat_le_linear)
  then have "again (\<lambda>i. by_thread w' (acts i))" using fair by (auto simp: fair_def)
  moreover have "\<not> again (\<lambda>i. by_thread w' (acts i))"
  proof (rule finitely_many_moves[OF ex, where n = k])
    fix i
    assume i: "k \<le> i" "by_thread w' (acts i)"
    then show "(point_at w' (\<sigma> (Suc i)), point_at w' (\<sigma> i)) \<in> closer"
      using own_instant[OF ex i(2)] region_moves_closer holder[OF i(1)] by blast
  next
    fix i
    assume i: "k \<le> i" "\<not> by_thread w' (acts i)"
    have "point_at w' (\<sigma> i) \<noteq> Absent" using holder[OF i(1)] by auto
    then show "point_at w' (\<sigma> (Suc i)) = point_at w' (\<sigma> i)"
      using others_instant[OF ex i(2)] st[of i] i(1) by (simp add: k_def)
  qed
  ultimately show False by contradiction
qed

text \<open>The owner moves on once its next step stays possible.\<close>

lemma owner_kept:
  assumes "conv_step e S a S'" and "a \<noteq> Own" and "stopping e S"
  shows "cs_owner S' = cs_owner S"
  using assms(1)
proof cases
  case (by_worker w)
  then show ?thesis using worker_move_frame by (simp add: same_frame_def)
qed (use assms(2,3) in \<open>auto simp: stopping_def\<close>)

lemma owner_acts:
  assumes ex: "execution e acts \<sigma>" and fair: "fair e acts \<sigma>" and stop: "stopping e (\<sigma> n)"
    and enabled: "\<And>m. k \<le> m \<Longrightarrow> cs_owner (\<sigma> m) = cs_owner (\<sigma> n) \<Longrightarrow> owner_move (\<sigma> m) \<noteq> None"
  shows "\<exists>m\<ge>n. cs_owner (\<sigma> m) = cs_owner (\<sigma> n) \<and> owner_move (\<sigma> m) = Some (\<sigma> (Suc m))"
proof (rule ccontr)
  assume none: "\<not> ?thesis"
  have own: "owner_move (\<sigma> m) = Some (\<sigma> (Suc m))" if "acts m = Some Own" for m
    using execution_step[OF ex that] by (auto elim!: conv_stepE worker_move_cases)
  have same: "cs_owner (\<sigma> m) = cs_owner (\<sigma> n)" if "n \<le> m" for m
    using that
  proof (induction m rule: dec_induct)
    case (step m)
    then have "acts m \<noteq> Some Own" using none own by blast
    show ?case
    proof (cases "acts m")
      case None
      then show ?thesis using step(3) execution_idle[OF ex] by simp
    next
      case (Some a)
      then have "a \<noteq> Own" using \<open>acts m \<noteq> Some Own\<close> by blast
      with owner_kept[OF execution_step[OF ex Some]] stopping_later[OF ex stop step(1)] step(3) show ?thesis by simp
    qed
  qed simp
  have "owner_move (\<sigma> (max n (max k m))) \<noteq> None" for m
    by (rule enabled) (simp, rule same, simp)
  moreover have "m \<le> max n (max k m)" for m by simp
  ultimately have "again (\<lambda>i. owner_move (\<sigma> i) \<noteq> None)" unfolding again_def by blast
  then have "again (\<lambda>i. acts i = Some Own)" using fair unfolding fair_def by blast
  then obtain m where "n \<le> m" "acts m = Some Own" by (auto simp: again_def)
  with same[of m] own[of m] none show False by blast
qed

lemma ended_later:
  assumes ex: "execution e acts \<sigma>" and stop: "stopping e (\<sigma> n)" and "point_at w (\<sigma> n) = Ended" and "n \<le> m"
  shows "point_at w (\<sigma> m) = Ended"
  using assms(4)
proof (induction m rule: dec_induct)
  case (step m)
  then have "\<not> by_thread w (acts m)" using own_instant[OF ex, of w m] Ended_stays by blast
  then show ?case using others_instant[OF ex] stopping_later[OF ex stop, of m] step by simp
qed (rule assms(3))

text \<open>The steps of the owner in \<open>Stop\<close>.\<close>

lemma owner_next:
  assumes "owner_move S = Some S'"
  shows "cs_owner S = StopSubscriber \<Longrightarrow> sub_joinable (sub_part S) \<Longrightarrow> cs_owner S' = JoinSubscriber \<and> told SubThread S'"
    and "cs_owner S = StopSubscriber \<Longrightarrow> \<not> sub_joinable (sub_part S) \<Longrightarrow> cs_owner S' = StopPublisher"
    and "cs_owner S = JoinSubscriber \<Longrightarrow> cs_owner S' = StopPublisher"
    and "cs_owner S = StopPublisher \<Longrightarrow> cs_owner S' = StopReceiver"
    and "cs_owner S = StopReceiver \<Longrightarrow> zs_receiver (cv_base (cs_conv S)) = Some r \<Longrightarrow> rcv_joinable r \<Longrightarrow>
      cs_owner S' = JoinReceiver \<and> told RcvThread S'"
    and "cs_owner S = StopReceiver \<Longrightarrow> \<nexists>r. zs_receiver (cv_base (cs_conv S)) = Some r \<and> rcv_joinable r \<Longrightarrow>
      cs_owner S' = Stopped"
    and "cs_owner S = JoinReceiver \<Longrightarrow> cs_owner S' = Stopped"
  using assms by (auto simp: owner_move_def told_def split: if_splits prod.splits option.splits)

text \<open>The two halves of \<open>Stop\<close>, around the publisher.\<close>

lemma subscriber_stopped:
  assumes "execution e acts \<sigma>" and "fair e acts \<sigma>" and st: "\<And>m. stopping e (\<sigma> m)" and "cs_owner (\<sigma> k0) = StopSubscriber"
  shows "\<exists>n. cs_owner (\<sigma> n) = StopPublisher"
proof -
  note ex = assms(1) and fair = assms(2)
  have "\<exists>m\<ge>k0. cs_owner (\<sigma> m) = cs_owner (\<sigma> k0) \<and> owner_move (\<sigma> m) = Some (\<sigma> (Suc m))"
    by (rule owner_acts[OF ex fair st, where k = 0]) (use assms(4) in \<open>simp add: owner_move_def\<close>)
  then obtain m where m: "cs_owner (\<sigma> m) = StopSubscriber" "owner_move (\<sigma> m) = Some (\<sigma> (Suc m))"
    using assms(4) by auto
  show ?thesis
  proof (cases "sub_joinable (sub_part (\<sigma> m))")
    case True
    have told: "told SubThread (\<sigma> (Suc m))" "cs_owner (\<sigma> (Suc m)) = JoinSubscriber"
      using owner_next(1)[OF m(2,1) True] by simp_all
    then obtain k where k: "Suc m \<le> k" "point_at SubThread (\<sigma> k) = Ended"
      using told_thread_ends[OF ex fair st told(1)] st[of "Suc m"] by (auto simp: stopping_def)
    have "\<exists>i\<ge>Suc m. cs_owner (\<sigma> i) = cs_owner (\<sigma> (Suc m)) \<and> owner_move (\<sigma> i) = Some (\<sigma> (Suc i))"
      by (rule owner_acts[OF ex fair st, where k = k])
        (use told(2) ended_later[OF ex st k(2)] in \<open>simp add: owner_move_def\<close>)
    then show ?thesis using told(2) owner_next(3) by metis
  next
    case False
    then show ?thesis using owner_next(2)[OF m(2,1)] by blast
  qed
qed

lemma receiver_stopped:
  assumes "execution e acts \<sigma>" and "fair e acts \<sigma>" and st: "\<And>m. stopping e (\<sigma> m)" and "cs_owner (\<sigma> k0) = StopReceiver"
  shows "\<exists>n. cs_owner (\<sigma> n) = Stopped"
proof -
  note ex = assms(1) and fair = assms(2)
  have "\<exists>i\<ge>k0. cs_owner (\<sigma> i) = cs_owner (\<sigma> k0) \<and> owner_move (\<sigma> i) = Some (\<sigma> (Suc i))"
    by (rule owner_acts[OF ex fair st, where k = 0]) (use assms(4) in \<open>simp add: owner_move_def split: option.split\<close>)
  then obtain i where i: "cs_owner (\<sigma> i) = StopReceiver" "owner_move (\<sigma> i) = Some (\<sigma> (Suc i))" using assms(4) by auto
  show ?thesis
  proof (cases "\<exists>r. zs_receiver (cv_base (cs_conv (\<sigma> i))) = Some r \<and> rcv_joinable r")
    case True
    then have told: "told RcvThread (\<sigma> (Suc i))" "cs_owner (\<sigma> (Suc i)) = JoinReceiver"
      using owner_next(5)[OF i(2,1)] by blast+
    have "point_at RcvThread (\<sigma> (Suc i)) \<noteq> Absent" using told(1) st[of "Suc i"] by (simp add: stopping_def told_def)
    then obtain k where k: "Suc i \<le> k" "point_at RcvThread (\<sigma> k) = Ended"
      using told_thread_ends[OF ex fair st told(1)] by auto
    have "\<exists>j\<ge>Suc i. cs_owner (\<sigma> j) = cs_owner (\<sigma> (Suc i)) \<and> owner_move (\<sigma> j) = Some (\<sigma> (Suc j))"
      by (rule owner_acts[OF ex fair st, where k = k])
        (use told(2) ended_later[OF ex st k(2)] in \<open>simp add: owner_move_def\<close>)
    then show ?thesis using told(2) owner_next(7) by metis
  next
    case False
    then show ?thesis using owner_next(6)[OF i(2,1)] by blast
  qed
qed


text \<open>A finite run that ends where nobody can act is, prolonged by nothing, a fair execution.\<close>

lemma run_execution:
  assumes "conv_run e S as S'"
  shows "\<exists>acts \<sigma>. execution e acts \<sigma> \<and> \<sigma> 0 = S \<and> (\<forall>i\<ge>length as. \<sigma> i = S' \<and> acts i = None)"
  using assms
proof (induction rule: conv_run.induct)
  case (conv_none S)
  have "execution e (\<lambda>_. None) (\<lambda>_. S)" by (simp add: execution_def)
  then show ?case by (intro exI[where x = "\<lambda>_. None"] exI[where x = "\<lambda>_. S"]) simp
next
  case (conv_more S as T a U)
  then obtain acts \<sigma> where ex: "execution e acts \<sigma>" "\<sigma> 0 = S" and rest: "\<forall>i\<ge>length as. \<sigma> i = T \<and> acts i = None"
    by blast
  define acts' where "acts' = acts(length as := Some a)"
  define \<sigma>' where "\<sigma>' = (\<lambda>i. if i \<le> length as then \<sigma> i else U)"
  have "case acts' i of None \<Rightarrow> \<sigma>' (Suc i) = \<sigma>' i | Some b \<Rightarrow> conv_step e (\<sigma>' i) b (\<sigma>' (Suc i))" for i
  proof (cases "i < length as")
    case True
    then have "\<sigma>' (Suc i) = \<sigma> (Suc i)" "\<sigma>' i = \<sigma> i" "acts' i = acts i" by (simp_all add: acts'_def \<sigma>'_def)
    then show ?thesis using ex(1)[unfolded execution_def, THEN spec, of i] by (cases "acts i") simp_all
  next
    case False
    then show ?thesis using rest conv_more.hyps(2) by (cases "i = length as") (auto simp: acts'_def \<sigma>'_def)
  qed
  then have "execution e acts' \<sigma>'" by (simp add: execution_def)
  moreover have "\<sigma>' 0 = S" using ex(2) by (simp add: \<sigma>'_def)
  moreover have "\<forall>i\<ge>length (as @ [a]). \<sigma>' i = U \<and> acts' i = None" using rest by (auto simp: \<sigma>'_def acts'_def)
  ultimately show ?case by blast
qed

lemma run_fair_execution:
  assumes "conv_run e S as S'" and "\<And>w. worker_move e w S' = None" and "owner_move S' = None"
  shows "\<exists>acts \<sigma>. execution e acts \<sigma> \<and> fair e acts \<sigma> \<and> \<sigma> 0 = S"
proof -
  from run_execution[OF assms(1)] obtain acts \<sigma> where ex: "execution e acts \<sigma>" "\<sigma> 0 = S"
    and rest: "\<And>i. length as \<le> i \<Longrightarrow> \<sigma> i = S'" by blast
  have no_more: "\<not> again (\<lambda>i. P (\<sigma> i))" if "\<not> P S'" for P
    unfolding not_again using rest that by (intro exI[where x = "length as"]) simp
  then have "\<not> again (\<lambda>i. worker_move e w (\<sigma> i) \<noteq> None)" "\<not> again (\<lambda>i. owner_move (\<sigma> i) \<noteq> None)" for w
    using no_more[of "\<lambda>T. worker_move e w T \<noteq> None" for w] no_more[of "\<lambda>T. owner_move T \<noteq> None"] assms(2,3)
    by simp_all
  then show ?thesis using ex by (auto simp: fair_def)
qed

text \<open>The sample converter is told to stop as soon as it is complete.\<close>

definition stop_turns :: "turn list" where
  "stop_turns = OwnerTurn # sub_turns 3 @ replicate 3 OwnerTurn @ rcv_turns 3 @ [OwnerTurn]"

lemma sample_stop:
  "\<exists>as S bs S'. play routing_env (service_turns @ [OwnerTurn]) sample_system = Some (as, S) \<and>
     cs_sub S = Starting \<and> cs_rcv S = Starting \<and> cs_phase S = Alive \<and> cs_owner S = StopSubscriber \<and>
     sub_part S = sub_part sample_system \<and> zs_receiver (cv_base (cs_conv S)) = Some (Receiver_new 2 ''r'') \<and>
     play routing_env stop_turns S = Some (bs, S') \<and> cs_sub S' = Ended \<and> cs_rcv S' = Ended \<and> cs_owner S' = Stopped"
  by (simp add: sample_simps stop_turns_def sub_close_def rcv_close_def Publisher_Stop_def)


section \<open>Messages that come during Stop\<close>

text \<open>Once the publisher is closed nothing is published any more.\<close>

lemma closed_stays:
  assumes "conv_step e S a S'" and "\<not> pub_open (conv_pub S)"
  shows "\<not> pub_open (conv_pub S') \<and> published S' = published S"
  using assms(1)
proof (cases rule: conv_step_cases)
  case (worker w)
  show ?thesis
    using worker(2)
  proof (cases rule: worker_move_cases)
    case outside
    then show ?thesis using assms(2) quiet_published[of S S'] by (simp add: outside_def)
  next
    case (enter msgs)
    then show ?thesis using assms(2) by simp
  next
    case (route msgs)
    then show ?thesis using assms(2) quiet_published[of S S'] look_up_region[of w S msgs] by simp
  next
    case (send ts topic msg topics)
    then show ?thesis using assms(2)
      by (cases ts) (auto simp: publishMsg_closed unlock_def log_info_def Let_def)
  qed
next
  case aside
  then show ?thesis using assms(2) by (auto simp: aside_def)
qed

lemma closed_run: "conv_run e S as S' \<Longrightarrow> \<not> pub_open (conv_pub S) \<Longrightarrow> \<not> pub_open (conv_pub S') \<and> published S' = published S"
proof (induction rule: conv_run.induct)
  case (conv_more S as T a U)
  then show ?case using closed_stays[OF conv_more.hyps(2)] by auto
qed simp

lemma alive_frame: "same_frame w S S' \<Longrightarrow> \<not> crashed S \<Longrightarrow> \<not> crashed_at (point_at w S') \<Longrightarrow> \<not> crashed S'"
  unfolding crashed_iff by (metis point_at_frame)

text \<open>C14: \<open>Stop\<close> loses messages. It closes the publisher before it stops the receiver, so for a while
  the receiver's thread still takes messages that cannot be published: from then on nothing is
  put on the publisher's socket whatever runs, and a thread that has taken a message with a
  target meets the closed socket, logs an exception and ends without having been told to.\<close>

theorem stop_loses_received:
  assumes "\<not> crashed S" and "cs_phase S = Alive" and "\<not> pub_open (conv_pub S)"
    and "point_at w S = Looking msgs" and "msgs \<noteq> []" and "routed_message (cv_map (cs_conv S)) msgs \<noteq> []"
  shows "(\<forall>as S'. conv_run e S as S' \<longrightarrow> published S' = published S) \<and>
     (\<exists>S'. conv_run e S [Route w msgs, Move w, Move w, Move w] S' \<and> point_at w S' = Ended \<and>
        cs_lock S' = None \<and> told_to_stop w S' = told_to_stop w S)"
proof -
  obtain topic msg where key: "route_key msgs = (topic, msg)" by (metis surj_pair)
  then obtain t ts where topics: "cv_map (cs_conv S) topic = Some (t # ts)"
    using assms(6) by (auto simp: routed_message_def routed_def split: option.splits) (metis neq_Nil_conv)
  define S1 where "S1 = look_up w msgs S"
  have S1: "point_at w S1 = Sending (t # ts) topic msg (t # ts)" "conv_pub S1 = conv_pub S" "cs_phase S1 = Alive"
    using assms(2,5) key topics by (auto simp: S1_def look_up_def Let_def)
  have "worker_move e w S = Some (Route w msgs, S1)" using assms(4) by (simp add: worker_move_def S1_def)
  then have step1: "conv_step e S (Route w msgs) S1" by (rule by_worker[OF assms(1)])
  have alive: "\<not> crashed S1"
    using alive_frame[OF look_up_frame[of w S msgs, folded S1_def] assms(1)] S1(1) by simp
  obtain S2 where move2: "worker_move e w S1 = Some (Move w, S2)"
    and S2: "point_at w S2 = Caught ENOTSOCK" "cs_lock S2 = None"
    using S1 assms(3) by (simp add: worker_move_def publishMsg_closed Let_def unlock_def)
  have alive2: "\<not> crashed S2"
    using alive_frame[OF worker_move_frame[OF move2] alive] S2(1) by simp
  obtain S3 where move3: "worker_move e w S2 = Some (Move w, S3)" and S3: "point_at w S3 = Closing" "cs_lock S3 = None"
    using S2 by (simp add: worker_move_def)
  have alive3: "\<not> crashed S3"
    using alive_frame[OF worker_move_frame[OF move3] alive2] S3(1) by simp
  obtain S4 where move4: "worker_move e w S3 = Some (Move w, S4)" and S4: "point_at w S4 = Ended" "cs_lock S4 = None"
    using S3 by (simp add: worker_move_def)
  have "flags S4 = flags S"
    using worker_move_flags[OF move2] worker_move_flags[OF move3] worker_move_flags[OF move4] by (simp add: S1_def)
  then have "told_to_stop w S4 = told_to_stop w S" by (rule flags_told)
  moreover have "conv_run e S [Route w msgs, Move w, Move w, Move w] S4"
    using step1 by_worker[OF alive move2] by_worker[OF alive2 move3] by_worker[OF alive3 move4]
    by (blast intro: conv_run_cons conv_none)
  ultimately show ?thesis using S4 closed_run[OF _ assms(3)] by blast
qed

text \<open>
  The sample converter: its owner has closed the publisher when the receiver's thread looks up a
  message it took.
\<close>

definition late_turns :: "turn list" where
  "late_turns = service_turns @ [OwnerTurn, OwnerTurn] @ sub_turns 3 @ [OwnerTurn, OwnerTurn] @ rcv_turns 6"

lemma sample_late:
  "\<exists>as S. play routing_env late_turns sample_system = Some (as, S) \<and> cs_rcv S = Looking [''z''] \<and> cs_sub S = Ended \<and>
     cs_phase S = Alive \<and> cs_owner S = StopReceiver \<and> \<not> pub_open (conv_pub S) \<and>
     cv_map (cs_conv S) receiver_topic = Some [''out3'']"
  by (simp add: sample_simps late_turns_def sub_close_def Publisher_Stop_def)

theorem stop_loses_received_witness:
  "\<exists>as S S'. conv_run routing_env sample_system as S \<and> cs_rcv S = Looking [''z''] \<and>
     conv_run routing_env S [Route RcvThread [''z''], Move RcvThread, Move RcvThread, Move RcvThread] S' \<and>
     cs_rcv S' = Ended \<and> published S' = published S"
proof -
  obtain as S where play: "play routing_env late_turns sample_system = Some (as, S)" and S: "cs_rcv S = Looking [''z'']"
    "cs_sub S = Ended" "cs_phase S = Alive" "\<not> pub_open (conv_pub S)" "cv_map (cs_conv S) receiver_topic = Some [''out3'']"
    using sample_late by blast
  have "routed_message (cv_map (cs_conv S)) [''z''] \<noteq> []" using S(5) by (simp add: routed_message_def routed_def)
  then obtain S' where "conv_run routing_env S [Route RcvThread [''z''], Move RcvThread, Move RcvThread, Move RcvThread] S'"
    "cs_rcv S' = Ended" "published S' = published S"
    using stop_loses_received[of S RcvThread "[''z'']" routing_env] S by auto
  then show ?thesis using S(1) play_run[OF play] by blast
qed

end
