(* ===== verification/ConvLoop.thy ===== *)
theory ConvLoop
  imports ConvStop
begin

text \<open>
  The loops \<open>Run\<close> of \<open>Subscriber\<close> and \<open>Receiver\<close> in one piece and cut into the actions of
  \<open>ConvThread\<close>: a thread of a converter in service that is left alone does, action by action,
  exactly what an iteration of the loop does with the converter as its target.
\<close>

section \<open>The handler\<close>

definition with_pub :: "Publisher \<Rightarrow> conv_system \<Rightarrow> conv_system" where
  "with_pub p S = on_base (\<lambda>z. z\<lparr>zs_publisher := p\<rparr>) S"

lemma with_pub_fields [simp]:
  "cs_phase (with_pub p S) = cs_phase S" "cs_lock (with_pub p S) = cs_lock S" "cs_hist (with_pub p S) = cs_hist S"
  "point_at w (with_pub p S) = point_at w S" "conv_pub (with_pub p S) = p" "cs_owner (with_pub p S) = cs_owner S"
  "cs_sub (with_pub p S) = cs_sub S" "cs_rcv (with_pub p S) = cs_rcv S"
  "cv_map (cs_conv (with_pub p S)) = cv_map (cs_conv S)" "zs_name (cv_base (cs_conv (with_pub p S))) = zs_name (cv_base (cs_conv S))"
  "sub_part (with_pub p S) = sub_part S" "zs_receiver (cv_base (cs_conv (with_pub p S))) = zs_receiver (cv_base (cs_conv S))"
  by (simp_all add: with_pub_def)

text \<open>The state of a handler that has published: the thread elsewhere, the publisher and the history moved on.\<close>

definition handled :: "worker \<Rightarrow> point \<Rightarrow> worker option \<Rightarrow> Publisher \<Rightarrow> history \<Rightarrow> conv_system \<Rightarrow> conv_system" where
  "handled w pt l p h S = (go_to w pt (with_pub p S))\<lparr>cs_hist := h, cs_lock := l\<rparr>"

lemma handled_handled [simp]: "handled w pt l p h (handled w pt' l' p' h' S) = handled w pt l p h S"
  by (cases w) (simp_all add: handled_def with_pub_def on_base_def go_to.simps)

lemma handled_fields [simp]:
  "cs_phase (handled w pt l p h S) = cs_phase S" "cs_lock (handled w pt l p h S) = l" "cs_hist (handled w pt l p h S) = h"
  "point_at w (handled w pt l p h S) = pt" "conv_pub (handled w pt l p h S) = p"
  "w' \<noteq> w \<Longrightarrow> point_at w' (handled w pt l p h S) = point_at w' S"
  "cv_map (cs_conv (handled w pt l p h S)) = cv_map (cs_conv S)"
  "zs_name (cv_base (cs_conv (handled w pt l p h S))) = zs_name (cv_base (cs_conv S))"
  by (simp_all add: handled_def)

lemma handled_alive: "\<not> crashed S \<Longrightarrow> \<not> crashed_at pt \<Longrightarrow> \<not> crashed (handled w pt l p h S)"
  unfolding crashed_iff by (metis handled_fields(4,6))

lemma handled_moves:
  "go_to w pt S = handled w pt (cs_lock S) (conv_pub S) (cs_hist S) S"
  "(go_to w pt S)\<lparr>cs_hist := h\<rparr> = handled w pt (cs_lock S) (conv_pub S) h S"
  "(go_to w pt S)\<lparr>cs_lock := l\<rparr> = handled w pt l (conv_pub S) (cs_hist S) S"
  "handled w pt l p h (S\<lparr>cs_hist := h'\<rparr>) = handled w pt l p h S"
  by (cases w; simp add: handled_def with_pub_def on_base_def go_to.simps)+

text \<open>A run in which only one thread acts.\<close>

definition reaches :: "worker \<Rightarrow> env \<Rightarrow> conv_system \<Rightarrow> conv_system \<Rightarrow> bool" where
  "reaches w e S T \<longleftrightarrow> (\<exists>as. conv_run e S as T \<and> (\<forall>a \<in> set as. by_thread w (Some a)))"

lemma move_by_thread: "worker_move e w S = Some (a, S') \<Longrightarrow> by_thread w (Some a)"
  by (auto elim!: worker_move_cases)

lemma reaches_refl: "reaches w e S S"
  unfolding reaches_def using conv_none by (intro exI[where x = "[]"]) simp

lemma reaches_step:
  assumes "\<not> crashed S" and "worker_move e w S = Some (a, S')" and "reaches w e S' T"
  shows "reaches w e S T"
proof -
  obtain as where as: "conv_run e S' as T" "\<forall>a \<in> set as. by_thread w (Some a)" using assms(3) by (auto simp: reaches_def)
  have "conv_run e S (a # as) T" by (rule conv_run_cons[OF by_worker[OF assms(1,2)] as(1)])
  moreover have "\<forall>b \<in> set (a # as). by_thread w (Some b)" using as(2) move_by_thread[OF assms(2)] by simp
  ultimately show ?thesis unfolding reaches_def by blast
qed

lemma reaches_trans:
  assumes "reaches w e S T" and "reaches w e T U"
  shows "reaches w e S U"
proof -
  obtain as bs where "conv_run e S as T" "\<forall>a \<in> set as. by_thread w (Some a)"
    "conv_run e T bs U" "\<forall>a \<in> set bs. by_thread w (Some a)" using assms by (auto simp: reaches_def)
  then show ?thesis unfolding reaches_def using conv_run_trans[of e T bs U S as] by (intro exI[where x = "as @ bs"]) auto
qed

lemma send_move:
  assumes "point_at w S = Sending (t # ts) topic msg topics" and "cs_phase S = Alive"
    and "publishMsg e t msg (conv_pub S, cs_hist S) = (r, p, h)"
  shows "worker_move e w S = Some (Move w,
     case r of Inr _ \<Rightarrow> handled w (Sending ts topic msg topics) (cs_lock S) p h S
     | Inl (ZmqError n) \<Rightarrow> handled w (Caught n) None p h S
     | Inl err \<Rightarrow> handled w (Crashed err) (cs_lock S) p h S)"
  using assms
  by (cases w)
     (auto simp: worker_move_def Let_def unlock_def handled_def with_pub_def on_base_def go_to.simps split: sum.split error.split)

lemma sends_run:
  assumes "point_at w S = Sending ts topic msg topics" and "cs_phase S = Alive" and "\<not> crashed S"
    and "publishMsgs e ts msg (conv_pub S, cs_hist S) = (r, p, h)"
  shows "reaches w e S
     (case r of Inl (ZmqError n) \<Rightarrow> handled w (Caught n) None p h S
      | _ \<Rightarrow> handled w (Sending [] topic msg topics) (cs_lock S) p h S)"
  using assms unfolding publishMsgs_fold
proof (induction ts arbitrary: S)
  case Nil
  have "S = handled w (Sending [] topic msg topics) (cs_lock S) (conv_pub S) (cs_hist S) S"
    using Nil(1) by (cases w) (simp_all add: handled_def with_pub_def on_base_def go_to.simps)
  then show ?case using Nil(4) reaches_refl by (auto split: sum.split)
next
  case (Cons t ts)
  obtain r1 p1 h1 where pub: "publishMsg e t msg (conv_pub S, cs_hist S) = (r1, p1, h1)" by (metis surj_pair)
  note move = send_move[OF Cons.prems(1,2) pub]
  show ?case
  proof (cases r1)
    case (Inl err)
    then obtain n where n: "err = ZmqError n" using publishMsg_zmq pub by blast
    have "r = Inl (ZmqError n)" "p = p1" "h = h1" using Cons.prems(4) pub Inl n by simp_all
    then show ?thesis using move Inl n reaches_step[OF Cons.prems(3)] reaches_refl by fastforce
  next
    case (Inr u)
    let ?T = "handled w (Sending ts topic msg topics) (cs_lock S) p1 h1 S"
    have "for_each (\<lambda>topic. publishMsg e topic msg) ts (conv_pub ?T, cs_hist ?T) = (r, p, h)"
      using Cons.prems(4) pub Inr by simp
    from Cons.IH[OF _ _ handled_alive[OF Cons.prems(3)] this] Cons.prems(2)
    have "reaches w e ?T (case r of Inl (ZmqError n) \<Rightarrow> handled w (Caught n) None p h ?T
      | _ \<Rightarrow> handled w (Sending [] topic msg topics) (cs_lock ?T) p h ?T)" by auto
    then show ?thesis using move Inr reaches_step[OF Cons.prems(3)]
      by (auto simp only: handled_handled handled_fields sum.case)
  qed
qed

text \<open>Where a thread goes with the result of the handler.\<close>

fun point_after :: "unit outcome \<Rightarrow> point" where
  "point_after (Inr _) = Counting"
| "point_after (Inl (ZmqError n)) = Caught n"
| "point_after (Inl err) = Crashed err"

text \<open>The converter as the target of the loop, against the shared object.\<close>

definition same_target :: "ConvStack \<Rightarrow> conv_system \<Rightarrow> bool" where
  "same_target v S \<longleftrightarrow>
     cv_map v = cv_map (cs_conv S) \<and> zs_name (cv_base v) = zs_name (cv_base (cs_conv S)) \<and>
     zs_publisher (cv_base v) = conv_pub S"

definition publisher_moved :: "ConvStack \<Rightarrow> Publisher \<Rightarrow> ConvStack" where
  "publisher_moved v p = v\<lparr>cv_base := (cv_base v)\<lparr>zs_publisher := p\<rparr>\<rparr>"

lemma publisher_moved_same [simp]: "zs_publisher (cv_base v) = p \<Longrightarrow> publisher_moved v p = v"
  by (auto simp: publisher_moved_def)

lemma look_up_run:
  assumes "point_at w S = Waiting msgs" and "cs_phase S = Alive" and "cs_lock S = None" and "\<not> crashed S"
    and "msgs \<noteq> []" and "route_key msgs = (topic, msg)"
    and "h = (if length msgs = 1
          then log_info (zs_name (cv_base (cs_conv S)) @ '' Receiver received message '' @ msg @ '' '') (cs_hist S)
          else cs_hist S)"
    and "reaches w e (case cv_map (cs_conv S) topic of
          None \<Rightarrow> handled w Counting None (conv_pub S) h S
        | Some topics \<Rightarrow> handled w (Sending topics topic msg topics) (Some w) (conv_pub S)
            (log_info (''Published message '' @ msg @ '' to topics '' @ fmt_join '' '' topics) h) S) T"
  shows "reaches w e S T"
proof -
  let ?L = "handled w (Looking msgs) (Some w) (conv_pub S) (cs_hist S) S"
  have enter: "worker_move e w S = Some (Move w, ?L)"
    using assms(1-3) by (cases w) (simp_all add: worker_move_def handled_def with_pub_def on_base_def go_to.simps)
  have "look_up w msgs ?L = (case cv_map (cs_conv S) topic of
          None \<Rightarrow> handled w Counting None (conv_pub S) h S
        | Some topics \<Rightarrow> handled w (Sending topics topic msg topics) (Some w) (conv_pub S)
            (log_info (''Published message '' @ msg @ '' to topics '' @ fmt_join '' '' topics) h) S)"
  proof (cases "cv_map (cs_conv S) topic")
    case None
    have "look_up w msgs ?L = unlock w Counting (?L\<lparr>cs_hist := h\<rparr>)"
      unfolding look_up_def assms(6,7) Let_def prod.case using None assms(2,5) by simp
    then show ?thesis using None assms(2)
      by (cases w) (simp_all add: unlock_def handled_def with_pub_def on_base_def go_to.simps)
  next
    case (Some topics)
    have "look_up w msgs ?L = (go_to w (Sending topics topic msg topics) ?L)\<lparr>cs_hist :=
        log_info (''Published message '' @ msg @ '' to topics '' @ fmt_join '' '' topics) h\<rparr>"
      unfolding look_up_def assms(6,7) Let_def prod.case using Some assms(2,5) by simp
    then show ?thesis using Some
      by (cases w) (simp_all add: handled_def with_pub_def on_base_def go_to.simps)
  qed
  then have "worker_move e w ?L = Some (Route w msgs, case cv_map (cs_conv S) topic of
          None \<Rightarrow> handled w Counting None (conv_pub S) h S
        | Some topics \<Rightarrow> handled w (Sending topics topic msg topics) (Some w) (conv_pub S)
            (log_info (''Published message '' @ msg @ '' to topics '' @ fmt_join '' '' topics) h) S)"
    by (simp add: worker_move_def)
  from reaches_step[OF handled_alive[OF assms(4)] this assms(8)] have "reaches w e ?L T" by simp
  from reaches_step[OF assms(4) enter this] show ?thesis .
qed

lemma last_send:
  assumes "point_at w S = Sending [] topic msg topics" and "cs_phase S = Alive"
  shows "worker_move e w S = Some (Move w, handled w Counting None (conv_pub S)
     (log_info (zs_name (cv_base (cs_conv S)) @ '' receive message '' @ msg @ '' on topic '' @ topic @
         '' publishing to '' @ fmt_join '' '' topics) (cs_hist S)) S)"
  using assms by (cases w) (simp_all add: worker_move_def unlock_def handled_def with_pub_def on_base_def go_to.simps)

lemma convert_run:
  assumes "point_at w S = Sending topics topic msg topics" and "cs_phase S = Alive" and "\<not> crashed S"
    and "publishMsgs e topics msg (conv_pub S, cs_hist S) = (r, p, h)"
  shows "reaches w e S (handled w (point_after r) None p
     (case r of Inr _ \<Rightarrow> log_info (zs_name (cv_base (cs_conv S)) @ '' receive message '' @ msg @ '' on topic '' @ topic @
         '' publishing to '' @ fmt_join '' '' topics) h | Inl _ \<Rightarrow> h) S)"
proof -
  have run: "reaches w e S (case r of Inl (ZmqError n) \<Rightarrow> handled w (Caught n) None p h S
      | _ \<Rightarrow> handled w (Sending [] topic msg topics) (cs_lock S) p h S)"
    by (rule sends_run[OF assms])
  show ?thesis
  proof (cases r)
    case (Inl err)
    then obtain n where "err = ZmqError n"
      using publishMsgs_only_zmq[of e topics msg "(conv_pub S, cs_hist S)"] assms(4) by (cases err) auto
    then show ?thesis using run Inl by auto
  next
    case (Inr u)
    let ?T = "handled w (Sending [] topic msg topics) (cs_lock S) p h S"
    have "worker_move e w ?T = Some (Move w, handled w Counting None p
       (log_info (zs_name (cv_base (cs_conv S)) @ '' receive message '' @ msg @ '' on topic '' @ topic @
         '' publishing to '' @ fmt_join '' '' topics) h) S)"
      using last_send[of w ?T topic msg topics e] assms(2) unfolding handled_fields handled_handled by blast
    then have "reaches w e ?T (handled w Counting None p
       (log_info (zs_name (cv_base (cs_conv S)) @ '' receive message '' @ msg @ '' on topic '' @ topic @
         '' publishing to '' @ fmt_join '' '' topics) h) S)"
      by (rule reaches_step[OF handled_alive[OF assms(3)] _ reaches_refl, rotated]) simp
    moreover have "reaches w e S ?T" using run Inr by simp
    ultimately show ?thesis unfolding Inr point_after.simps sum.case by (blast intro: reaches_trans)
  qed
qed

lemma handler_run:
  assumes "point_at w S = Waiting msgs" and "cs_phase S = Alive" and "cs_lock S = None" and "\<not> crashed S"
    and "msgs \<noteq> []" and "same_target v S"
    and "ConvStack_onReceivedMessage e msgs (v, cs_hist S) = (r, v', h')"
  shows "v' = publisher_moved v (zs_publisher (cv_base v')) \<and>
     reaches w e S (handled w (point_after r) None (zs_publisher (cv_base v')) h' S)"
proof -
  obtain topic msg where key: "route_key msgs = (topic, msg)" by (metis surj_pair)
  define h where "h = (if length msgs = 1
    then log_info (zs_name (cv_base (cs_conv S)) @ '' Receiver received message '' @ msg @ '' '') (cs_hist S) else cs_hist S)"
  note v = assms(6)[unfolded same_target_def]
  have conv: "convert e topic msg (v, h) = (r, v', h')"
    using assms(5,7) key v by (cases msgs rule: route_key.cases) (auto simp: ConvStack_onReceivedMessage_def h_def)
  note look = look_up_run[OF assms(1-5) key h_def]
  show ?thesis
  proof (cases "cv_map (cs_conv S) topic")
    case None
    then have "r = Inr ()" "v' = v" "h' = h" using conv v by (simp_all add: convert_def)
    then show ?thesis using look[of e] None v reaches_refl by auto
  next
    case (Some topics)
    define h2 where "h2 = log_info (''Published message '' @ msg @ '' to topics '' @ fmt_join '' '' topics) h"
    let ?T = "handled w (Sending topics topic msg topics) (Some w) (conv_pub S) h2 S"
    obtain r2 p2 h3 where pub: "publishMsgs e topics msg (conv_pub S, h2) = (r2, p2, h3)" by (metis surj_pair)
    have result: "v' = publisher_moved v p2" "r = r2"
      "h' = (case r2 of Inr _ \<Rightarrow> log_info (zs_name (cv_base (cs_conv S)) @ '' receive message '' @ msg @ '' on topic '' @ topic @
         '' publishing to '' @ fmt_join '' '' topics) h3 | Inl _ \<Rightarrow> h3)"
      using conv pub Some v unfolding h2_def
      by (auto simp: convert_def ZmqStack_Publish_all_def Let_def publisher_moved_def split: sum.splits)
    have "publishMsgs e topics msg (conv_pub ?T, cs_hist ?T) = (r2, p2, h3)" using pub by simp
    from convert_run[where w = w and topic = topic, OF _ _ handled_alive[OF assms(4)] this] assms(2)
    have "reaches w e ?T (handled w (point_after r2) None p2 h' S)"
      unfolding result(3) handled_fields handled_handled by auto
    then have "reaches w e S (handled w (point_after r2) None p2 h' S)"
      using look Some unfolding h2_def by simp
    moreover have "zs_publisher (cv_base v') = p2" unfolding result(1) by (simp add: publisher_moved_def)
    ultimately show ?thesis using result by simp
  qed
qed

section \<open>One iteration\<close>

text \<open>The ways an iteration ends.\<close>

fun iteration_end :: "bool outcome \<Rightarrow> point" where
  "iteration_end (Inr go) = (if go then AtTop else Closing)"
| "iteration_end (Inl err) = Crashed err"

lemma go_alive: "\<not> crashed S \<Longrightarrow> \<not> crashed_at pt \<Longrightarrow> \<not> crashed (go_to w pt S)"
  "\<not> crashed S \<Longrightarrow> \<not> crashed_at pt \<Longrightarrow> \<not> crashed ((go_to w pt S)\<lparr>cs_hist := h\<rparr>)"
  by (auto split: if_splits)

text \<open>An exception caught, a round counted, a message read.\<close>

lemma caught_reaches:
  "\<not> crashed S \<Longrightarrow> point_at w S = Caught n \<Longrightarrow>
     reaches w e S ((go_to w Closing S)\<lparr>cs_hist := log_error (''Caught exception '' @ zmq_strerror e n) (cs_hist S)\<rparr>)"
  by (rule reaches_step[where w = w, OF _ _ reaches_refl]) (auto simp: worker_move_def)

lemma count_reaches:
  "\<not> crashed S \<Longrightarrow> point_at w S = Counting \<Longrightarrow> reaches w e S (go_to w AtTop (count_one w S))"
  by (rule reaches_step[where w = w, OF _ _ reaches_refl]) (auto simp: worker_move_def)

lemma on_part_name [simp]:
  "zs_name (cv_base (cs_conv (on_sub f S))) = zs_name (cv_base (cs_conv S))"
  "zs_name (cv_base (cs_conv (on_rcv g S))) = zs_name (cv_base (cs_conv S))"
  by (simp_all add: on_sub_def on_rcv_def)

lemma go_to_again [simp]:
  "go_to w pt (go_to w pt' S) = go_to w pt S" "go_to w pt ((go_to w pt' S)\<lparr>cs_hist := h\<rparr>) = (go_to w pt S)\<lparr>cs_hist := h\<rparr>"
  by (cases w; simp add: go_to.simps)+

lemma polling_reaches:
  assumes "\<not> crashed S" and "point_at w S = AtTop" and "\<not> told_to_stop w S"
  shows "reaches w e S (go_to w Polling S)"
  by (rule reaches_step[where w = w, OF assms(1) _ reaches_refl]) (simp add: worker_move_def assms(2,3))

lemma socket_of_go_to [simp]: "socket_of w (go_to w' pt S) = socket_of w S" "socket_of w (S\<lparr>cs_hist := h\<rparr>) = socket_of w S"
  by (cases w; simp)+

text \<open>From the top of the loop to the message, or to the end of the round without one.\<close>

lemma poll_throws_reaches:
  assumes "\<not> crashed S" and "point_at w S = AtTop" and "\<not> told_to_stop w S"
    and "zmq_throws e (cs_hist S) (ZmqPoll (socket_of w S)) = Some n"
  shows "reaches w e S ((go_to w Closing S)\<lparr>cs_hist :=
     log_error (''Caught exception '' @ zmq_strerror e n) (cs_hist S @ [ZmqPoll (socket_of w S)])\<rparr>)"
proof -
  let ?T = "(go_to w (Caught n) S)\<lparr>cs_hist := cs_hist S @ [ZmqPoll (socket_of w S)]\<rparr>"
  have "reaches w e (go_to w Polling S) ?T"
    by (rule reaches_step[where w = w, OF go_alive(1)[OF assms(1)] _ reaches_refl])
      (use assms(4) in \<open>auto simp: worker_move_def zmq_poll_def\<close>)
  moreover have "reaches w e ?T ((go_to w Closing S)\<lparr>cs_hist :=
     log_error (''Caught exception '' @ zmq_strerror e n) (cs_hist S @ [ZmqPoll (socket_of w S)])\<rparr>)"
    using caught_reaches[OF go_alive(2)[OF assms(1)], where e = e and n = n and w = w and w1 = w] by simp
  ultimately show ?thesis using polling_reaches[OF assms(1-3)] reaches_trans by blast
qed

lemma idle_reaches:
  assumes "\<not> crashed S" and "point_at w S = AtTop" and "\<not> told_to_stop w S"
    and "zmq_throws e (cs_hist S) (ZmqPoll (socket_of w S)) = None" and "\<not> zmq_pollin e (cs_hist S) (socket_of w S)"
  shows "reaches w e S (go_to w AtTop (count_one w (S\<lparr>cs_hist := cs_hist S @ [ZmqPoll (socket_of w S)]\<rparr>)))"
proof -
  let ?T = "(go_to w Counting S)\<lparr>cs_hist := cs_hist S @ [ZmqPoll (socket_of w S)]\<rparr>"
  have "reaches w e (go_to w Polling S) ?T"
    by (rule reaches_step[where w = w, OF go_alive(1)[OF assms(1)] _ reaches_refl])
      (use assms(4,5) in \<open>auto simp: worker_move_def zmq_poll_def\<close>)
  moreover have "reaches w e ?T (go_to w AtTop (count_one w ?T))"
    by (rule count_reaches[OF go_alive(2)[OF assms(1)]]) simp_all
  moreover have "go_to w AtTop (count_one w ?T) = go_to w AtTop (count_one w (S\<lparr>cs_hist := cs_hist S @ [ZmqPoll (socket_of w S)]\<rparr>))"
    by (cases w) (simp_all add: go_to.simps on_sub_def on_rcv_def on_base_def)
  ultimately show ?thesis using polling_reaches[OF assms(1-3)] reaches_trans by metis
qed

lemma reading_reaches:
  assumes "\<not> crashed S" and "point_at w S = AtTop" and "\<not> told_to_stop w S"
    and "zmq_throws e (cs_hist S) (ZmqPoll (socket_of w S)) = None" and "zmq_pollin e (cs_hist S) (socket_of w S)"
  shows "reaches w e S ((go_to w Reading S)\<lparr>cs_hist := cs_hist S @ [ZmqPoll (socket_of w S)]\<rparr>)"
proof -
  have "reaches w e (go_to w Polling S) ((go_to w Reading S)\<lparr>cs_hist := cs_hist S @ [ZmqPoll (socket_of w S)]\<rparr>)"
    by (rule reaches_step[where w = w, OF go_alive(1)[OF assms(1)] _ reaches_refl])
      (use assms(4,5) in \<open>auto simp: worker_move_def zmq_poll_def\<close>)
  then show ?thesis using polling_reaches[OF assms(1-3)] reaches_trans by blast
qed

lemma recv_throws_reaches:
  assumes "\<not> crashed S" and "point_at w S = Reading"
    and "zmq_throws e (cs_hist S) (ZmqRecv (socket_of w S)) = Some n"
  shows "reaches w e S ((go_to w Closing S)\<lparr>cs_hist :=
     log_error (''Caught exception '' @ zmq_strerror e n) (cs_hist S @ [ZmqRecv (socket_of w S)])\<rparr>)"
proof -
  let ?T = "(go_to w (Caught n) S)\<lparr>cs_hist := cs_hist S @ [ZmqRecv (socket_of w S)]\<rparr>"
  have "reaches w e S ?T"
    by (rule reaches_step[where w = w, OF assms(1) _ reaches_refl])
      (use assms(2,3) in \<open>auto simp: worker_move_def recv_multipart_def Let_def\<close>)
  moreover have "reaches w e ?T ((go_to w Closing S)\<lparr>cs_hist :=
     log_error (''Caught exception '' @ zmq_strerror e n) (cs_hist S @ [ZmqRecv (socket_of w S)])\<rparr>)"
    using caught_reaches[OF go_alive(2)[OF assms(1)], where e = e and n = n and w = w and w1 = w] by simp
  ultimately show ?thesis using reaches_trans by blast
qed

lemma holding_reaches:
  assumes "\<not> crashed S" and "point_at w S = Reading"
    and "zmq_throws e (cs_hist S) (ZmqRecv (socket_of w S)) = None"
  shows "reaches w e S ((go_to w (Holding (zmq_frames e (cs_hist S) (socket_of w S))) S)\<lparr>cs_hist :=
     (if \<not> zmq_received e (cs_hist S) (socket_of w S) then log_error ''Error receiving'' (cs_hist S @ [ZmqRecv (socket_of w S)])
      else cs_hist S @ [ZmqRecv (socket_of w S)])\<rparr>)"
  by (rule reaches_step[where w = w, OF assms(1) _ reaches_refl])
    (use assms(2,3) in \<open>auto simp: worker_move_def recv_multipart_def Let_def\<close>)

lemma dispatch_reaches:
  "\<not> crashed S \<Longrightarrow> point_at w S = Holding msgs \<Longrightarrow> reaches w e S (dispatch w msgs S)"
  by (rule reaches_step[where w = w, OF _ _ reaches_refl]) (auto simp: worker_move_def)

text \<open>The outcome of an iteration of the loop, and the state of the process that stands for it.\<close>

definition stands_for :: "worker \<Rightarrow> conv_system \<Rightarrow> bool outcome \<times> ConvStack \<times> history \<Rightarrow> conv_system \<Rightarrow> bool" where
  "stands_for w S rvh T \<longleftrightarrow>
     (case rvh of (r, v, h) \<Rightarrow>
       point_at w T = iteration_end r \<and> (\<forall>w'. w' \<noteq> w \<longrightarrow> point_at w' T = point_at w' S) \<and>
       cs_lock T = None \<and> cs_phase T = cs_phase S \<and> cs_owner T = cs_owner S \<and> cs_hist T = h \<and>
       same_target v T)"

lemma point_after_no_crash: "only_zmq r \<Longrightarrow> \<not> crashed_at (point_after r)"
  by (cases r rule: point_after.cases) simp_all

text \<open>From the lock to the end of the iteration.\<close>

lemma handled_reaches:
  assumes "point_at w S = Waiting msgs" and "cs_phase S = Alive" and "cs_lock S = None" and "\<not> crashed S"
    and "msgs \<noteq> []" and "same_target v S"
    and "ConvStack_onReceivedMessage e msgs (v, cs_hist S) = (r, v', h)"
  shows "r = Inr () \<and> reaches w e S (go_to w AtTop (count_one w (handled w Counting None (zs_publisher (cv_base v')) h S))) \<or>
    (\<exists>n. r = Inl (ZmqError n) \<and> reaches w e S (handled w Closing None (zs_publisher (cv_base v'))
       (log_error (''Caught exception '' @ zmq_strerror e n) h) S))"
proof -
  have run: "reaches w e S (handled w (point_after r) None (zs_publisher (cv_base v')) h S)"
    using handler_run[OF assms] by blast
  have "only_zmq r"
    using conv_target.received_nonempty[OF assms(5), of e v "cs_hist S"] assms(7) by (simp add: ConvStack_target_def)
  note alive = handled_alive[OF assms(4) point_after_no_crash[OF this]]
  from \<open>only_zmq r\<close> consider "r = Inr ()" | n where "r = Inl (ZmqError n)"
    by (cases r rule: point_after.cases) auto
  then show ?thesis
  proof cases
    case 1
    then show ?thesis using reaches_trans[OF run] count_reaches[OF alive] by simp
  next
    case (2 n)
    let ?T = "handled w (Caught n) None (zs_publisher (cv_base v')) h S"
    have "reaches w e ?T ((go_to w Closing ?T)\<lparr>cs_hist := log_error (''Caught exception '' @ zmq_strerror e n) (cs_hist ?T)\<rparr>)"
      by (rule caught_reaches[OF alive[unfolded 2 point_after.simps]]) simp
    moreover have "(go_to w Closing ?T)\<lparr>cs_hist := log_error (''Caught exception '' @ zmq_strerror e n) (cs_hist ?T)\<rparr>
        = handled w Closing None (zs_publisher (cv_base v')) (log_error (''Caught exception '' @ zmq_strerror e n) h) S"
      by (cases w) (simp_all add: handled_def with_pub_def on_base_def go_to.simps)
    ultimately show ?thesis using 2 reaches_trans[OF run] by simp
  qed
qed

lemma handled_parts [simp]:
  "sub_part (handled w pt l p h S) = sub_part S" "zs_receiver (cv_base (cs_conv (handled w pt l p h S))) = zs_receiver (cv_base (cs_conv S))"
  "cs_owner (handled w pt l p h S) = cs_owner S"
  by (simp_all add: handled_def)

lemma count_message_parts [simp]:
  "sub_part (count_message SubThread S) = (sub_part S)\<lparr>sub_total := sub_total (sub_part S) + 1\<rparr>"
  "zs_name (cv_base (cs_conv (count_message w S))) = zs_name (cv_base (cs_conv S))"
  by (simp, cases w) simp_all

lemma count_one_name [simp]: "zs_name (cv_base (cs_conv (count_one w S))) = zs_name (cv_base (cs_conv S))"
  by (cases w) simp_all

lemma waiting_parts [simp]:
  "sub_part (go_to w pt S) = sub_part S" "zs_receiver (cv_base (cs_conv (go_to w pt S))) = zs_receiver (cv_base (cs_conv S))"
  by simp_all

lemma count_one_parts [simp]:
  "sub_part (count_one SubThread S) = (sub_part S)\<lparr>sub_count := sub_count (sub_part S) + 1\<rparr>"
  "zs_receiver (cv_base (cs_conv (count_one RcvThread S))) =
     map_option (\<lambda>r. r\<lparr>rcv_count := rcv_count r + 1\<rparr>) (zs_receiver (cv_base (cs_conv S)))"
  "zs_receiver (cv_base (cs_conv (count_message RcvThread S))) =
     map_option (\<lambda>r. r\<lparr>rcv_total := rcv_total r + 1\<rparr>) (zs_receiver (cv_base (cs_conv S)))"
  by simp_all

lemma same_target_refl [simp]: "same_target (cs_conv S) S"
  by (simp add: same_target_def)

text \<open>The members of the two threads.\<close>

definition same_parts :: "conv_system \<Rightarrow> conv_system \<Rightarrow> bool" where
  "same_parts S T \<longleftrightarrow> sub_part S = sub_part T \<and>
     zs_receiver (cv_base (cs_conv S)) = zs_receiver (cv_base (cs_conv T))"

lemma same_parts_count:
  "same_parts S T \<Longrightarrow> same_parts (count_one w S) (count_one w T)"
  by (cases w) (simp_all add: same_parts_def on_sub_def on_rcv_def on_base_def)

text \<open>From a message to the end of the iteration that handles it.\<close>

lemma received_reaches:
  assumes "point_at w S = Holding msgs" and "dispatch w msgs S = hand_over w msgs (count_message w S)"
    and "cs_phase S = Alive" and "cs_lock S = None" and "\<not> crashed S" and "msgs \<noteq> []" and "same_target v S"
    and "ConvStack_onReceivedMessage e msgs (v, cs_hist S) = (r, v', h)"
  shows "r = Inr () \<and> (\<exists>T. reaches w e S T \<and> stands_for w S (Inr True, v', h) T \<and>
       same_parts T (count_one w (count_message w S))) \<or>
    (\<exists>n. r = Inl (ZmqError n) \<and> (\<exists>T. reaches w e S T \<and>
       stands_for w S (Inr False, v', log_error (''Caught exception '' @ zmq_strerror e n) h) T \<and>
       same_parts T (count_message w S)))"
proof -
  let ?W = "go_to w (Waiting msgs) (count_message w S)"
  have disp: "reaches w e S ?W"
    using dispatch_reaches[OF assms(5,1), of e] assms(2,3) by (simp add: hand_over_def)
  have W: "point_at w ?W = Waiting msgs" "cs_phase ?W = Alive" "cs_lock ?W = None" using assms(3,4) by simp_all
  have alive: "\<not> crashed ?W" using assms(5) by (intro go_alive(1); cases w) simp_all
  have target: "same_target v ?W"
    using assms(7) by (simp only: same_target_def go_to_fields count_fields count_message_parts)
  have handler: "ConvStack_onReceivedMessage e msgs (v, cs_hist ?W) = (r, v', h)" using assms(8) by simp
  have moved: "v' = publisher_moved v (zs_publisher (cv_base v'))"
    using handler_run[OF W alive assms(6) target handler] by blast
  have same: "cv_map v' = cv_map (cs_conv S) \<and> zs_name (cv_base v') = zs_name (cv_base (cs_conv S))"
    by (subst (1 2) moved) (use assms(7) in \<open>simp add: publisher_moved_def same_target_def\<close>)
  from handled_reaches[OF W alive assms(6) target handler]
  consider "r = Inr ()" "reaches w e ?W (go_to w AtTop (count_one w (handled w Counting None (zs_publisher (cv_base v')) h ?W)))"
  | n where "r = Inl (ZmqError n)" "reaches w e ?W (handled w Closing None (zs_publisher (cv_base v'))
       (log_error (''Caught exception '' @ zmq_strerror e n) h) ?W)"
    by blast
  then show ?thesis
  proof cases
    case 1
    let ?T = "go_to w AtTop (count_one w (handled w Counting None (zs_publisher (cv_base v')) h ?W))"
    have "stands_for w S (Inr True, v', h) ?T"
      using same unfolding stands_for_def same_target_def prod.case by auto
    moreover have "same_parts ?T (count_one w (count_message w S))"
      using same_parts_count[of "handled w Counting None (zs_publisher (cv_base v')) h ?W" "count_message w S" w]
      by (simp add: same_parts_def)
    ultimately show ?thesis using 1(1) reaches_trans[OF disp 1(2)] by blast
  next
    case (2 n)
    let ?T = "handled w Closing None (zs_publisher (cv_base v')) (log_error (''Caught exception '' @ zmq_strerror e n) h) ?W"
    have "stands_for w S (Inr False, v', log_error (''Caught exception '' @ zmq_strerror e n) h) ?T"
      using same unfolding stands_for_def same_target_def prod.case by auto
    moreover have "same_parts ?T (count_message w S)" by (simp add: same_parts_def)
    ultimately show ?thesis using 2(1) reaches_trans[OF disp 2(2)] by blast
  qed
qed

lemma stands_for_alive: "stands_for w S (r, v, h) T \<Longrightarrow> \<not> crashed S \<Longrightarrow> \<not> crashed_at (iteration_end r) \<Longrightarrow> \<not> crashed T"
  unfolding crashed_iff stands_for_def prod.case by metis

lemma stands_for_from:
  assumes "stands_for w S' x T" and "\<And>w'. w' \<noteq> w \<Longrightarrow> point_at w' S' = point_at w' S" and "cs_phase S' = cs_phase S"
    and "cs_owner S' = cs_owner S"
  shows "stands_for w S x T"
  using assms by (cases x) (simp add: stands_for_def)

section \<open>Polling and reading\<close>

text \<open>The first half of both loop bodies: whether a message is there, and the message.\<close>

definition fetch :: "env \<Rightarrow> nat \<Rightarrow> history \<Rightarrow> string list option outcome \<times> history" where
  "fetch e k h =
     (case zmq_poll e k h of
        (Inl err, h) \<Rightarrow> (Inl err, h)
      | (Inr pollin, h) \<Rightarrow>
          if \<not> pollin then (Inr None, h)
          else (case recv_multipart e k h of
                  (Inl err, h) \<Rightarrow> (Inl err, h)
                | (Inr (res, msgs), h) \<Rightarrow> (Inr (Some msgs), if \<not> res then log_error ''Error receiving'' h else h)))"

lemma sub_body_fetch:
  "sub_body e tg (s, t, h) =
     (case fetch e (sub_socket s) h of
        (Inl err, h) \<Rightarrow> (Inl err, s, t, h)
      | (Inr None, h) \<Rightarrow> (Inr True, s\<lparr>sub_count := sub_count s + 1\<rparr>, t, h)
      | (Inr (Some msgs), h) \<Rightarrow> sub_dispatch tg msgs (s, t, h))"
  by (auto simp: sub_body_def fetch_def Let_def split: prod.split sum.split)

definition rcv_hand_over :: "'t target \<Rightarrow> string list \<Rightarrow> 't rcv_state \<Rightarrow> bool outcome \<times> 't rcv_state" where
  "rcv_hand_over tg msgs st =
     (case st of (r, t, h) \<Rightarrow>
        let r = r\<lparr>rcv_total := rcv_total r + 1\<rparr> in
        (case onReceivedMessage tg msgs (t, h) of
           (Inl err, t, h) \<Rightarrow> (Inl err, r, t, h)
         | (Inr _, t, h) \<Rightarrow> (Inr True, r\<lparr>rcv_count := rcv_count r + 1\<rparr>, t, h)))"

lemma rcv_body_fetch:
  "rcv_body e tg (r, t, h) =
     (case fetch e (rcv_socket r) h of
        (Inl err, h) \<Rightarrow> (Inl err, r, t, h)
      | (Inr None, h) \<Rightarrow> (Inr True, r\<lparr>rcv_count := rcv_count r + 1\<rparr>, t, h)
      | (Inr (Some msgs), h) \<Rightarrow> rcv_hand_over tg msgs (r, t, h))"
  by (auto simp: rcv_body_def rcv_hand_over_def fetch_def Let_def split: prod.split sum.split)

lemma fetch_zmq: "fetch e k h = (Inl err, h') \<Longrightarrow> \<exists>n. err = ZmqError n"
  by (auto simp: fetch_def zmq_poll_def recv_multipart_def Let_def split: option.splits if_splits)

text \<open>What a thread does meanwhile.\<close>

fun after_fetch :: "env \<Rightarrow> worker \<Rightarrow> conv_system \<Rightarrow> string list option outcome \<times> history \<Rightarrow> conv_system" where
  "after_fetch e w S (Inl (ZmqError n), h) =
     (go_to w Closing S)\<lparr>cs_hist := log_error (''Caught exception '' @ zmq_strerror e n) h\<rparr>"
| "after_fetch e w S (Inl err, h) = S"
| "after_fetch e w S (Inr None, h) = go_to w AtTop (count_one w (S\<lparr>cs_hist := h\<rparr>))"
| "after_fetch e w S (Inr (Some msgs), h) = (go_to w (Holding msgs) S)\<lparr>cs_hist := h\<rparr>"

lemma fetch_reaches:
  assumes "\<not> crashed S" and "point_at w S = AtTop" and "\<not> told_to_stop w S"
  shows "reaches w e S (after_fetch e w S (fetch e (socket_of w S) (cs_hist S)))"
proof (cases "zmq_throws e (cs_hist S) (ZmqPoll (socket_of w S))")
  case (Some n)
  then show ?thesis using poll_throws_reaches[OF assms] by (simp add: fetch_def zmq_poll_def)
next
  case polled: None
  show ?thesis
  proof (cases "zmq_pollin e (cs_hist S) (socket_of w S)")
    case False
    then show ?thesis using idle_reaches[OF assms polled] polled by (simp add: fetch_def zmq_poll_def)
  next
    case True
    let ?R = "(go_to w Reading S)\<lparr>cs_hist := cs_hist S @ [ZmqPoll (socket_of w S)]\<rparr>"
    have read: "reaches w e S ?R" by (rule reading_reaches[OF assms polled True])
    have R: "\<not> crashed ?R" "point_at w ?R = Reading" using assms(1) by (intro go_alive(2)) simp_all
    show ?thesis
    proof (cases "zmq_throws e (cs_hist ?R) (ZmqRecv (socket_of w ?R))")
      case (Some n)
      then show ?thesis
        using reaches_trans[OF read recv_throws_reaches[OF R Some]] polled True
        by (simp add: fetch_def zmq_poll_def recv_multipart_def Let_def)
    next
      case None
      then show ?thesis
        using reaches_trans[OF read holding_reaches[OF R None]] polled True
        by (cases "zmq_received e (cs_hist ?R) (socket_of w ?R)")
          (simp_all add: fetch_def zmq_poll_def recv_multipart_def Let_def)
    qed
  qed
qed

end
