(* ===== verification/ConvRun.thy ===== *)
theory ConvRun
  imports ConvLoop
begin

text \<open>
  The loops \<open>Run\<close> of \<open>Subscriber\<close> and \<open>Receiver\<close> against the actions of \<open>ConvThread\<close>: the locale
  \<open>worker_loop\<close> says what makes a loop that of a thread, and is interpreted for both classes.
\<close>

section \<open>The iterations\<close>

abbreviation sub_caught :: "env \<Rightarrow> bool outcome \<times> ConvStack sub_state \<Rightarrow> bool outcome \<times> ConvStack sub_state" where
  "sub_caught e res \<equiv> catch_zmq res (\<lambda>n (s, t, h). (Inr False, s, t, log_error (''Caught exception '' @ zmq_strerror e n) h))"

abbreviation rcv_caught :: "env \<Rightarrow> bool outcome \<times> ConvStack rcv_state \<Rightarrow> bool outcome \<times> ConvStack rcv_state" where
  "rcv_caught e res \<equiv> catch_zmq res (\<lambda>n (r, t, h). (Inr False, r, t, log_error (''Caught exception '' @ zmq_strerror e n) h))"

lemma sub_dispatch_reaches:
  assumes "cs_sub S = Holding msgs" and "cs_phase S = Alive" and "cs_lock S = None" and "\<not> crashed S"
    and "same_target v S"
    and "sub_caught e (sub_dispatch (ConvStack_target e) msgs (sub_part S, v, cs_hist S)) = (r, s', v', h')"
  shows "\<exists>T. reaches SubThread e S T \<and> stands_for SubThread S (r, v', h') T \<and> sub_part T = s'"
proof -
  have at: "point_at SubThread S = Holding msgs" using assms(1) by simp
  show ?thesis
  proof (cases "msgs = [] \<or> hd msgs \<in> {WELCOME_TOPIC, CTRL_TOPIC}")
    case True
    then have "stands_for SubThread S (r, v', h') (dispatch SubThread msgs S) \<and> sub_part (dispatch SubThread msgs S) = s'"
      using assms(2,3,5,6)
      by (cases msgs; cases "tl msgs")
        (auto simp: same_target_def sub_dispatch_def ConvStack_target_def ConvStack_onCtrlMessage_def ZmqStack_onCtrlMessage_def
          stands_for_def catch_zmq_def split: if_splits)
    then show ?thesis using dispatch_reaches[OF assms(4) at] by blast
  next
    case False
    then obtain topic rest where msgs: "msgs = topic # rest" "topic \<noteq> WELCOME_TOPIC" "topic \<noteq> CTRL_TOPIC" by (cases msgs) auto
    then have disp: "dispatch SubThread msgs S = hand_over SubThread msgs (count_message SubThread S)" "msgs \<noteq> []" by simp_all
    obtain r1 v1 h1 where handler: "ConvStack_onReceivedMessage e msgs (v, cs_hist S) = (r1, v1, h1)" by (metis surj_pair)
    let ?s = "(sub_part S)\<lparr>sub_total := sub_total (sub_part S) + 1\<rparr>"
    from received_reaches[OF at disp(1) assms(2-4) disp(2) assms(5) handler]
    consider T where "r1 = Inr ()" "reaches SubThread e S T" "stands_for SubThread S (Inr True, v1, h1) T"
        "same_parts T (count_one SubThread (count_message SubThread S))"
    | n T where "r1 = Inl (ZmqError n)" "reaches SubThread e S T"
        "stands_for SubThread S (Inr False, v1, log_error (''Caught exception '' @ zmq_strerror e n) h1) T"
        "same_parts T (count_message SubThread S)"
      by blast
    then show ?thesis
    proof cases
      case (1 T)
      have "r = Inr True" "v' = v1" "h' = h1" "s' = ?s\<lparr>sub_count := sub_count ?s + 1\<rparr>"
        using assms(6) handler 1(1) msgs by (simp_all add: sub_dispatch_def ConvStack_target_def Let_def)
      then show ?thesis using 1(2-4) by (auto simp: same_parts_def)
    next
      case (2 n T)
      have "r = Inr False" "v' = v1" "h' = log_error (''Caught exception '' @ zmq_strerror e n) h1" "s' = ?s"
        using assms(6) handler 2(1) msgs unfolding sub_dispatch_def ConvStack_target_def Let_def by simp_all
      then show ?thesis using 2(2-4) by (auto simp: same_parts_def)
    qed
  qed
qed

lemma rcv_hand_over_reaches:
  assumes "cs_rcv S = Holding msgs" and "msgs \<noteq> []" and "cs_phase S = Alive" and "cs_lock S = None" and "\<not> crashed S"
    and "same_target v S" and "zs_receiver (cv_base (cs_conv S)) = Some q"
    and "rcv_caught e (rcv_hand_over (ConvStack_target e) msgs (q, v, cs_hist S)) = (r, q', v', h')"
  shows "\<exists>T. reaches RcvThread e S T \<and> stands_for RcvThread S (r, v', h') T \<and> zs_receiver (cv_base (cs_conv T)) = Some q'"
proof -
  have at: "point_at RcvThread S = Holding msgs" "dispatch RcvThread msgs S = hand_over RcvThread msgs (count_message RcvThread S)"
    using assms(1) by simp_all
  obtain r1 v1 h1 where handler: "ConvStack_onReceivedMessage e msgs (v, cs_hist S) = (r1, v1, h1)" by (metis surj_pair)
  let ?q = "q\<lparr>rcv_total := rcv_total q + 1\<rparr>"
  from received_reaches[OF at assms(3-5,2,6) handler]
  consider T where "r1 = Inr ()" "reaches RcvThread e S T" "stands_for RcvThread S (Inr True, v1, h1) T"
      "same_parts T (count_one RcvThread (count_message RcvThread S))"
  | n T where "r1 = Inl (ZmqError n)" "reaches RcvThread e S T"
      "stands_for RcvThread S (Inr False, v1, log_error (''Caught exception '' @ zmq_strerror e n) h1) T"
      "same_parts T (count_message RcvThread S)"
    by blast
  then show ?thesis
  proof cases
    case (1 T)
    have "r = Inr True" "v' = v1" "h' = h1" "q' = ?q\<lparr>rcv_count := rcv_count ?q + 1\<rparr>"
      using assms(8) handler 1(1) by (simp_all add: rcv_hand_over_def ConvStack_target_def Let_def)
    then show ?thesis using 1(2-4) assms(7) by (auto simp: same_parts_def)
  next
    case (2 n T)
    have "r = Inr False" "v' = v1" "h' = log_error (''Caught exception '' @ zmq_strerror e n) h1" "q' = ?q"
      using assms(8) handler 2(1) unfolding rcv_hand_over_def ConvStack_target_def Let_def by simp_all
    then show ?thesis using 2(2-4) assms(7) by (auto simp: same_parts_def)
  qed
qed

lemma fetched_alive:
  assumes "\<not> crashed S" shows "\<not> crashed ((go_to w (Holding msgs) S)\<lparr>cs_hist := h\<rparr>)"
  using assms by (intro go_alive(2)) simp_all

lemma sub_iteration_reaches:
  assumes "cs_sub S = AtTop" and "cs_phase S = Alive" and "cs_lock S = None" and "\<not> crashed S"
    and "same_target v S" and "\<not> sub_shutdown (sub_part S)"
    and "sub_iteration e (ConvStack_target e) (sub_part S, v, cs_hist S) = (r, s', v', h')"
  shows "\<exists>T. reaches SubThread e S T \<and> stands_for SubThread S (r, v', h') T \<and> sub_part T = s'"
proof -
  have top: "point_at SubThread S = AtTop" "\<not> told_to_stop SubThread S" using assms(1,6) by simp_all
  obtain f h where f: "fetch e (sub_socket (sub_part S)) (cs_hist S) = (f, h)" by (metis surj_pair)
  have run: "reaches SubThread e S (after_fetch e SubThread S (f, h))" using fetch_reaches[OF assms(4) top, of e] f by simp
  note body = assms(7)[unfolded sub_iteration_def sub_body_fetch f]
  show ?thesis
  proof (cases f)
    case (Inl err)
    then obtain n where n: "f = Inl (ZmqError n)" using fetch_zmq[of e "sub_socket (sub_part S)" "cs_hist S"] f by blast
    then show ?thesis using run body assms(3,5)
      by (intro exI[where x = "after_fetch e SubThread S (f, h)"]) (auto simp: stands_for_def same_target_def)
  next
    case (Inr found)
    show ?thesis
    proof (cases found)
      case None
      then show ?thesis using run body assms(3,5) Inr
        by (intro exI[where x = "after_fetch e SubThread S (f, h)"]) (auto simp: stands_for_def same_target_def)
    next
      case (Some msgs)
      let ?H = "(go_to SubThread (Holding msgs) S)\<lparr>cs_hist := h\<rparr>"
      have H: "cs_sub ?H = Holding msgs" "cs_phase ?H = Alive" "cs_lock ?H = None" using assms(2,3) by simp_all
      have caught: "sub_caught e (sub_dispatch (ConvStack_target e) msgs (sub_part ?H, v, cs_hist ?H)) = (r, s', v', h')"
        using body Inr Some by simp
      have "same_target v ?H" using assms(5) by (simp add: same_target_def)
      from sub_dispatch_reaches[OF H fetched_alive[OF assms(4)] this caught] obtain T where
        T: "reaches SubThread e ?H T" "stands_for SubThread ?H (r, v', h') T" "sub_part T = s'" by blast
      have "stands_for SubThread S (r, v', h') T" by (rule stands_for_from[OF T(2)]) simp_all
      then show ?thesis using T(1,3) reaches_trans[OF run] Inr Some by auto
    qed
  qed
qed

lemma fetched_nonempty:
  "fetch e k h = (Inr (Some msgs), h') \<Longrightarrow> \<forall>h. zmq_frames e h k \<noteq> [] \<Longrightarrow> msgs \<noteq> []"
  by (auto simp: fetch_def zmq_poll_def recv_multipart_def Let_def split: option.splits if_splits)

lemma rcv_iteration_reaches:
  assumes "cs_rcv S = AtTop" and "cs_phase S = Alive" and "cs_lock S = None" and "\<not> crashed S"
    and "same_target v S" and "zs_receiver (cv_base (cs_conv S)) = Some q" and "\<not> rcv_shutdown q"
    and "\<forall>h. zmq_frames e h (rcv_socket q) \<noteq> []"
    and "rcv_iteration e (ConvStack_target e) (q, v, cs_hist S) = (r, q', v', h')"
  shows "\<exists>T. reaches RcvThread e S T \<and> stands_for RcvThread S (r, v', h') T \<and> zs_receiver (cv_base (cs_conv T)) = Some q'"
proof -
  have top: "point_at RcvThread S = AtTop" "\<not> told_to_stop RcvThread S" using assms(1,6,7) by simp_all
  obtain f h where f: "fetch e (rcv_socket q) (cs_hist S) = (f, h)" by (metis surj_pair)
  have run: "reaches RcvThread e S (after_fetch e RcvThread S (f, h))"
    using fetch_reaches[OF assms(4) top, of e] f assms(6) by simp
  note body = assms(9)[unfolded rcv_iteration_def rcv_body_fetch f]
  show ?thesis
  proof (cases f)
    case (Inl err)
    then obtain n where n: "f = Inl (ZmqError n)" using fetch_zmq[of e "rcv_socket q" "cs_hist S"] f by blast
    then show ?thesis using run body assms(3,5,6)
      by (intro exI[where x = "after_fetch e RcvThread S (f, h)"]) (auto simp: stands_for_def same_target_def)
  next
    case (Inr found)
    show ?thesis
    proof (cases found)
      case None
      then show ?thesis using run body assms(3,5,6) Inr
        by (intro exI[where x = "after_fetch e RcvThread S (f, h)"]) (auto simp: stands_for_def same_target_def)
    next
      case (Some msgs)
      let ?H = "(go_to RcvThread (Holding msgs) S)\<lparr>cs_hist := h\<rparr>"
      have H: "cs_rcv ?H = Holding msgs" "cs_phase ?H = Alive" "cs_lock ?H = None"
        "zs_receiver (cv_base (cs_conv ?H)) = Some q" using assms(2,3,6) by simp_all
      have nonempty: "msgs \<noteq> []" using fetched_nonempty f Inr Some assms(8) by blast
      have caught: "rcv_caught e (rcv_hand_over (ConvStack_target e) msgs (q, v, cs_hist ?H)) = (r, q', v', h')"
        using body Inr Some by simp
      have "same_target v ?H" using assms(5) by (simp add: same_target_def)
      from rcv_hand_over_reaches[OF H(1) nonempty H(2,3) fetched_alive[OF assms(4)] this H(4) caught] obtain T where
        T: "reaches RcvThread e ?H T" "stands_for RcvThread ?H (r, v', h') T"
          "zs_receiver (cv_base (cs_conv T)) = Some q'" by blast
      have "stands_for RcvThread S (r, v', h') T" by (rule stands_for_from[OF T(2)]) simp_all
      then show ?thesis using T(1,3) reaches_trans[OF run] Inr Some by auto
    qed
  qed
qed

section \<open>The loops\<close>

text \<open>Where the thread is when the loop has ended, or has been followed for the given rounds.\<close>

fun loop_end :: "bool outcome \<Rightarrow> point" where
  "loop_end (Inr fin) = (if fin then Ended else AtTop)"
| "loop_end (Inl err) = Crashed err"

text \<open>
  What makes \<open>run\<close> the loop of the thread \<open>w\<close>: it looks at \<open>shutdown\<close> before each round, a round is
  simulated by the actions of the thread, and so is what comes after the loop. \<open>part p S\<close> says
  that \<open>p\<close> is the member of the shared object that the thread runs in.
\<close>

locale worker_loop =
  fixes w :: worker and e :: env
    and part :: "'p \<Rightarrow> conv_system \<Rightarrow> bool" and shutdown :: "'p \<Rightarrow> bool"
    and round :: "'p \<times> ConvStack \<times> history \<Rightarrow> bool outcome \<times> 'p \<times> ConvStack \<times> history"
    and close :: "'p \<times> ConvStack \<times> history \<Rightarrow> 'p \<times> ConvStack \<times> history"
    and run :: "nat \<Rightarrow> 'p \<times> ConvStack \<times> history \<Rightarrow> bool outcome \<times> 'p \<times> ConvStack \<times> history"
  assumes run_0: "run 0 st = (Inr False, st)"
    and run_Suc: "run (Suc n) st =
      (if shutdown (fst st) then (Inr True, close st)
       else andThen (round st) (\<lambda>go st. if go then run n st else (Inr True, close st)))"
    and told_law: "part p S \<Longrightarrow> told_to_stop w S = shutdown p"
    and part_law: "part p S \<Longrightarrow> part p (go_to w pt S)"
    and round_law: "\<lbrakk>point_at w S = AtTop; cs_phase S = Alive; cs_lock S = None; \<not> crashed S; same_target v S;
        part p S; \<not> shutdown p; round (p, v, cs_hist S) = (r, p', v', h')\<rbrakk>
      \<Longrightarrow> \<exists>T. reaches w e S T \<and> stands_for w S (r, v', h') T \<and> part p' T"
    and close_law: "\<lbrakk>part p S; same_target v S; close (p, v, cs_hist S) = (p', v', h')\<rbrakk>
      \<Longrightarrow> part p' (close_socket w S) \<and> same_target v' (close_socket w S) \<and> cs_hist (close_socket w S) = h' \<and>
        (\<forall>w'. point_at w' (close_socket w S) = point_at w' S)"
begin

lemma finish_reaches:
  assumes "\<not> crashed S" and "point_at w S = Closing" and "part p S" and "same_target v S"
    and "close (p, v, cs_hist S) = (p', v', h')"
  shows "\<exists>T. reaches w e S T \<and> point_at w T = Ended \<and> (\<forall>w'. w' \<noteq> w \<longrightarrow> point_at w' T = point_at w' S) \<and>
     cs_hist T = h' \<and> part p' T \<and> same_target v' T"
proof -
  let ?T = "go_to w Ended (close_socket w S)"
  have "reaches w e S ?T"
    by (rule reaches_step[where w = w, OF assms(1) _ reaches_refl]) (simp add: worker_move_def assms(2))
  moreover have "same_target v' ?T" using close_law[OF assms(3-5)] by (simp add: same_target_def)
  ultimately show ?thesis
    using close_law[OF assms(3-5)] part_law by (intro exI[where x = ?T]) simp
qed

lemma run_reaches:
  assumes "point_at w S = AtTop" and "cs_phase S = Alive" and "cs_lock S = None" and "\<not> crashed S"
    and "same_target v S" and "part p S" and "run n (p, v, cs_hist S) = (r, p', v', h')"
  shows "\<exists>T. reaches w e S T \<and> point_at w T = loop_end r \<and> (\<forall>w'. w' \<noteq> w \<longrightarrow> point_at w' T = point_at w' S) \<and>
     cs_hist T = h' \<and> part p' T \<and> same_target v' T"
  using assms
proof (induction n arbitrary: S v p)
  case 0
  then show ?case using reaches_refl[of w e S] by (auto simp: run_0)
next
  case (Suc n)
  show ?case
  proof (cases "shutdown p")
    case True
    let ?C = "go_to w Closing S"
    have "reaches w e S ?C"
      by (rule reaches_step[where w = w, OF Suc.prems(4) _ reaches_refl])
        (simp add: worker_move_def Suc.prems(1) told_law[OF Suc.prems(6)] True)
    moreover have "close (p, v, cs_hist ?C) = (p', v', h')" and r: "r = Inr True"
      using Suc.prems(7) True by (simp_all add: run_Suc)
    moreover have "\<not> crashed ?C" using Suc.prems(4) by (rule go_alive(1)) simp
    moreover have "same_target v ?C" using Suc.prems(5) by (simp add: same_target_def)
    ultimately show ?thesis
      using finish_reaches[of ?C p v p' v' h'] part_law[OF Suc.prems(6)] reaches_trans[of w e S ?C] by fastforce
  next
    case False
    obtain r1 p1 v1 h1 where it: "round (p, v, cs_hist S) = (r1, p1, v1, h1)" by (metis surj_pair)
    from round_law[OF Suc.prems(1-6) False it] obtain T where
      T: "reaches w e S T" "stands_for w S (r1, v1, h1) T" "part p1 T" by blast
    then have at: "point_at w T = iteration_end r1" "\<forall>w'. w' \<noteq> w \<longrightarrow> point_at w' T = point_at w' S"
      "cs_phase T = Alive" "cs_lock T = None" "same_target v1 T" "cs_hist T = h1"
      using Suc.prems(2) by (simp_all add: stands_for_def)
    show ?thesis
    proof (cases r1)
      case (Inl err)
      then show ?thesis using Suc.prems(7) False it T at by (auto simp: run_Suc)
    next
      case (Inr go)
      have alive: "\<not> crashed T" by (rule stands_for_alive[OF T(2) Suc.prems(4)]) (simp add: Inr)
      show ?thesis
      proof (cases go)
        case True
        have "run n (p1, v1, cs_hist T) = (r, p', v', h')" "point_at w T = AtTop"
          using Suc.prems(7) False it Inr True at(1,6) by (simp_all add: run_Suc)
        from Suc.IH[OF this(2) at(3,4) alive at(5) T(3) this(1)] at(2) show ?thesis
          using reaches_trans[OF T(1)] by metis
      next
        case stop: False
        have "close (p1, v1, cs_hist T) = (p', v', h')" "r = Inr True" "point_at w T = Closing"
          using Suc.prems(7) False it Inr stop at(1,6) by (simp_all add: run_Suc)
        with finish_reaches[OF alive this(3) T(3) at(5) this(1)] at(2) show ?thesis
          using reaches_trans[OF T(1)] by (metis loop_end.simps(1))
      qed
    qed
  qed
qed

end

lemma close_socket_points [simp]: "point_at w' (close_socket w S) = point_at w' S"
  by (cases w; cases w') (simp_all add: on_sub_def on_rcv_def on_base_def split: prod.split)

interpretation sub_worker: worker_loop SubThread e "\<lambda>s S. sub_part S = s" sub_shutdown
  "sub_iteration e (ConvStack_target e)" sub_close "\<lambda>n. sub_loop n e (ConvStack_target e)" for e
proof (unfold_locales, goal_cases)
  case (5 S v p r p' v' h')
  then show ?case using sub_iteration_reaches[of S v e r p' v' h'] by auto
next
  case (6 p S v p' v' h')
  then show ?case by (auto simp: sub_close_def same_target_def)
qed simp_all

lemma rcv_iteration_same_socket:
  "rcv_iteration e tg (q, t, h) = (r, q', t', h') \<Longrightarrow> rcv_socket q' = rcv_socket q"
  by (auto simp: rcv_iteration_def catch_zmq_def rcv_body_def zmq_defs Let_def
      split: option.splits if_splits list.splits prod.splits sum.splits error.splits)

definition receives_in :: "env \<Rightarrow> Receiver \<Rightarrow> conv_system \<Rightarrow> bool" where
  "receives_in e q S \<longleftrightarrow>
     zs_receiver (cv_base (cs_conv S)) = Some q \<and> (\<forall>h. zmq_frames e h (rcv_socket q) \<noteq> [])"

interpretation rcv_worker: worker_loop RcvThread e "receives_in e" rcv_shutdown
  "rcv_iteration e (ConvStack_target e)" rcv_close "\<lambda>n. rcv_loop n e (ConvStack_target e)" for e
proof (unfold_locales, goal_cases)
  case (3 p S)
  then show ?case by (simp add: receives_in_def)
next
  case (4 p S pt)
  then show ?case by (simp add: receives_in_def)
next
  case (5 S v p r p' v' h')
  have "cs_rcv S = AtTop" using 5(1) by simp
  from rcv_iteration_reaches[OF this 5(2-5) _ 5(7) _ 5(8)] 5(6) obtain T where
    "reaches RcvThread e S T" "stands_for RcvThread S (r, v', h') T" "zs_receiver (cv_base (cs_conv T)) = Some p'"
    by (auto simp: receives_in_def)
  moreover have "\<forall>h. zmq_frames e h (rcv_socket p') \<noteq> []"
    using 5(6) rcv_iteration_same_socket[OF 5(8)] by (simp add: receives_in_def)
  ultimately show ?case unfolding receives_in_def by blast
next
  case (6 p S v p' v' h')
  then show ?case by (auto simp: rcv_close_def same_target_def receives_in_def)
qed simp_all

text \<open>C11: the threads of a converter cut into their actions are \<open>Subscriber::Run\<close> and \<open>Receiver::Run\<close>
  with the converter as their target. For any number of rounds of either loop, whatever the
  socket delivers or throws, there is a run of this thread alone that ends where the loop ends,
  with the same calls made, the same counters, the same publisher and the same conversions; for
  the subscriber an undefined behaviour of the loop is one of the thread, and the receiver's
  socket is taken to deliver messages of at least one part.\<close>

theorem converter_threads_are_loops:
  assumes "cs_phase S = Alive" and "cs_lock S = None" and "\<not> crashed S"
  shows "(cs_sub S = AtTop \<and> sub_loop rounds e (ConvStack_target e) (sub_part S, cs_conv S, cs_hist S) = (r, s, v, h) \<longrightarrow>
     (\<exists>as T. conv_run e S as T \<and> (\<forall>a \<in> set as. by_thread SubThread (Some a)) \<and>
        cs_sub T = loop_end r \<and> cs_rcv T = cs_rcv S \<and> cs_hist T = h \<and> sub_part T = s \<and>
        conv_pub T = zs_publisher (cv_base v) \<and> cv_map (cs_conv T) = cv_map v)) \<and>
     (cs_rcv S = AtTop \<and> zs_receiver (cv_base (cs_conv S)) = Some q0 \<and> (\<forall>h. zmq_frames e h (rcv_socket q0) \<noteq> []) \<and>
       rcv_loop rounds e (ConvStack_target e) (q0, cs_conv S, cs_hist S) = (r, q, v, h) \<longrightarrow>
     (\<exists>as T. conv_run e S as T \<and> (\<forall>a \<in> set as. by_thread RcvThread (Some a)) \<and>
        cs_rcv T = loop_end r \<and> cs_sub T = cs_sub S \<and> cs_hist T = h \<and> zs_receiver (cv_base (cs_conv T)) = Some q \<and>
        conv_pub T = zs_publisher (cv_base v) \<and> cv_map (cs_conv T) = cv_map v))"
proof (intro conjI impI, goal_cases)
  case 1
  then have "point_at SubThread S = AtTop" by simp
  from sub_worker.run_reaches[OF this assms same_target_refl refl conjunct2[OF 1]] obtain T where
    T: "reaches SubThread e S T" "cs_sub T = loop_end r" "cs_rcv T = cs_rcv S" "cs_hist T = h" "sub_part T = s" "same_target v T"
    by (auto dest: spec[where x = RcvThread])
  from T(1) obtain as where "conv_run e S as T" "\<forall>a \<in> set as. by_thread SubThread (Some a)" by (auto simp: reaches_def)
  with T(2-6) show ?case by (intro exI[where x = as] exI[where x = T]) (simp add: same_target_def)
next
  case 2
  then have at: "point_at RcvThread S = AtTop" and part: "receives_in e q0 S"
    and loop: "rcv_loop rounds e (ConvStack_target e) (q0, cs_conv S, cs_hist S) = (r, q, v, h)"
    by (simp_all add: receives_in_def)
  from rcv_worker.run_reaches[OF at assms same_target_refl part loop] obtain T where
    T: "reaches RcvThread e S T" "cs_rcv T = loop_end r" "cs_sub T = cs_sub S" "cs_hist T = h" "receives_in e q T" "same_target v T"
    by (auto dest: spec[where x = SubThread])
  from T(1) obtain as where "conv_run e S as T" "\<forall>a \<in> set as. by_thread RcvThread (Some a)" by (auto simp: reaches_def)
  with T(2-6) show ?case by (intro exI[where x = as] exI[where x = T]) (simp add: same_target_def receives_in_def)
qed

lemma sample_sub_loop:
  "\<exists>as S. play routing_env (service_turns @ sub_turns 1) sample_system = Some (as, S) \<and>
     cs_sub S = AtTop \<and> cs_rcv S = Starting \<and> cs_phase S = Alive \<and> cs_lock S = None \<and>
     (\<exists>s v h. sub_loop 1 routing_env (ConvStack_target routing_env) (sub_part S, cs_conv S, cs_hist S) = (Inr False, s, v, h) \<and>
        sent_on 0 h = [[''out1'', ''x''], [''out2'', ''x'']])"
  by (simp add: sample_simps sub_iteration_def sub_body_def sub_dispatch_def ConvStack_target_def
      ConvStack_onReceivedMessage_def convert_def ZmqStack_Publish_all_def publishMsgs_def sent_on_def List.map_filter_def)

theorem converter_threads_are_loops_witness:
  "\<exists>S as T. conv_run routing_env S as T \<and> cs_sub S = AtTop \<and> cs_sub T = AtTop \<and>
     (\<forall>a \<in> set as. by_thread SubThread (Some a)) \<and> sent_on 0 (cs_hist T) = [[''out1'', ''x''], [''out2'', ''x'']]"
proof -
  obtain S s v h where S: "cs_sub S = AtTop" "cs_rcv S = Starting" "cs_phase S = Alive" "cs_lock S = None"
    and loop: "sub_loop 1 routing_env (ConvStack_target routing_env) (sub_part S, cs_conv S, cs_hist S) = (Inr False, s, v, h)"
    and sent: "sent_on 0 h = [[''out1'', ''x''], [''out2'', ''x'']]"
    using sample_sub_loop by blast
  have "\<not> crashed S" using S(1,2) by simp
  from conjunct1[OF converter_threads_are_loops[OF S(3,4) this]] S(1) loop obtain as T where
    "conv_run routing_env S as T" "\<forall>a \<in> set as. by_thread SubThread (Some a)" "cs_sub T = loop_end (Inr False)" "cs_hist T = h"
    by blast
  with S(1) sent show ?thesis by (intro exI[where x = S] exI[where x = as] exI[where x = T]) simp
qed

end
