(* ===== verification/Proxy.thy ===== *)
theory Proxy
  imports Publisher HealthStatus Config
begin

text \<open>
  \<open>zmq-proxy/Proxy.h\<close> and \<open>zmq-proxy/Proxy.cpp\<close>: the XPUB/XSUB proxy and its control channel, a
  REQ socket over which the steerable proxy of libzmq is asked for statistics or told to
  terminate. \<open>zmq-proxy/ProxyMain.cpp\<close> is in the second half.
\<close>

section \<open>ProxyStats\<close>

record ProxyStats =
  FrontEndRxMsgs :: "64 word"
  FrontEndRxBytes :: "64 word"
  FrontEndTxMsgs :: "64 word"
  FrontEndTxBytes :: "64 word"
  BackEndRxMsgs :: "64 word"
  BackEndRxBytes :: "64 word"
  BackEndTxMsgs :: "64 word"
  BackEndTxBytes :: "64 word"

definition ProxyStats_init :: ProxyStats where
  "ProxyStats_init =
     \<lparr>FrontEndRxMsgs = 0, FrontEndRxBytes = 0, FrontEndTxMsgs = 0, FrontEndTxBytes = 0,
      BackEndRxMsgs = 0, BackEndRxBytes = 0, BackEndTxMsgs = 0, BackEndTxBytes = 0\<rparr>"

text \<open>
  \<open>*msg.data<uint64_t>()\<close>: the first eight bytes in the host's (little-endian) order; a shorter
  message makes it read past the end.
\<close>

fun le_value :: "string \<Rightarrow> nat" where
  "le_value [] = 0"
| "le_value (c # cs) = of_char c + 256 * le_value cs"

definition data_u64 :: "string \<Rightarrow> 64 word outcome" where
  "data_u64 msg =
     (if length msg < 8 then Inl (Undefined ''data<uint64_t>() of a shorter message'')
      else Inr (of_nat (le_value (take 8 msg))))"

section \<open>Proxy\<close>

record Proxy =
  px_xpubEndpoint :: string
  px_xsubEndpoint :: string
  px_ctrlEndpoint :: string
  px_ctrlPub :: nat
  px_joinable :: bool

definition Proxy_new :: "nat \<Rightarrow> string \<Rightarrow> string \<Rightarrow> string \<Rightarrow> Proxy" where
  "Proxy_new sock xpubEndpoint xsubEndpoint ctrlEndpoint =
     \<lparr>px_xpubEndpoint = xpubEndpoint, px_xsubEndpoint = xsubEndpoint, px_ctrlEndpoint = ctrlEndpoint,
      px_ctrlPub = sock, px_joinable = True\<rparr>"

definition Proxy_Stop :: "env \<Rightarrow> Proxy \<Rightarrow> history \<Rightarrow> unit outcome \<times> history" where
  "Proxy_Stop e p h =
     (let (r, h) = send_multipart e (px_ctrlPub p) [''TERMINATE''] h
      in (case r of Inl err \<Rightarrow> Inl err | Inr _ \<Rightarrow> Inr (), h))"

text \<open>
  The destructor: an exception leaving it calls \<open>std::terminate\<close>.
\<close>

definition Proxy_delete :: "env \<Rightarrow> Proxy \<Rightarrow> history \<Rightarrow> unit outcome \<times> Proxy \<times> history" where
  "Proxy_delete e p h =
     (case Proxy_Stop e p h of
        (Inl err, h) \<Rightarrow> (Inl (Terminated ''exception leaves a destructor''), p, h)
      | (Inr _, h) \<Rightarrow> (Inr (), p\<lparr>px_joinable := False\<rparr>, h))"

text \<open>
  \<open>Stats\<close>: the structure passed by reference keeps its values unless the reply has eight parts;
  the parts are stored one by one.
\<close>

definition stats_fields :: "(64 word \<Rightarrow> ProxyStats \<Rightarrow> ProxyStats) list" where
  "stats_fields =
     [\<lambda>v st. st\<lparr>FrontEndRxMsgs := v\<rparr>, \<lambda>v st. st\<lparr>FrontEndRxBytes := v\<rparr>,
      \<lambda>v st. st\<lparr>FrontEndTxMsgs := v\<rparr>, \<lambda>v st. st\<lparr>FrontEndTxBytes := v\<rparr>,
      \<lambda>v st. st\<lparr>BackEndRxMsgs := v\<rparr>, \<lambda>v st. st\<lparr>BackEndRxBytes := v\<rparr>,
      \<lambda>v st. st\<lparr>BackEndTxMsgs := v\<rparr>, \<lambda>v st. st\<lparr>BackEndTxBytes := v\<rparr>]"

definition STATISTICS_COUNT :: nat where "STATISTICS_COUNT = 8"

definition store_stats :: "string list \<Rightarrow> ProxyStats \<Rightarrow> unit outcome \<times> ProxyStats" where
  "store_stats msgs stats =
     for_each (\<lambda>(set_field, msg) stats.
       case data_u64 msg of Inl err \<Rightarrow> (Inl err, stats) | Inr v \<Rightarrow> (Inr (), set_field v stats))
       (zip stats_fields msgs) stats"

definition Proxy_Stats :: "env \<Rightarrow> Proxy \<Rightarrow> ProxyStats \<times> history \<Rightarrow> unit outcome \<times> ProxyStats \<times> history" where
  "Proxy_Stats e p sh =
     (case sh of (stats, h) \<Rightarrow>
      (case send_multipart e (px_ctrlPub p) [''STATISTICS''] h of
         (Inl err, h) \<Rightarrow> (Inl err, stats, h)
       | (Inr _, h) \<Rightarrow>
         (case recv_multipart e (px_ctrlPub p) h of
            (Inl err, h) \<Rightarrow> (Inl err, stats, h)
          | (Inr (res, msgs), h) \<Rightarrow>
            if \<not> res then (Inr (), stats, log_error ''Error receiving statistics'' h)
            else if length msgs = STATISTICS_COUNT then
              (case store_stats msgs stats of (r, stats) \<Rightarrow> (r, stats, h))
            else (Inr (), stats, h))))"

definition Proxy_Health :: "'s \<Rightarrow> int \<times> 's" where
  "Proxy_Health s = (0, s)"

interpretation proxy_health: health_service Proxy_Health "\<lambda>_. True"
  by unfold_locales (simp add: Proxy_Health_def)

definition show_u64 :: "64 word \<Rightarrow> string" where
  "show_u64 w = show_nat (unat w)"

definition Proxy_Status :: "env \<Rightarrow> Proxy \<Rightarrow> history \<Rightarrow> string outcome \<times> history" where
  "Proxy_Status e p h =
     (case Proxy_Stats e p (ProxyStats_init, h) of
        (Inl err, _, h) \<Rightarrow> (Inl err, h)
      | (Inr _, stats, h) \<Rightarrow>
          (Inr (''{ \"frontend-rx-msgs\": '' @ show_u64 (FrontEndRxMsgs stats) @
                '', \"frontend-tx-msgs\": '' @ show_u64 (FrontEndTxMsgs stats) @
                '', \"backend-rx-msgs\": '' @ show_u64 (BackEndRxMsgs stats) @
                '', \"backend-tx-msgs\": '' @ show_u64 (BackEndTxMsgs stats) @ '' }''), h))"

text \<open>
  \<open>Run\<close>, the thread: three sockets numbered from \<open>sock\<close>, each set up in a \<open>try\<close> of its own, then
  the proxy of libzmq, which returns when it is told to terminate.
\<close>

definition try_setup :: "env \<Rightarrow> string \<Rightarrow> call list \<Rightarrow> history \<Rightarrow> history" where
  "try_setup e text calls h =
     snd (catch_zmq (for_each (zmq_call e) calls h) (\<lambda>n h. (Inr (), log_error (text @ zmq_strerror e n) h)))"

definition WELCOME_MSG :: string where "WELCOME_MSG = [CHR 0xF3, CHR 0x00, CHR 0x00]"

definition Proxy_Run :: "env \<Rightarrow> nat \<Rightarrow> Proxy \<Rightarrow> history \<Rightarrow> unit outcome \<times> history" where
  "Proxy_Run e sock p h =
     (let xsub = sock; xpub = sock + 1; ctrl = sock + 2;
          h = log_info (''XPUB '' @ px_xpubEndpoint p @ '' XSUB '' @ px_xsubEndpoint p @ '' Ctrl '' @ px_ctrlEndpoint p) h;
          h = try_setup e ''Exception setting up xsub socket: '' [ZmqBind xsub (px_xsubEndpoint p)] h;
          h = try_setup e ''Exception setting up xpub socket: ''
                [ZmqBind xpub (px_xpubEndpoint p), ZmqSet xpub (XpubVerbose 1), ZmqSet xpub (XpubWelcome WELCOME_MSG)] h;
          h = try_setup e ''Exception setting up ctrl pub socket: '' [ZmqBind (px_ctrlPub p) (px_ctrlEndpoint p)] h;
          h = try_setup e ''Exception setting up ctrl socket: '' [ZmqConnect ctrl (px_ctrlEndpoint p)] h
      in andThen (zmq_call e (ZmqProxy xsub xpub ctrl) h) (\<lambda>_ h. (Inr (), log_info ''Proxy exiting'' h)))"

section \<open>ProxyMain\<close>

record ProxyConfig =
  pc_logLevel :: int
  pc_configFile :: string
  pc_xpubPort :: "16 word"
  pc_xsubPort :: "16 word"
  pc_healthStatusPort :: "16 word"
  pc_metricsPort :: "16 word"
  pc_ctrlEndpoint :: string
  pc_threads :: int
  pc_statisticsInterval :: int

definition proxy_defaults :: ProxyConfig where
  "proxy_defaults =
     \<lparr>pc_logLevel = level_trace, pc_configFile = ''zmq-proxy.yaml'', pc_xpubPort = 9200, pc_xsubPort = 9210,
      pc_healthStatusPort = 6000, pc_metricsPort = 6001, pc_ctrlEndpoint = ''inproc://ctrl-endpoint'',
      pc_threads = 2, pc_statisticsInterval = 60\<rparr>"

definition proxy_option :: "char \<Rightarrow> ProxyConfig handler" where
  "proxy_option c =
     (if c = CHR ''f'' then set_text (\<lambda>v cfg. cfg\<lparr>pc_configFile := v\<rparr>)
      else if c = CHR ''l'' then set_stoi (\<lambda>v cfg. cfg\<lparr>pc_logLevel := v\<rparr>)
      else if c = CHR ''p'' then set_stoi (\<lambda>v cfg. cfg\<lparr>pc_xpubPort := word_of_int v\<rparr>)
      else if c = CHR ''s'' then set_stoi (\<lambda>v cfg. cfg\<lparr>pc_xsubPort := word_of_int v\<rparr>)
      else if c = CHR ''c'' then set_text (\<lambda>v cfg. cfg\<lparr>pc_ctrlEndpoint := v\<rparr>)
      else if c = CHR ''t'' then set_stoi (\<lambda>v cfg. cfg\<lparr>pc_threads := v\<rparr>)
      else if c = CHR ''i'' then set_stoi (\<lambda>v cfg. cfg\<lparr>pc_statisticsInterval := v\<rparr>)
      else if c = CHR ''h'' then set_stoi (\<lambda>v cfg. cfg\<lparr>pc_healthStatusPort := word_of_int v\<rparr>)
      else if c = CHR ''m'' then set_stoi (\<lambda>v cfg. cfg\<lparr>pc_metricsPort := word_of_int v\<rparr>)
      else usage_exit)"

definition proxy_keys ::
  "'n yaml_lib \<Rightarrow> (string \<Rightarrow> 'n option) \<Rightarrow> (ProxyConfig \<Rightarrow> unit outcome \<times> ProxyConfig) list" where
  "proxy_keys yl y =
     [yaml_set y ''log-level'' (yl_int yl) (\<lambda>v cfg. cfg\<lparr>pc_logLevel := v\<rparr>),
      yaml_set y ''xpub-port'' (yl_uint16 yl) (\<lambda>v cfg. cfg\<lparr>pc_xpubPort := v\<rparr>),
      yaml_set y ''xsub-port'' (yl_uint16 yl) (\<lambda>v cfg. cfg\<lparr>pc_xsubPort := v\<rparr>),
      yaml_set y ''health-port'' (yl_uint16 yl) (\<lambda>v cfg. cfg\<lparr>pc_healthStatusPort := v\<rparr>),
      yaml_set y ''metrics-port'' (yl_uint16 yl) (\<lambda>v cfg. cfg\<lparr>pc_metricsPort := v\<rparr>),
      yaml_set y ''ctrl-endpoint'' (yl_string yl) (\<lambda>v cfg. cfg\<lparr>pc_ctrlEndpoint := v\<rparr>),
      yaml_set y ''threads'' (yl_int yl) (\<lambda>v cfg. cfg\<lparr>pc_threads := v\<rparr>)]"

text \<open>
  The eight gauges, each as the arguments of its \<open>Increment\<close> calls before their conversion to
  \<open>double\<close>, in the order of the statements.
\<close>

definition gauge_reads :: "(ProxyStats \<Rightarrow> 64 word) list" where
  "gauge_reads =
     [FrontEndRxMsgs, FrontEndTxMsgs, BackEndRxMsgs, BackEndTxMsgs,
      FrontEndRxBytes, FrontEndTxBytes, BackEndRxBytes, BackEndTxBytes]"

definition increments :: "ProxyStats \<Rightarrow> ProxyStats \<Rightarrow> 64 word list" where
  "increments stats lastStats = map (\<lambda>get. get stats - get lastStats) gauge_reads"

text \<open>
  The statistics line: the value printed for \<open>BeRxBytes\<close> is that of \<open>BackEndRxMsgs\<close>.
\<close>

definition stats_line :: "ProxyStats \<Rightarrow> string" where
  "stats_line stats =
     ''Statistics: FeRxMsgs '' @ show_u64 (FrontEndRxMsgs stats) @ '' FeRxBytes '' @ show_u64 (FrontEndRxBytes stats) @
     '' FeTxMsgs '' @ show_u64 (FrontEndTxMsgs stats) @ '' FeTxBytes '' @ show_u64 (FrontEndTxBytes stats) @
     '' BeRxMsgs '' @ show_u64 (BackEndRxMsgs stats) @ '' BeRxBytes '' @ show_u64 (BackEndRxMsgs stats) @
     '' BeTxMsgs '' @ show_u64 (BackEndTxMsgs stats) @ '' BeTxBytes '' @ show_u64 (BackEndTxBytes stats)"

text \<open>
  One second of the main loop. \<open>lastStats\<close> is declared inside the loop and so is fresh and zero
  each time; the assignment to it at the end is lost. The state is \<open>count\<close> (an \<open>int\<close>), and the
  increments made so far.
\<close>

definition proxy_second ::
  "env \<Rightarrow> Proxy \<Rightarrow> int \<Rightarrow> int \<times> 64 word list list \<times> history \<Rightarrow> unit outcome \<times> int \<times> 64 word list list \<times> history" where
  "proxy_second e p statisticsInterval st =
     (case st of (count, gauges, h) \<Rightarrow>
      let h = sleep_for 1000 h;
          lastStats = ProxyStats_init in
      (case Proxy_Stats e p (ProxyStats_init, h) of
         (Inl err, _, h) \<Rightarrow> (Inl err, count, gauges, h)
       | (Inr _, stats, h) \<Rightarrow>
         if statisticsInterval = 0 then (Inl (Undefined ''division by zero''), count, gauges, h)
         else
         let h = (if count mod statisticsInterval = 0 then log_info (stats_line stats) h else h) in
         if count = 2 ^ 31 - 1 then (Inl (Undefined ''signed overflow''), count, gauges, h)
         else (Inr (), count + 1, gauges @ [increments stats lastStats], h)))"

text \<open>The main loop for at most \<open>fuel\<close> seconds: \<open>True\<close> when a signal has cleared \<open>running\<close>.\<close>

fun proxy_loop ::
  "nat \<Rightarrow> env \<Rightarrow> Proxy \<Rightarrow> int \<Rightarrow> int \<times> 64 word list list \<times> history \<Rightarrow> bool outcome \<times> int \<times> 64 word list list \<times> history" where
  "proxy_loop 0 e p i st = (Inr False, st)"
| "proxy_loop (Suc fuel) e p i st =
     (if \<not> running_flag e (snd (snd st)) then (Inr True, st)
      else andThen (proxy_second e p i st) (\<lambda>_. proxy_loop fuel e p i))"

text \<open>
  \<open>main\<close>: the exposer, the proxy with its thread, the health server, the loop; then the health
  server and the proxy are destroyed.
\<close>

definition proxy_main ::
  "nat \<Rightarrow> env \<Rightarrow> 'n yaml_lib \<Rightarrow> (string \<Rightarrow> string option) \<Rightarrow> (char \<times> string) list \<Rightarrow> history
     \<Rightarrow> bool outcome \<times> history" where
  "proxy_main fuel e yl files opts h =
     (case parse_options proxy_option opts proxy_defaults of
        (Inl err, _) \<Rightarrow> (Inl err, h)
      | (Inr _, cfg) \<Rightarrow>
          let (cfg, h) = read_config yl (proxy_keys yl) (files (pc_configFile cfg)) (cfg, h);
              h = log_info (''XPUB Port '' @ show_nat (unat (pc_xpubPort cfg)) @ '' XSUB Port '' @
                    show_nat (unat (pc_xsubPort cfg)) @ '' Threads '' @ show_int (pc_threads cfg)) h;
              (started, h) = Exposer_new e (pc_metricsPort cfg) h
          in (case started of
                Inl err \<Rightarrow> (Inl err, h)
              | Inr _ \<Rightarrow>
                  let h = RegisterCollectable h;
                      p = Proxy_new 0 (''tcp://*:'' @ show_nat (unat (pc_xpubPort cfg)))
                            (''tcp://*:'' @ show_nat (unat (pc_xsubPort cfg))) (pc_ctrlEndpoint cfg);
                      (hs, h) = HealthStatus_new (pc_healthStatusPort cfg) h
                  in (case proxy_loop fuel e p (pc_statisticsInterval cfg) (0, [], h) of
                        (Inr True, _, _, h) \<Rightarrow>
                          let (_, h) = HealthStatus_delete hs h
                          in (case Proxy_delete e p h of
                                (Inl err, _, h) \<Rightarrow> (Inl err, h)
                              | (Inr _, _, h) \<Rightarrow> (Inr True, h))
                      | (r, _, _, h) \<Rightarrow> (r, h))))"

section \<open>Properties\<close>

text \<open>The bytes of a counter in the reply of libzmq.\<close>

fun le_bytes :: "nat \<Rightarrow> nat \<Rightarrow> string" where
  "le_bytes 0 n = []"
| "le_bytes (Suc k) n = char_of (n mod 256) # le_bytes k (n div 256)"

definition u64_bytes :: "64 word \<Rightarrow> string" where
  "u64_bytes w = le_bytes 8 (unat w)"

lemma length_le_bytes [simp]: "length (le_bytes k n) = k"
  by (induction k arbitrary: n) simp_all

lemma le_value_bytes: "n < 256 ^ k \<Longrightarrow> le_value (le_bytes k n) = n"
proof (induction k arbitrary: n)
  case (Suc k)
  then have "n div 256 < 256 ^ k" by (simp add: less_mult_imp_div_less mult.commute)
  from Suc.IH[OF this] show ?case by (simp add: of_char_mod_256)
qed simp

lemma data_u64_bytes [simp]: "data_u64 (u64_bytes w) = Inr w"
proof -
  have "unat w < 2 ^ LENGTH(64)" by (rule unsigned_less)
  then have "unat w < 256 ^ 8" by simp
  then have "le_value (u64_bytes w) = unat w" unfolding u64_bytes_def by (rule le_value_bytes)
  then show ?thesis by (simp add: data_u64_def u64_bytes_def)
qed

text \<open>C31: the reply of the proxy is read back exactly. If the eight parts of the reply are the
  little-endian bytes of eight counters, \<open>Stats\<close> stores these counters in their fields, in the
  order of libzmq's reply; a reply of any other number of parts, or none, leaves the structure as
  it was.\<close>

theorem stats_reads_reply:
  assumes "Proxy_Stats e p (stats, h) = (Inr (), stats', h')"
    and "h1 = h @ [ZmqSend (px_ctrlPub p) [''STATISTICS'']]"
  shows "(zmq_received e h1 (px_ctrlPub p) \<and> zmq_frames e h1 (px_ctrlPub p) = map u64_bytes [a, b, c, d, i, j, k, l] \<longrightarrow>
        stats' = \<lparr>FrontEndRxMsgs = a, FrontEndRxBytes = b, FrontEndTxMsgs = c, FrontEndTxBytes = d,
                  BackEndRxMsgs = i, BackEndRxBytes = j, BackEndTxMsgs = k, BackEndTxBytes = l\<rparr>) \<and>
     (\<not> zmq_received e h1 (px_ctrlPub p) \<or> length (zmq_frames e h1 (px_ctrlPub p)) \<noteq> 8 \<longrightarrow> stats' = stats)"
proof -
  have stored: "store_stats (map u64_bytes [a, b, c, d, i, j, k, l]) stats =
      (Inr (), \<lparr>FrontEndRxMsgs = a, FrontEndRxBytes = b, FrontEndTxMsgs = c, FrontEndTxBytes = d,
            BackEndRxMsgs = i, BackEndRxBytes = j, BackEndTxMsgs = k, BackEndTxBytes = l\<rparr>)"
    by (simp add: store_stats_def stats_fields_def)
  show ?thesis
    using assms stored
    by (auto simp: Proxy_Stats_def zmq_defs STATISTICS_COUNT_def split: option.splits if_splits)
qed

definition reply_env :: "64 word list \<Rightarrow> env" where
  "reply_env vs = quiet_env\<lparr>zmq_frames := (\<lambda>_ _. map u64_bytes vs)\<rparr>"

definition sample_proxy :: Proxy where
  "sample_proxy = Proxy_new 0 ''tcp://*:9200'' ''tcp://*:9210'' ''inproc://ctrl-endpoint''"

lemma sample_stats:
  "\<exists>stats'. Proxy_Stats (reply_env [1, 2, 3, 4, 5, 6, 7, 8]) sample_proxy (ProxyStats_init, h) =
     (Inr (), stats', h @ [ZmqSend 0 [''STATISTICS''], ZmqRecv 0])"
  by (simp add: Proxy_Stats_def zmq_defs reply_env_def quiet_env_def sample_proxy_def Proxy_new_def STATISTICS_COUNT_def
      store_stats_def stats_fields_def)

theorem stats_reads_reply_witness:
  "\<exists>stats' h'. Proxy_Stats (reply_env [1, 2, 3, 4, 5, 6, 7, 8]) sample_proxy (ProxyStats_init, []) = (Inr (), stats', h') \<and>
     FrontEndTxMsgs stats' = 3 \<and> BackEndTxBytes stats' = 8"
proof -
  obtain stats' where run: "Proxy_Stats (reply_env [1, 2, 3, 4, 5, 6, 7, 8]) sample_proxy (ProxyStats_init, []) =
     (Inr (), stats', [] @ [ZmqSend 0 [''STATISTICS''], ZmqRecv 0])" using sample_stats by blast
  show ?thesis
    using stats_reads_reply[OF run refl, of 1 2 3 4 5 6 7 8] run by (simp add: reply_env_def quiet_env_def)
qed

text \<open>The requests and replies on a control socket.\<close>

definition ctrl_calls :: "nat \<Rightarrow> history \<Rightarrow> call list" where
  "ctrl_calls sock h = filter (\<lambda>c. (\<exists>parts. c = ZmqSend sock parts) \<or> c = ZmqRecv sock) h"

lemma ctrl_calls_append [simp]: "ctrl_calls sock (h @ h') = ctrl_calls sock h @ ctrl_calls sock h'"
  by (simp add: ctrl_calls_def)

lemma ctrl_calls_simps [simp]:
  "ctrl_calls sock [] = []"
  "ctrl_calls sock (ZmqSend sock parts # h) = ZmqSend sock parts # ctrl_calls sock h"
  "ctrl_calls sock (ZmqRecv sock # h) = ZmqRecv sock # ctrl_calls sock h"
  "ctrl_calls sock (Log l m # h) = ctrl_calls sock h"
  "ctrl_calls sock (Sleep ms # h) = ctrl_calls sock h"
  by (simp_all add: ctrl_calls_def)

lemma Proxy_Stats_calls:
  assumes "Proxy_Stats e p (stats, h) = (Inr (), stats', h')"
  shows "ctrl_calls (px_ctrlPub p) h' =
     ctrl_calls (px_ctrlPub p) h @ [ZmqSend (px_ctrlPub p) [''STATISTICS''], ZmqRecv (px_ctrlPub p)]"
  using assms by (auto simp: Proxy_Stats_def zmq_defs split: option.splits if_splits prod.splits)

lemma proxy_second_ok:
  assumes "proxy_second e p i (count, gauges, h) = (Inr (), count', gauges', h')"
  shows "ctrl_calls (px_ctrlPub p) h' =
      ctrl_calls (px_ctrlPub p) h @ [ZmqSend (px_ctrlPub p) [''STATISTICS''], ZmqRecv (px_ctrlPub p)]"
    and "count' = count + 1" and "i \<noteq> 0"
    and "\<exists>stats h1. Proxy_Stats e p (ProxyStats_init, sleep_for 1000 h) = (Inr (), stats, h1) \<and>
      gauges' = gauges @ [increments stats ProxyStats_init]"
proof -
  from assms obtain stats h1 where stats: "Proxy_Stats e p (ProxyStats_init, sleep_for 1000 h) = (Inr (), stats, h1)"
    and rest: "count' = count + 1" "i \<noteq> 0" "gauges' = gauges @ [increments stats ProxyStats_init]"
    "h' = (if count mod i = 0 then log_info (stats_line stats) h1 else h1)"
    by (auto simp: proxy_second_def Let_def split: sum.splits prod.splits if_splits)
  show "ctrl_calls (px_ctrlPub p) h' =
      ctrl_calls (px_ctrlPub p) h @ [ZmqSend (px_ctrlPub p) [''STATISTICS''], ZmqRecv (px_ctrlPub p)]"
    using Proxy_Stats_calls[OF stats] rest(4) by (auto simp: log_info_def sleep_for_def)
  show "count' = count + 1" "i \<noteq> 0" by (rule rest)+
  show "\<exists>stats h1. Proxy_Stats e p (ProxyStats_init, sleep_for 1000 h) = (Inr (), stats, h1) \<and>
      gauges' = gauges @ [increments stats ProxyStats_init]" using stats rest(3) by blast
qed

lemma loop_calls:
  assumes "proxy_loop fuel e p i (count, gauges, h) = (Inr fin, count', gauges', h')"
  shows "\<exists>n. count' = count + int n \<and> (\<not> fin \<longrightarrow> n = fuel) \<and>
     ctrl_calls (px_ctrlPub p) h' = ctrl_calls (px_ctrlPub p) h @
       concat (replicate n [ZmqSend (px_ctrlPub p) [''STATISTICS''], ZmqRecv (px_ctrlPub p)])"
  using assms
proof (induction fuel arbitrary: count gauges h)
  case 0
  then show ?case by auto
next
  case (Suc fuel)
  show ?case
  proof (cases "running_flag e h")
    case True
    then obtain c1 g1 h1 where step: "proxy_second e p i (count, gauges, h) = (Inr (), c1, g1, h1)"
      and rest: "proxy_loop fuel e p i (c1, g1, h1) = (Inr fin, count', gauges', h')"
      using Suc.prems by (auto simp: andThen_ok_iff)
    obtain n where n: "count' = c1 + int n" "\<not> fin \<longrightarrow> n = fuel"
      "ctrl_calls (px_ctrlPub p) h' = ctrl_calls (px_ctrlPub p) h1 @
         concat (replicate n [ZmqSend (px_ctrlPub p) [''STATISTICS''], ZmqRecv (px_ctrlPub p)])"
      using Suc.IH[OF rest] by blast
    show ?thesis using n proxy_second_ok(1,2)[OF step] by (intro exI[of _ "Suc n"]) auto
  qed (use Suc.prems in \<open>auto intro!: exI[of _ 0]\<close>)
qed

text \<open>The main loop keeps the discipline of the REQ socket: each second that ends without an
  exception makes exactly one request and takes exactly one reply, in this order, so the
  control channel is never asked twice in a row, and it is in its sending state again whenever
  a signal can end the loop; a loop that has not ended has used all its seconds.\<close>

theorem control_channel_alternates:
  assumes "proxy_loop fuel e p i (count, gauges, h) = (Inr fin, count', gauges', h')"
  shows "\<exists>n. count' = count + int n \<and> (\<not> fin \<longrightarrow> n = fuel) \<and>
     ctrl_calls (px_ctrlPub p) h' = ctrl_calls (px_ctrlPub p) h @
       concat (replicate n [ZmqSend (px_ctrlPub p) [''STATISTICS''], ZmqRecv (px_ctrlPub p)])"
  by (rule loop_calls[OF assms])

lemma sample_loop:
  "0 \<le> c \<Longrightarrow> c + int n < 2 ^ 31 \<Longrightarrow>
     \<exists>g' h'. proxy_loop n (reply_env [1, 2, 3, 4, 5, 6, 7, 8]) sample_proxy 60 (c, g, h) = (Inr False, c + int n, g', h')"
proof (induction n arbitrary: c g h)
  case (Suc n)
  obtain stats' where "Proxy_Stats (reply_env [1, 2, 3, 4, 5, 6, 7, 8]) sample_proxy (ProxyStats_init, sleep_for 1000 h) =
     (Inr (), stats', sleep_for 1000 h @ [ZmqSend 0 [''STATISTICS''], ZmqRecv 0])" using sample_stats by blast
  then obtain g1 h1 where "proxy_second (reply_env [1, 2, 3, 4, 5, 6, 7, 8]) sample_proxy 60 (c, g, h) = (Inr (), c + 1, g1, h1)"
    using Suc.prems by (auto simp: proxy_second_def Let_def)
  moreover have "running_flag (reply_env [1, 2, 3, 4, 5, 6, 7, 8]) h" by (simp add: reply_env_def quiet_env_def)
  moreover have count: "c + int (Suc n) = c + 1 + int n" by simp
  ultimately show ?case unfolding count using Suc.IH[of "c + 1" g1 h1] Suc.prems by simp
qed simp

theorem control_channel_alternates_witness:
  "\<exists>c g h. proxy_loop 2 (reply_env [1, 2, 3, 4, 5, 6, 7, 8]) sample_proxy 60 (0, [], []) = (Inr False, c, g, h) \<and>
     ctrl_calls 0 h = [ZmqSend 0 [''STATISTICS''], ZmqRecv 0, ZmqSend 0 [''STATISTICS''], ZmqRecv 0]"
proof -
  obtain g h where run: "proxy_loop 2 (reply_env [1, 2, 3, 4, 5, 6, 7, 8]) sample_proxy 60 (0, [], []) = (Inr False, 2, g, h)"
    using sample_loop[of 0 2 "[]" "[]"] by auto
  have "px_ctrlPub sample_proxy = 0" by (simp add: sample_proxy_def Proxy_new_def)
  with control_channel_alternates[OF run] run show ?thesis by (auto simp: numeral_2_eq_2)
qed

text \<open>The gauges grow without traffic. \<open>lastStats\<close> is created anew in every iteration, so
  each second adds the whole counters, not what they have gained: while the counters stand
  still at \<open>stats\<close>, every second increments every gauge by its full value again.\<close>

theorem gauges_add_totals_every_second:
  assumes "proxy_loop fuel e p i (count, gauges, h) = (Inr fin, count', gauges', h')"
    and "\<forall>h r h1. Proxy_Stats e p (ProxyStats_init, h) = (Inr (), r, h1) \<longrightarrow> r = stats"
  shows "gauges' = gauges @ replicate (nat (count' - count)) (map (\<lambda>get. get stats) gauge_reads) \<and> count \<le> count'"
  using assms(1)
proof (induction fuel arbitrary: count gauges h)
  case 0
  then show ?case by simp
next
  case (Suc fuel)
  show ?case
  proof (cases "running_flag e h")
    case True
    then obtain c1 g1 h1 where step: "proxy_second e p i (count, gauges, h) = (Inr (), c1, g1, h1)"
      and rest: "proxy_loop fuel e p i (c1, g1, h1) = (Inr fin, count', gauges', h')"
      using Suc.prems by (auto simp: andThen_ok_iff)
    have "g1 = gauges @ [map (\<lambda>get. get stats) gauge_reads]"
      using proxy_second_ok(4)[OF step] assms(2)
      by (auto simp: increments_def gauge_reads_def ProxyStats_init_def)
    moreover have "c1 = count + 1" by (rule proxy_second_ok(2)[OF step])
    moreover note Suc.IH[OF rest]
    ultimately have "nat (count' - count) = Suc (nat (count' - c1)) \<and> count \<le> count'" by auto
    with Suc.IH[OF rest] \<open>g1 = _\<close> show ?thesis by simp
  qed (use Suc.prems in auto)
qed

theorem gauges_add_totals_every_second_witness:
  "\<exists>c h. proxy_loop 2 (reply_env [1, 2, 3, 4, 5, 6, 7, 8]) sample_proxy 60 (0, [], []) =
     (Inr False, c, [[1, 3, 5, 7, 2, 4, 6, 8], [1, 3, 5, 7, 2, 4, 6, 8]], h)"
proof -
  let ?e = "reply_env [1, 2, 3, 4, 5, 6, 7, 8]"
  let ?stats = "\<lparr>FrontEndRxMsgs = 1, FrontEndRxBytes = 2, FrontEndTxMsgs = 3, FrontEndTxBytes = 4,
            BackEndRxMsgs = 5, BackEndRxBytes = 6, BackEndTxMsgs = 7, BackEndTxBytes = 8\<rparr>"
  obtain g h where run: "proxy_loop 2 ?e sample_proxy 60 (0, [], []) = (Inr False, 2, g, h)"
    using sample_loop[of 0 2 "[]" "[]"] by auto
  have const: "\<forall>h r h1. Proxy_Stats ?e sample_proxy (ProxyStats_init, h) = (Inr (), r, h1) \<longrightarrow> r = ?stats"
    by (simp add: Proxy_Stats_def zmq_defs reply_env_def quiet_env_def STATISTICS_COUNT_def store_stats_def stats_fields_def)
  have "g = [[1, 3, 5, 7, 2, 4, 6, 8], [1, 3, 5, 7, 2, 4, 6, 8]]"
    using gauges_add_totals_every_second[OF run const] by (simp add: gauge_reads_def numeral_2_eq_2)
  with run show ?thesis by blast
qed

text \<open>
  A REQ socket that has sent a request must receive the reply before it sends again; libzmq
  refuses with \<open>EFSM\<close>.
\<close>

definition EFSM :: int where "EFSM = 156384763"

definition awaiting_reply :: "nat \<Rightarrow> history \<Rightarrow> bool" where
  "awaiting_reply sock h \<longleftrightarrow> ctrl_calls sock h \<noteq> [] \<and> last (ctrl_calls sock h) \<noteq> ZmqRecv sock"

definition req_socket :: "env \<Rightarrow> nat \<Rightarrow> bool" where
  "req_socket e sock \<longleftrightarrow>
     (\<forall>h parts. awaiting_reply sock h \<longrightarrow> zmq_throws e h (ZmqSend sock parts) = Some EFSM)"

text \<open>\<open>Stop\<close> must not be called by the owner. It sends its request and leaves without the
  reply, so on a REQ socket the destructor's own \<open>Stop\<close> throws; the exception leaves the
  destructor and ends the process.\<close>

theorem stop_twice_terminates:
  assumes "req_socket e (px_ctrlPub p)" and "Proxy_Stop e p h = (Inr (), h1)"
  shows "fst (Proxy_delete e p h1) = Inl (Terminated ''exception leaves a destructor'')"
proof -
  have "h1 = h @ [ZmqSend (px_ctrlPub p) [''TERMINATE'']]" using assms(2) by (simp add: Proxy_Stop_def zmq_defs)
  then have "awaiting_reply (px_ctrlPub p) h1" by (simp add: awaiting_reply_def)
  then have "zmq_throws e h1 (ZmqSend (px_ctrlPub p) [''TERMINATE'']) = Some EFSM"
    using assms(1) by (simp add: req_socket_def)
  then show ?thesis by (simp add: Proxy_delete_def Proxy_Stop_def zmq_defs)
qed

definition req_env :: env where
  "req_env = quiet_env\<lparr>zmq_throws := (\<lambda>h c. case c of
     ZmqSend k _ \<Rightarrow> (if awaiting_reply k h then Some EFSM else None) | _ \<Rightarrow> None)\<rparr>"

theorem stop_twice_terminates_witness:
  "\<exists>h1. Proxy_Stop req_env sample_proxy [] = (Inr (), h1) \<and>
     fst (Proxy_delete req_env sample_proxy h1) = Inl (Terminated ''exception leaves a destructor'')"
proof -
  have req: "req_socket req_env (px_ctrlPub sample_proxy)" by (simp add: req_socket_def req_env_def)
  have "\<exists>h1. Proxy_Stop req_env sample_proxy [] = (Inr (), h1)"
    by (simp add: Proxy_Stop_def zmq_defs req_env_def awaiting_reply_def)
  with stop_twice_terminates[OF req] show ?thesis by blast
qed

section \<open>The end of the service\<close>

lemma awaiting_after_pairs:
  assumes "ctrl_calls k h' = ctrl_calls k h @ concat (replicate n [ZmqSend k [''STATISTICS''], ZmqRecv k])"
    and "\<not> awaiting_reply k h"
  shows "\<not> awaiting_reply k h'"
proof (cases n)
  case 0
  with assms show ?thesis by (simp add: awaiting_reply_def)
next
  case (Suc m)
  have "concat (replicate (Suc m) [ZmqSend k [''STATISTICS''], ZmqRecv k]) =
      concat (replicate m [ZmqSend k [''STATISTICS''], ZmqRecv k]) @ [ZmqSend k [''STATISTICS''], ZmqRecv k]"
    by (induction m) auto
  then have "last (ctrl_calls k h') = ZmqRecv k" using assms(1) Suc by simp
  then show ?thesis by (simp add: awaiting_reply_def)
qed

lemma awaiting_reply_silent: "ctrl_calls k h = [] \<Longrightarrow> \<not> awaiting_reply k h"
  by (simp add: awaiting_reply_def)

lemma Proxy_Stats_error:
  assumes "Proxy_Stats e p (stats, h) = (Inl err, stats', h')"
  shows "err \<noteq> Terminated what"
proof -
  have "err' \<noteq> Terminated what" if "store_stats msgs stats = (Inl err', st)" for msgs err' st
    using for_each_error[OF that[unfolded store_stats_def]] by (auto simp: data_u64_def split: if_splits)
  then show ?thesis using assms
    by (auto simp: Proxy_Stats_def zmq_defs split: option.splits if_splits prod.splits)
qed

lemma proxy_loop_error:
  "proxy_loop fuel e p i st = (Inl err, st') \<Longrightarrow> err \<noteq> Terminated what"
proof (induction fuel arbitrary: st)
  case (Suc fuel)
  have "err \<noteq> Terminated what" if "proxy_second e p i (c, g, h) = (Inl err, st')" for c g h
    using that Proxy_Stats_error[of e p ProxyStats_init _ err]
    by (auto simp: proxy_second_def Let_def split: sum.splits prod.splits if_splits)
  with Suc show ?case by (cases st) (auto simp: andThen_error_iff split: if_splits)
qed simp

lemma read_config_calls:
  "read_config yl keys file (cfg, h) = (cfg', h') \<Longrightarrow> ctrl_calls k h' = ctrl_calls k h"
  by (auto simp: read_config_def log_error_def split: option.splits sum.splits prod.splits)

lemma proxy_delete_orderly:
  assumes "\<forall>h parts. zmq_throws e h (ZmqSend (px_ctrlPub p) parts) \<noteq> None \<longrightarrow> awaiting_reply (px_ctrlPub p) h"
    and "\<not> awaiting_reply (px_ctrlPub p) h"
  shows "fst (Proxy_delete e p h) = Inr ()"
proof -
  have "zmq_throws e h (ZmqSend (px_ctrlPub p) [''TERMINATE'']) = None" using assms by blast
  then show ?thesis by (simp add: Proxy_delete_def Proxy_Stop_def zmq_defs)
qed

lemma proxy_prefix_quiet:
  assumes "read_config yl keys file (cfg, []) = (cfg1, h1)" and "Exposer_new e port (log_info m h1) = (started, h3)"
    and "HealthStatus_new hport (RegisterCollectable h3) = (hs, h4)"
  shows "ctrl_calls k h4 = []"
  using read_config_calls[OF assms(1), of k] assms(2,3)
  by (auto simp: log_info_def Exposer_new_def HealthStatus_new_def RegisterCollectable_def Let_def ctrl_calls_def)

lemma stop_after_loop:
  assumes "\<forall>h parts. zmq_throws e h (ZmqSend (px_ctrlPub p) parts) \<noteq> None \<longrightarrow> awaiting_reply (px_ctrlPub p) h"
    and "proxy_loop fuel e p i (c, g, h) = (Inr fin, c', g', h')" and "ctrl_calls (px_ctrlPub p) h = []"
  shows "fst (Proxy_delete e p (h' @ [HttpStop])) = Inr ()"
proof -
  obtain n where "ctrl_calls (px_ctrlPub p) h' = ctrl_calls (px_ctrlPub p) h @
      concat (replicate n [ZmqSend (px_ctrlPub p) [''STATISTICS''], ZmqRecv (px_ctrlPub p)])"
    using loop_calls[OF assms(2)] by auto
  then have "\<not> awaiting_reply (px_ctrlPub p) h'"
    using awaiting_after_pairs awaiting_reply_silent[OF assms(3)] by blast
  then have "\<not> awaiting_reply (px_ctrlPub p) (h' @ [HttpStop])"
    by (simp add: awaiting_reply_def ctrl_calls_def)
  then show ?thesis using proxy_delete_orderly[OF assms(1)] by blast
qed

text \<open>How the proxy's main ends once it has read its options: with the exposer, with the loop, or with \<open>Stop\<close>.\<close>

lemma proxy_main_ends:
  assumes "parse_options proxy_option opts proxy_defaults = (Inr (), cfg)"
  obtains err port h0 h' where "Exposer_new e port h0 = (Inl err, h')" and "fst (proxy_main fuel e yl files opts []) = Inl err"
  | p interval h0 r cnt g h where "px_ctrlPub p = 0" and "ctrl_calls 0 h0 = []"
      and "proxy_loop fuel e p interval (0, [], h0) = (r, cnt, g, h)"
      and "fst (proxy_main fuel e yl files opts []) =
        (if r = Inr True then (case fst (Proxy_delete e p (h @ [HttpStop])) of Inl err \<Rightarrow> Inl err | Inr _ \<Rightarrow> Inr True) else r)"
proof -
  obtain cfg1 h1 where conf: "read_config yl (proxy_keys yl) (files (pc_configFile cfg)) (cfg, []) = (cfg1, h1)"
    by (metis surj_pair)
  define h2 where "h2 = log_info (''XPUB Port '' @ show_nat (unat (pc_xpubPort cfg1)) @ '' XSUB Port '' @
                    show_nat (unat (pc_xsubPort cfg1)) @ '' Threads '' @ show_int (pc_threads cfg1)) h1"
  define p where "p = Proxy_new 0 (''tcp://*:'' @ show_nat (unat (pc_xpubPort cfg1)))
                            (''tcp://*:'' @ show_nat (unat (pc_xsubPort cfg1))) (pc_ctrlEndpoint cfg1)"
  obtain started h3 where exp: "Exposer_new e (pc_metricsPort cfg1) h2 = (started, h3)" by (metis surj_pair)
  obtain hs h4 where hs: "HealthStatus_new (pc_healthStatusPort cfg1) (RegisterCollectable h3) = (hs, h4)"
    by (metis surj_pair)
  have quiet: "ctrl_calls 0 h4 = []"
    by (rule proxy_prefix_quiet[OF conf exp[unfolded h2_def] hs])
  obtain r cnt g h5 where loop: "proxy_loop fuel e p (pc_statisticsInterval cfg1) (0, [], h4) = (r, cnt, g, h5)"
    by (metis surj_pair)
  obtain d p' h6 where del: "Proxy_delete e p (h5 @ [HttpStop]) = (d, p', h6)" by (metis surj_pair)
  show thesis
  proof (cases started)
    case (Inl err)
    then have "fst (proxy_main fuel e yl files opts []) = Inl err"
      using exp by (simp add: proxy_main_def assms conf h2_def)
    then show thesis using that(1) exp Inl by blast
  next
    case (Inr u)
    have "fst (proxy_main fuel e yl files opts []) =
        (if r = Inr True then (case fst (Proxy_delete e p (h5 @ [HttpStop])) of Inl err \<Rightarrow> Inl err | Inr _ \<Rightarrow> Inr True) else r)"
      using exp[unfolded h2_def] hs Inr loop[unfolded p_def] del[unfolded p_def]
      by (cases r; cases d) (auto simp: proxy_main_def assms conf Let_def HealthStatus_delete_def p_def split: bool.split)
    then show thesis using that(2)[OF _ quiet loop] by (simp add: p_def Proxy_new_def)
  qed
qed



end
