(* ===== verification/InprocStackMain.thy ===== *)
theory InprocStackMain
  imports NetStack Proxy
begin

text \<open>
  \<open>inproc-stack/InprocStackMain.cpp\<close>: proxy, four plain stacks, two net stacks and a converter in
  one process. The vector holds them as \<open>ZmqStack*\<close>; none of the operations it calls through
  these pointers is virtual, so a command acts on the base part of each.
\<close>

section \<open>The vector of stacks\<close>

datatype stack =
    Plain ZmqStack
  | Net TcpServer NetStack
  | Conv ConvStack

fun base_of :: "stack \<Rightarrow> ZmqStack" where
  "base_of (Plain z) = z"
| "base_of (Net s n) = ns_base n"
| "base_of (Conv v) = cv_base v"

fun with_base :: "ZmqStack \<Rightarrow> stack \<Rightarrow> stack" where
  "with_base z (Plain _) = Plain z"
| "with_base z (Net s n) = Net s (n\<lparr>ns_base := z\<rparr>)"
| "with_base z (Conv v) = Conv (v\<lparr>cv_base := z\<rparr>)"

lemma base_with_base [simp]: "base_of (with_base z s) = z"
  by (cases s) simp_all

text \<open>A call through \<open>stacks[i]\<close>, for an index that is in range.\<close>

definition on_stack ::
  "nat \<Rightarrow> (ZmqStack \<times> history \<Rightarrow> unit outcome \<times> ZmqStack \<times> history) \<Rightarrow> stack list \<times> history
     \<Rightarrow> unit outcome \<times> stack list \<times> history" where
  "on_stack i op st =
     (case st of (stacks, h) \<Rightarrow>
        (case op (base_of (stacks ! i), h) of
           (r, z, h) \<Rightarrow> (r, stacks[i := with_base z (stacks ! i)], h)))"

section \<open>Options and construction\<close>

record InprocSettings =
  ip_logLevel :: int
  ip_pubEndpoints :: "string list"
  ip_pubEndpoint :: string
  ip_subEndpoint :: string
  ip_metricsPort :: "16 word"
  ip_interactive :: bool

definition inproc_defaults :: InprocSettings where
  "inproc_defaults =
     \<lparr>ip_logLevel = level_trace, ip_pubEndpoints = [], ip_pubEndpoint = ''inproc://pub-endpoint'',
      ip_subEndpoint = ''inproc://sub-endpoint'', ip_metricsPort = 6001, ip_interactive = False\<rparr>"

text \<open>\<open>-P\<close> and \<open>-S\<close> are accepted by \<open>getopt\<close> but have no case.\<close>

definition inproc_option :: "char \<Rightarrow> InprocSettings handler" where
  "inproc_option c =
     (if c = CHR ''l'' then set_stoi (\<lambda>v cfg. cfg\<lparr>ip_logLevel := v\<rparr>)
      else if c = CHR ''p'' then set_text (\<lambda>v cfg. cfg\<lparr>ip_pubEndpoints := ip_pubEndpoints cfg @ [v], ip_pubEndpoint := v\<rparr>)
      else if c = CHR ''s'' then set_text (\<lambda>v cfg. cfg\<lparr>ip_subEndpoint := v\<rparr>)
      else if c = CHR ''i'' then set_text (\<lambda>_ cfg. cfg\<lparr>ip_interactive := True\<rparr>)
      else if c = CHR ''m'' then set_stoi (\<lambda>v cfg. cfg\<lparr>ip_metricsPort := word_of_int v\<rparr>)
      else usage_exit)"

definition inproc_conversions :: "string \<rightharpoonup> string list" where
  "inproc_conversions = [''net-a-ingress'' \<mapsto> [''net-b-egress''], ''net-b-ingress'' \<mapsto> [''net-a-egress'']]"

text \<open>The stacks in the order of the vector's initialiser; their sockets are numbered apart.\<close>

definition plain_new :: "env \<Rightarrow> InprocSettings \<Rightarrow> nat \<Rightarrow> string \<Rightarrow> string list \<Rightarrow> history \<Rightarrow> stack \<times> history" where
  "plain_new e cfg sock name topics h =
     (let (z, h) = ZmqStack_new e sock name (ip_pubEndpoints cfg) (ip_subEndpoint cfg) [] [] topics h in (Plain z, h))"

definition net_new ::
  "env \<Rightarrow> InprocSettings \<Rightarrow> nat \<Rightarrow> string \<Rightarrow> string list \<Rightarrow> string list \<Rightarrow> 16 word \<Rightarrow> history
     \<Rightarrow> stack outcome \<times> history" where
  "net_new e cfg sock name subs pubs port h =
     (case NetStack_new e sock name (ip_pubEndpoints cfg) (ip_subEndpoint cfg) subs pubs port h of
        (Inl err, s, n, h) \<Rightarrow> (Inl err, h)
      | (Inr _, s, n, h) \<Rightarrow> (Inr (Net s n), h))"

definition inproc_stacks :: "env \<Rightarrow> InprocSettings \<Rightarrow> nat \<Rightarrow> history \<Rightarrow> stack list outcome \<times> history" where
  "inproc_stacks e cfg sock h =
     (let (s0, h) = plain_new e cfg sock ''Stack 0'' [''topic1'', ''group''] h;
          (s1, h) = plain_new e cfg (sock + 4) ''Stack 1'' [''topic2'', ''group''] h;
          (s2, h) = plain_new e cfg (sock + 8) ''Stack 2'' [''topic3'', ''group''] h;
          (s3, h) = plain_new e cfg (sock + 12) ''Stack 3'' [''topic4'', ''group''] h
      in andThen (net_new e cfg (sock + 16) ''netA'' [''net-a-egress''] [''net-a-ingress''] 6000 h) (\<lambda>s4 h.
         andThen (net_new e cfg (sock + 20) ''netB'' [''net-b-egress''] [''net-b-ingress''] 6001 h) (\<lambda>s5 h.
         let (v, h) = ConvStack_new e (sock + 24) ''conv'' (ip_pubEndpoints cfg) (ip_subEndpoint cfg) []
                        [''net-a-ingress'', ''net-b-ingress''] inproc_conversions h
         in (Inr [s0, s1, s2, s3, s4, s5, Conv v], h))))"

section \<open>The main thread\<close>

text \<open>
  One interactive command other than \<open>quit\<close>. \<open>std::stoi\<close> may throw; its \<open>int\<close> is converted to
  \<open>size_t\<close>, so that a negative number is out of range.
\<close>

definition inproc_command :: "env \<Rightarrow> string \<Rightarrow> stack list \<times> history \<Rightarrow> unit outcome \<times> stack list \<times> history" where
  "inproc_command e line st =
     (case st of (stacks, h) \<Rightarrow>
      (case split line (CHR ''|'') of
         [number, cmd, data] \<Rightarrow>
           (case stoi number of
              Inl err \<Rightarrow> (Inl err, stacks, h)
            | Inr i \<Rightarrow>
                let i = unat (word_of_int i :: 64 word) in
                if i < length stacks then
                  (case split cmd (CHR '' '') of
                     [] \<Rightarrow> (Inr (), stacks, h)
                   | cmd0 # cmds \<Rightarrow>
                       if cmd0 = ''sub'' then
                         on_stack i (ZmqStack_Subscribe e data)
                           (stacks, log_info (''Stack'' @ show_nat i @ '' Subscribing to topic '' @ data) h)
                       else if cmd0 = ''unsub'' then
                         on_stack i (ZmqStack_Unsubscribe e data)
                           (stacks, log_info (''Stack'' @ show_nat i @ '' Unsubscribing from topic '' @ data) h)
                       else if cmds = [] then on_stack i (ZmqStack_Publish e cmd0 data) (stacks, h)
                       else on_stack i (ZmqStack_Publish_all e (cmd0 # cmds) data) (stacks, h))
                else (Inr (), stacks, h))
       | _ \<Rightarrow> (Inr (), stacks, h)))"

text \<open>\<open>quit\<close>: every stack is stopped, through the base.\<close>

fun stop_all :: "stack list \<Rightarrow> history \<Rightarrow> stack list \<times> history" where
  "stop_all [] h = ([], h)"
| "stop_all (s # stacks) h =
     (let (z, h) = ZmqStack_Stop (base_of s, h);
          (stacks, h) = stop_all stacks h
      in (with_base z s # stacks, h))"

fun inproc_interactive ::
  "nat \<Rightarrow> env \<Rightarrow> string list \<Rightarrow> stack list \<times> history \<Rightarrow> bool outcome \<times> stack list \<times> history" where
  "inproc_interactive 0 e stdin st = (Inr False, st)"
| "inproc_interactive (Suc fuel) e stdin st =
     (let (line, stdin) = read_line stdin
      in if line = ''quit'' then (Inr True, stop_all (fst st) (snd st))
         else andThen (inproc_command e line st) (\<lambda>_. inproc_interactive fuel e stdin))"

text \<open>Without \<open>-i\<close>: three messages every second, for ever; no signal is handled. \<open>n\<close> seconds of it.\<close>

fun inproc_seconds :: "nat \<Rightarrow> env \<Rightarrow> stack list \<times> history \<Rightarrow> unit outcome \<times> stack list \<times> history" where
  "inproc_seconds 0 e st = (Inr (), st)"
| "inproc_seconds (Suc n) e st =
     andThen (on_stack 0 (ZmqStack_Publish e ''topic2'' ''Message from stack1 to topic topic2'') st) (\<lambda>_ st.
     andThen (on_stack 1 (ZmqStack_Publish e ''topic1'' ''Message from stack2 to topic topic1'') st) (\<lambda>_ st.
     andThen (on_stack 3 (ZmqStack_Publish e ''group'' ''Message from stack3 to topic group'') st) (\<lambda>_ (stacks, h).
       inproc_seconds n e (stacks, sleep_for 1000 h))))"

text \<open>\<open>main\<close>: the proxy's control socket is 0 and its thread's sockets follow; the destructor of
  the proxy runs when the interactive loop has been left.\<close>

definition inproc_main ::
  "nat \<Rightarrow> env \<Rightarrow> (char \<times> string) list \<Rightarrow> string list \<Rightarrow> history \<Rightarrow> bool outcome \<times> stack list \<times> history" where
  "inproc_main fuel e opts stdin h =
     (case parse_options inproc_option opts inproc_defaults of
        (Inl err, _) \<Rightarrow> (Inl err, [], h)
      | (Inr _, cfg) \<Rightarrow>
          let h = log_info (''INPROC Pub Endpoint '' @ fmt_join '', '' (ip_pubEndpoints cfg)) h;
              h = log_info (''INPROC Sub Endpoint '' @ ip_subEndpoint cfg) h;
              (started, h) = Exposer_new e (ip_metricsPort cfg) h;
              p = Proxy_new 0 (ip_pubEndpoint cfg) (ip_subEndpoint cfg) ''inproc://ctrl-endpoint''
          in (case (case started of Inl err \<Rightarrow> (Inl err, h) | Inr _ \<Rightarrow> inproc_stacks e cfg 4 (sleep_for 500 h)) of
                (Inl err, h) \<Rightarrow> (Inl err, [], h)
              | (Inr stacks, h) \<Rightarrow>
                  let h = log_info ''    Convert topic net-a-ingress to topics net-b-egress'' h;
                      h = log_info ''    Convert topic net-b-ingress to topics net-a-egress'' h
                  in if ip_interactive cfg
                     then (case inproc_interactive fuel e stdin (stacks, h) of
                             (Inr True, stacks, h) \<Rightarrow>
                               (case Proxy_delete e p h of
                                  (Inl err, _, h) \<Rightarrow> (Inl err, stacks, h)
                                | (Inr _, _, h) \<Rightarrow> (Inr True, stacks, h))
                           | (r, stacks, h) \<Rightarrow> (r, stacks, h))
                     else (case inproc_seconds fuel e (stacks, h) of
                             (Inl err, stacks, h) \<Rightarrow> (Inl err, stacks, h)
                           | (Inr _, stacks, h) \<Rightarrow> (Inr False, stacks, h))))"

section \<open>Properties\<close>

lemma subscriber_endpoints_new:
  "ZmqStack_new e sock name eps sep rep ssep topics h = (z, h') \<Longrightarrow> sub_endpoints (zs_subscriber z) = eps"
  by (auto simp: ZmqStack_new_def Subscriber_new_def Let_def split: prod.splits if_splits)

lemma plain_new_endpoints:
  "plain_new e cfg sock name topics h = (s, h') \<Longrightarrow> sub_endpoints (zs_subscriber (base_of s)) = ip_pubEndpoints cfg"
  by (auto simp: plain_new_def split: prod.splits dest: subscriber_endpoints_new)

lemma net_new_endpoints:
  "net_new e cfg sock name subs pubs port h = (Inr s, h') \<Longrightarrow>
     sub_endpoints (zs_subscriber (base_of s)) = ip_pubEndpoints cfg"
  by (auto simp: net_new_def NetStack_new_def Let_def split: prod.splits sum.splits if_splits
      dest: subscriber_endpoints_new)

lemma conv_new_endpoints:
  "ConvStack_new e sock name eps sep rep subs m h = (v, h') \<Longrightarrow> sub_endpoints (zs_subscriber (cv_base v)) = eps"
  by (auto simp: ConvStack_new_def split: prod.splits dest: subscriber_endpoints_new)

lemma inproc_endpoints:
  assumes "inproc_stacks e cfg sock h = (Inr stacks, h')"
  shows "length stacks = 7 \<and> (\<forall>s \<in> set stacks. sub_endpoints (zs_subscriber (base_of s)) = ip_pubEndpoints cfg)"
proof -
  obtain s0 h0 s1 h1 s2 h2 s3 h3 where plain:
    "plain_new e cfg sock ''Stack 0'' [''topic1'', ''group''] h = (s0, h0)"
    "plain_new e cfg (sock + 4) ''Stack 1'' [''topic2'', ''group''] h0 = (s1, h1)"
    "plain_new e cfg (sock + 8) ''Stack 2'' [''topic3'', ''group''] h1 = (s2, h2)"
    "plain_new e cfg (sock + 12) ''Stack 3'' [''topic4'', ''group''] h2 = (s3, h3)"
    by (metis surj_pair)
  obtain s4 h4 s5 h5 where net:
    "net_new e cfg (sock + 16) ''netA'' [''net-a-egress''] [''net-a-ingress''] 6000 h3 = (Inr s4, h4)"
    "net_new e cfg (sock + 20) ''netB'' [''net-b-egress''] [''net-b-ingress''] 6001 h4 = (Inr s5, h5)"
    using assms unfolding inproc_stacks_def Let_def plain prod.case by (auto simp: andThen_ok_iff)
  obtain v h6 where conv: "ConvStack_new e (sock + 24) ''conv'' (ip_pubEndpoints cfg) (ip_subEndpoint cfg) []
                        [''net-a-ingress'', ''net-b-ingress''] inproc_conversions h5 = (v, h6)"
    by (metis surj_pair)
  have "stacks = [s0, s1, s2, s3, s4, s5, Conv v]"
    using assms unfolding inproc_stacks_def Let_def plain prod.case by (simp add: net conv)
  then show ?thesis
    using plain[THEN plain_new_endpoints] net[THEN net_new_endpoints] conv_new_endpoints[OF conv] by simp
qed

lemma options_without_p:
  assumes "parse_options inproc_option opts cfg = (Inr (), cfg')" and "CHR ''p'' \<notin> fst ` set opts"
  shows "ip_pubEndpoints cfg' = ip_pubEndpoints cfg" and "ip_pubEndpoint cfg' = ip_pubEndpoint cfg"
proof -
  have "ip_pubEndpoints cfg' = ip_pubEndpoints cfg \<and> ip_pubEndpoint cfg' = ip_pubEndpoint cfg"
    using assms unfolding parse_options_def
  proof (induction opts arbitrary: cfg)
    case Nil
    then show ?case by simp
  next
    case (Cons opt opts)
    obtain c optarg where opt: "opt = (c, optarg)" by (cases opt)
    from Cons.prems(1) obtain cfg1 where step: "inproc_option c optarg cfg = (Inr (), cfg1)"
      and rest: "for_each (\<lambda>(c, optarg). inproc_option c optarg) opts cfg1 = (Inr (), cfg')"
      by (auto simp: andThen_ok_iff opt)
    have "ip_pubEndpoints cfg1 = ip_pubEndpoints cfg \<and> ip_pubEndpoint cfg1 = ip_pubEndpoint cfg"
      using step Cons.prems(2)
      by (auto simp: opt inproc_option_def set_text_def set_stoi_def usage_exit_def split: if_splits sum.splits)
    with Cons.IH[OF rest] Cons.prems(2) show ?case by simp
  qed
  then show "ip_pubEndpoints cfg' = ip_pubEndpoints cfg" "ip_pubEndpoint cfg' = ip_pubEndpoint cfg" by simp_all
qed

lemma options_without_m:
  assumes "parse_options inproc_option opts cfg = (Inr (), cfg')" and "CHR ''m'' \<notin> fst ` set opts"
  shows "ip_metricsPort cfg' = ip_metricsPort cfg"
proof -
  have no_m: "(CHR ''m'', optarg) \<notin> set opts" for optarg using assms(2) by force
  show ?thesis using assms(1) unfolding parse_options_def
    by (rule for_each_invariant[where P = "\<lambda>c. ip_metricsPort c = ip_metricsPort cfg"])
      (auto simp: no_m inproc_option_def set_text_def set_stoi_def usage_exit_def split: if_splits sum.splits)
qed

text \<open>Started without \<open>-p\<close>, the process connects none of its subscribers. The proxy publishes
  on the default endpoint, but the list the stacks connect to is only filled by the option, so
  all seven subscribers start with no endpoint at all.\<close>

theorem inproc_default_connects_nothing:
  assumes "parse_options inproc_option opts inproc_defaults = (Inr (), cfg)" and "CHR ''p'' \<notin> fst ` set opts"
    and "inproc_stacks e cfg sock h = (Inr stacks, h')"
  shows "ip_pubEndpoint cfg = ''inproc://pub-endpoint'' \<and> length stacks = 7 \<and>
     (\<forall>s \<in> set stacks. sub_endpoints (zs_subscriber (base_of s)) = [])"
  using options_without_p[OF assms(1,2)] inproc_endpoints[OF assms(3)] by (simp add: inproc_defaults_def)

lemma sample_inproc: "\<exists>stacks h'. inproc_stacks quiet_env inproc_defaults 4 [] = (Inr stacks, h')"
  by (simp add: inproc_stacks_def plain_new_def net_new_def NetStack_new_def ConvStack_new_def ZmqStack_new_def
      Publisher_new_def zmq_defs Let_def start_def core_simps quiet_env_def next_fd_def TcpServer_init_def
      INVALID_SOCKET_def FD_SET_def FD_SETSIZE_def)

theorem inproc_default_connects_nothing_witness:
  "\<exists>stacks h'. inproc_stacks quiet_env inproc_defaults 4 [] = (Inr stacks, h') \<and> length stacks = 7 \<and>
     sub_endpoints (zs_subscriber (base_of (stacks ! 0))) = []"
proof -
  obtain stacks h' where run: "inproc_stacks quiet_env inproc_defaults 4 [] = (Inr stacks, h')"
    using sample_inproc by blast
  have "parse_options inproc_option [] inproc_defaults = (Inr (), inproc_defaults)" by (simp add: parse_options_def)
  from inproc_default_connects_nothing[OF this _ run] run show ?thesis by (auto intro!: exI)
qed

text \<open>The TCP server of a stack, if it has one; no command and no message changes it.\<close>

fun server_of :: "stack \<Rightarrow> TcpServer option" where
  "server_of (Net s n) = Some s"
| "server_of _ = None"

lemma server_with_base [simp]: "server_of (with_base z s) = server_of s"
  by (cases s) simp_all

lemma on_stack_servers:
  "on_stack i op st = (r, st') \<Longrightarrow> map server_of (fst st') = map server_of (fst st)"
  by (cases "i < length (fst st)")
    (auto simp: on_stack_def map_update list_update_same_conv list_update_beyond split: prod.splits)

lemma command_servers:
  "inproc_command e line st = (r, st') \<Longrightarrow> map server_of (fst st') = map server_of (fst st)"
  by (auto simp: inproc_command_def Let_def dest!: on_stack_servers split: prod.splits list.splits sum.splits if_splits)

lemma stop_all_servers: "map server_of (fst (stop_all stacks h)) = map server_of stacks"
  by (induction stacks arbitrary: h) (simp_all split: prod.splits, metis fst_conv)

lemma interactive_servers:
  "inproc_interactive fuel e stdin st = (r, st') \<Longrightarrow> map server_of (fst st') = map server_of (fst st)"
proof (induction fuel arbitrary: stdin st)
  case (Suc fuel)
  obtain line stdin' where input: "read_line stdin = (line, stdin')" by (metis surj_pair)
  obtain r1 st1 where cmd: "inproc_command e line st = (r1, st1)" by (metis surj_pair)
  show ?case
  proof (cases "line = ''quit''")
    case True
    then show ?thesis using Suc.prems input stop_all_servers[of "fst st" "snd st"] by auto
  next
    case False
    then show ?thesis using Suc.prems input cmd Suc.IH[of stdin' st1] command_servers[OF cmd]
      by (cases r1) auto
  qed
qed simp

lemma seconds_servers:
  "inproc_seconds n e st = (r, st') \<Longrightarrow> map server_of (fst st') = map server_of (fst st)"
proof (induction n arbitrary: st)
  case (Suc n)
  let ?say = "\<lambda>i topic text. on_stack i (ZmqStack_Publish e topic text)"
  obtain r1 st1 where one: "?say 0 ''topic2'' ''Message from stack1 to topic topic2'' st = (r1, st1)" by (metis surj_pair)
  obtain r2 st2 where two: "?say 1 ''topic1'' ''Message from stack2 to topic topic1'' st1 = (r2, st2)" by (metis surj_pair)
  obtain r3 stacks h where three: "?say 3 ''group'' ''Message from stack3 to topic group'' st2 = (r3, stacks, h)"
    by (metis surj_pair)
  note same = one[THEN on_stack_servers] two[THEN on_stack_servers] three[THEN on_stack_servers]
  show ?case using Suc.prems one two three same Suc.IH[of "(stacks, sleep_for 1000 h)"]
    by (cases r1; cases r2; cases r3) auto
qed simp

text \<open>Construction only adds to the history; a listener cannot bind a port that is taken.\<close>

lemma ZmqStack_new_history:
  "ZmqStack_new e sock name eps sep rep ssep topics h = (z, h') \<Longrightarrow> set h \<subseteq> set h'"
  by (auto simp: ZmqStack_new_def Publisher_new_def Sender_new_def zmq_call_def log_info_def log_error_def Let_def
      split: prod.splits if_splits option.splits)

lemma plain_new_history: "plain_new e cfg sock name topics h = (s, h') \<Longrightarrow> set h \<subseteq> set h' \<and> server_of s = None"
  by (auto simp: plain_new_def split: prod.splits dest: ZmqStack_new_history)

lemma start_history: "start e port s h = (r, s', h') \<Longrightarrow> set h \<subseteq> set h'"
  by (auto simp: start_def core_simps Let_def split: if_splits sum.splits)

lemma net_new_history: "net_new e cfg sock name subs pubs port h = (Inr s, h') \<Longrightarrow> set h \<subseteq> set h'"
  by (auto simp: net_new_def NetStack_new_def log_info_def log_error_def Let_def
      split: prod.splits sum.splits if_splits dest!: ZmqStack_new_history start_history)

definition port_taken :: "env \<Rightarrow> 16 word \<Rightarrow> history \<Rightarrow> bool" where
  "port_taken e port h \<longleftrightarrow>
     (\<forall>fd more. set h \<subseteq> set more \<longrightarrow> int_result e more (SysBind fd \<lparr>sin_addr = INADDR_ANY, sin_port = htons port\<rparr>) = -1)"

lemma port_taken_later: "port_taken e port h \<Longrightarrow> set h \<subseteq> set h' \<Longrightarrow> port_taken e port h'"
  by (simp add: port_taken_def)

lemma start_port_taken:
  assumes "port_taken e port h" and "start e port (TcpServer_init None) h = (r, s, h')"
  shows "\<exists>ret. r = Inr ret \<and> \<not> m_success ret \<and> \<not> srv_joinable s \<and> srv_fds s = {} \<and> srv_clients s = []"
proof -
  have any: "inet_pton ''0.0.0.0'' = Some INADDR_ANY" by code_simp
  have refused: "int_result e (h @ more) (SysBind fd \<lparr>sin_addr = INADDR_ANY, sin_port = htons port\<rparr>) = -1" for fd more
    using assms(1) by (simp add: port_taken_def)
  show ?thesis using assms(2)
    by (auto simp: start_def core_simps Let_def TcpServer_init_def SocketOpt_init_def any refused
        split: if_splits)
qed

lemma net_new_port_taken:
  assumes "port_taken e port h" and "net_new e cfg sock name subs pubs port h = (r, h')"
  shows "\<exists>s n. r = Inr (Net s n) \<and> \<not> srv_joinable s \<and> srv_fds s = {} \<and> srv_clients s = []"
proof -
  obtain base h1 where base:
    "ZmqStack_new e sock name (ip_pubEndpoints cfg) (ip_subEndpoint cfg) [] [] subs h = (base, h1)" by (metis surj_pair)
  obtain r' s h2 where started: "start e port (TcpServer_init None) h1 = (r', s, h2)" by (metis surj_pair)
  from start_port_taken[OF port_taken_later[OF assms(1) ZmqStack_new_history[OF base]] started] base started assms(2)
  show ?thesis by (auto simp: net_new_def NetStack_new_def)
qed

lemma inproc_port_taken:
  assumes "inproc_stacks e cfg sock h = (Inr stacks, h')" and "port_taken e 6001 h"
  shows "\<exists>s n. 5 < length stacks \<and> stacks ! 5 = Net s n \<and> \<not> srv_joinable s \<and> srv_fds s = {} \<and> srv_clients s = []"
proof -
  obtain s0 h0 s1 h1 s2 h2 s3 h3 where plain:
    "plain_new e cfg sock ''Stack 0'' [''topic1'', ''group''] h = (s0, h0)"
    "plain_new e cfg (sock + 4) ''Stack 1'' [''topic2'', ''group''] h0 = (s1, h1)"
    "plain_new e cfg (sock + 8) ''Stack 2'' [''topic3'', ''group''] h1 = (s2, h2)"
    "plain_new e cfg (sock + 12) ''Stack 3'' [''topic4'', ''group''] h2 = (s3, h3)"
    by (metis surj_pair)
  obtain s4 h4 s5 h5 where net:
    "net_new e cfg (sock + 16) ''netA'' [''net-a-egress''] [''net-a-ingress''] 6000 h3 = (Inr s4, h4)"
    "net_new e cfg (sock + 20) ''netB'' [''net-b-egress''] [''net-b-ingress''] 6001 h4 = (Inr s5, h5)"
    using assms(1) unfolding inproc_stacks_def Let_def plain prod.case by (auto simp: andThen_ok_iff)
  have "set h \<subseteq> set h4" using plain[THEN plain_new_history] net_new_history[OF net(1)] by blast
  then have "port_taken e 6001 h4" by (rule port_taken_later[OF assms(2)])
  from net_new_port_taken[OF this net(2)] obtain s n where
    "s5 = Net s n" "\<not> srv_joinable s" "srv_fds s = {}" "srv_clients s = []" by auto
  moreover obtain v where "stacks = [s0, s1, s2, s3, s4, s5, Conv v]"
    using assms(1) unfolding inproc_stacks_def Let_def plain prod.case by (auto simp: net split: prod.splits)
  ultimately show ?thesis by simp
qed

text \<open>C36: by default the second net-stack of the in-process demonstration serves nobody. Unless \<open>-m\<close>
  gives another one, the metrics server, which is started first, listens on port 6001, the port
  \<open>netB\<close> is told to listen on; if the kernel refuses to bind a port on which the metrics server
  listens, the process goes on with a \<open>netB\<close> whose server has no thread, no descriptor to watch
  and no clients, whatever commands are given and for however long it runs.\<close>

theorem inproc_default_port_clash:
  assumes "\<forall>h fd. ExposerStart ''0.0.0.0:6001'' \<in> set h \<longrightarrow>
             int_result e h (SysBind fd \<lparr>sin_addr = INADDR_ANY, sin_port = htons 6001\<rparr>) = -1"
    and "inproc_main fuel e opts stdin h = (r, stacks, h')" and "CHR ''m'' \<notin> fst ` set opts" and "stacks \<noteq> []"
  shows "\<exists>s n. stacks ! 5 = Net s n \<and> \<not> srv_joinable s \<and> srv_fds s = {} \<and> srv_clients s = []"
proof -
  obtain cfg where opts: "parse_options inproc_option opts inproc_defaults = (Inr (), cfg)"
    using assms(2,4) by (cases "parse_options inproc_option opts inproc_defaults"; cases "fst (parse_options inproc_option opts inproc_defaults)")
      (auto simp: inproc_main_def)
  have port: "ip_metricsPort cfg = 6001"
    using options_without_m[OF opts assms(3)] by (simp add: inproc_defaults_def)
  have shown: "show_nat 6001 = ''6001''"
    by (simp add: show_nat.simps[of 6001] show_nat.simps[of 600] show_nat.simps[of 60] show_nat.simps[of 6] digit_char_def, code_simp)
  obtain started h1 where exp: "Exposer_new e 6001 (log_info (''INPROC Sub Endpoint '' @ ip_subEndpoint cfg)
      (log_info (''INPROC Pub Endpoint '' @ fmt_join '', '' (ip_pubEndpoints cfg)) h)) = (started, h1)" by (metis surj_pair)
  then have "ExposerStart ''0.0.0.0:6001'' \<in> set (sleep_for 500 h1)"
    by (auto simp: Exposer_new_def Let_def shown sleep_for_def)
  then have taken: "port_taken e 6001 (sleep_for 500 h1)"
    using assms(1) by (auto simp: port_taken_def)
  note main = assms(2)[unfolded inproc_main_def opts prod.case sum.case Let_def port exp]
  have up: "started = Inr ()" using main assms(4) by (cases started) simp_all
  obtain res h2 where res: "inproc_stacks e cfg 4 (sleep_for 500 h1) = (res, h2)" by (metis surj_pair)
  have "\<exists>made. res = Inr made"
    using main[unfolded up sum.case res prod.case] assms(4) by (cases res) simp_all
  with up res obtain made where built: "started = Inr ()" "inproc_stacks e cfg 4 (sleep_for 500 h1) = (Inr made, h2)"
    by blast
  define h3 where "h3 = log_info ''    Convert topic net-b-ingress to topics net-a-egress''
                          (log_info ''    Convert topic net-a-ingress to topics net-b-egress'' h2)"
  have "fst (snd (if ip_interactive cfg
                  then (case inproc_interactive fuel e stdin (made, h3) of
                          (Inr True, stacks, h) \<Rightarrow>
                            (case Proxy_delete e (Proxy_new 0 (ip_pubEndpoint cfg) (ip_subEndpoint cfg) ''inproc://ctrl-endpoint'') h of
                               (Inl err, _, h) \<Rightarrow> (Inl err, stacks, h)
                             | (Inr _, _, h) \<Rightarrow> (Inr True, stacks, h))
                        | (r, stacks, h) \<Rightarrow> (r, stacks, h))
                  else (case inproc_seconds fuel e (made, h3) of
                          (Inl err, stacks, h) \<Rightarrow> (Inl err, stacks, h)
                        | (Inr _, stacks, h) \<Rightarrow> (Inr False, stacks, h)))) = stacks"
    using main[unfolded built sum.case prod.case, folded h3_def] by simp
  then have "map server_of stacks = map server_of made"
    using interactive_servers[of fuel e stdin "(made, h3)"] seconds_servers[of fuel e "(made, h3)"]
    by (simp split: if_split_asm prod.split_asm sum.split_asm bool.split_asm)
  moreover from inproc_port_taken[OF built(2) taken] obtain s n where five: "5 < length made" "made ! 5 = Net s n"
    "\<not> srv_joinable s" "srv_fds s = {}" "srv_clients s = []" by blast
  ultimately have "server_of (stacks ! 5) = Some s"
    by (metis map_eq_imp_length_eq nth_map server_of.simps(1))
  then show ?thesis using five by (cases "stacks ! 5") auto
qed

text \<open>A kernel that refuses to bind a port on which the metrics server listens.\<close>

definition clash_env :: env where
  "clash_env = quiet_env\<lparr>int_result := (\<lambda>h c.
     case c of
       SysBind fd addr \<Rightarrow> if ExposerStart ''0.0.0.0:6001'' \<in> set h \<and> sin_port addr = htons 6001 then -1 else quiet_int h c
     | _ \<Rightarrow> quiet_int h c)\<rparr>"

lemma clash_sockets: "int_result clash_env h (SysSocket d t p) = next_fd h"
  by (simp add: clash_env_def)

lemma plain_new_next_fd: "plain_new e cfg sock name topics h = (s, h') \<Longrightarrow> next_fd h' = next_fd h"
  by (auto simp: plain_new_def ZmqStack_new_def Publisher_new_def zmq_call_def log_info_def log_error_def next_fd_def Let_def
      split: prod.splits if_splits option.splits sum.splits error.splits)

lemma net_new_built:
  assumes "int_result e (snd (plain_new e cfg sock name subs h)) (SysSocket AF_INET SOCK_STREAM 0) \<in> {0..<FD_SETSIZE}"
  shows "\<exists>s h'. net_new e cfg sock name subs pubs port h = (Inr s, h')"
  using assms
  by (auto simp: net_new_def NetStack_new_def plain_new_def start_def core_simps FD_SET_def TcpServer_init_def Let_def
      split: prod.splits sum.splits)

lemma inproc_stacks_built:
  assumes "\<And>h d t p. int_result e h (SysSocket d t p) = next_fd h" and "next_fd h = 3" and "port_taken e 6001 h"
  shows "\<exists>made. fst (inproc_stacks e cfg sock h) = Inr made"
proof -
  obtain s0 h0 s1 h1 s2 h2 s3 h3 where plain:
    "plain_new e cfg sock ''Stack 0'' [''topic1'', ''group''] h = (s0, h0)"
    "plain_new e cfg (sock + 4) ''Stack 1'' [''topic2'', ''group''] h0 = (s1, h1)"
    "plain_new e cfg (sock + 8) ''Stack 2'' [''topic3'', ''group''] h1 = (s2, h2)"
    "plain_new e cfg (sock + 12) ''Stack 3'' [''topic4'', ''group''] h2 = (s3, h3)"
    by (metis surj_pair)
  have "next_fd h3 = 3" using plain[THEN plain_new_next_fd] assms(2) by simp
  then have "next_fd (snd (plain_new e cfg (sock + 16) ''netA'' [''net-a-egress''] h3)) = 3"
    using plain_new_next_fd[of e cfg "sock + 16" "''netA''" "[''net-a-egress'']" h3] by (metis prod.collapse)
  then obtain s4 h4 where net_a:
    "net_new e cfg (sock + 16) ''netA'' [''net-a-egress''] [''net-a-ingress''] 6000 h3 = (Inr s4, h4)"
    using net_new_built[of e cfg "sock + 16" "''netA''" "[''net-a-egress'']" h3 "[''net-a-ingress'']" 6000] assms(1)
    by (auto simp: FD_SETSIZE_def)
  have "set h \<subseteq> set h4" using plain[THEN plain_new_history] net_new_history[OF net_a] by blast
  then have "port_taken e 6001 h4" by (rule port_taken_later[OF assms(3)])
  then obtain s5 h5 where
    "net_new e cfg (sock + 20) ''netB'' [''net-b-egress''] [''net-b-ingress''] 6001 h4 = (Inr s5, h5)"
    using net_new_port_taken by (metis surj_pair)
  then show ?thesis unfolding inproc_stacks_def Let_def plain prod.case by (simp add: net_a split: prod.splits)
qed

theorem inproc_default_port_clash_witness:
  "\<exists>r stacks h' s n. inproc_main 10 clash_env [] [] [] = (r, stacks, h') \<and> stacks ! 5 = Net s n \<and> \<not> srv_joinable s"
proof -
  have refused: "\<forall>h fd. ExposerStart ''0.0.0.0:6001'' \<in> set h \<longrightarrow>
      int_result clash_env h (SysBind fd \<lparr>sin_addr = INADDR_ANY, sin_port = htons 6001\<rparr>) = -1"
    by (simp add: clash_env_def)
  let ?h0 = "log_info (''INPROC Sub Endpoint '' @ ip_subEndpoint inproc_defaults)
      (log_info (''INPROC Pub Endpoint '' @ fmt_join '', '' (ip_pubEndpoints inproc_defaults)) [])"
  obtain h1 where exp: "Exposer_new clash_env (ip_metricsPort inproc_defaults) ?h0 = (Inr (), h1)"
    by (simp add: Exposer_new_def clash_env_def quiet_env_def Let_def)
  have opts: "parse_options inproc_option [] inproc_defaults = (Inr (), inproc_defaults)" by (simp add: parse_options_def)
  obtain res h2 where res: "inproc_stacks clash_env inproc_defaults 4 (sleep_for 500 h1) = (res, h2)" by (metis surj_pair)
  have taken: "port_taken clash_env 6001 (sleep_for 500 h1)"
  proof -
    have "show_nat 6001 = ''6001''"
      by (simp add: show_nat.simps[of 6001] show_nat.simps[of 600] show_nat.simps[of 60] show_nat.simps[of 6] digit_char_def, code_simp)
    then have "ExposerStart ''0.0.0.0:6001'' \<in> set (sleep_for 500 h1)"
      using exp by (auto simp: Exposer_new_def Let_def sleep_for_def inproc_defaults_def)
    then show ?thesis using refused by (auto simp: port_taken_def)
  qed
  have "next_fd (sleep_for 500 h1) = 3"
    using exp by (auto simp: Exposer_new_def Let_def sleep_for_def next_fd_def log_info_def)
  then obtain made where made: "res = Inr made"
    using inproc_stacks_built[OF _ _ taken] res by (metis clash_sockets fst_conv)
  obtain r stacks h' where run: "inproc_main 10 clash_env [] [] [] = (r, stacks, h')" by (metis surj_pair)
  note main = run[unfolded inproc_main_def opts prod.case sum.case Let_def exp res made]
  have "map server_of stacks = map server_of made"
    using main
    by (auto simp: inproc_defaults_def dest!: seconds_servers split: prod.split_asm sum.split_asm)
  then have "length stacks = length made" by (rule map_eq_imp_length_eq)
  then have "stacks \<noteq> []" using inproc_endpoints[OF res[unfolded made]] by auto
  from inproc_default_port_clash[OF refused run _ this] run show ?thesis by auto
qed

lemma on_stack_one:
  "on_stack i op (stacks, h) = (r, stacks', h') \<Longrightarrow> stacks' = stacks[i := with_base (base_of (stacks' ! i)) (stacks ! i)]"
  if "i < length stacks"
  using that by (auto simp: on_stack_def split: prod.splits)

lemma stoi_range: "stoi s = Inr i \<Longrightarrow> - (2 ^ 31) \<le> i \<and> i < 2 ^ 31"
  by (auto simp: stoi_def Let_def split: option.splits if_splits)

lemma size_t_index:
  assumes "stoi s = Inr i" and "unat (word_of_int i :: 64 word) < 7"
  shows "i = int (unat (word_of_int i :: 64 word))"
proof -
  have "int (unat (word_of_int i :: 64 word)) = i mod 2 ^ 64"
    by (simp add: unsigned_of_int take_bit_eq_mod)
  moreover from this assms(2) have "i mod 2 ^ 64 < 7" by linarith
  moreover have "i mod 2 ^ 64 = (if 0 \<le> i then i else i + 2 ^ 64)"
    using stoi_range[OF assms(1)] mod_add_self2[of i "2 ^ 64"]
      mod_pos_pos_trivial[of i "2 ^ 64"] mod_pos_pos_trivial[of "i + 2 ^ 64" "2 ^ 64"] by auto
  ultimately show ?thesis using stoi_range[OF assms(1)] by (auto split: if_splits)
qed

text \<open>A command names one stack and touches no other. Whatever the line, either no stack
  changes, or the line has three parts of which the first is the number of one of the seven
  stacks, and only the base of that one changes: no number, however large or negative, reaches
  past the vector.\<close>

theorem command_touches_one_stack:
  assumes "inproc_command e line (stacks, h) = (r, stacks', h')" and "length stacks = 7"
  shows "stacks' = stacks \<or>
     (\<exists>number cmd data i z. split line (CHR ''|'') = [number, cmd, data] \<and> stoi number = Inr (int i) \<and> i < 7 \<and>
        stacks' = stacks[i := with_base z (stacks ! i)])"
proof (cases "stacks' = stacks")
  case False
  with assms(1) obtain number cmd data n where line: "split line (CHR ''|'') = [number, cmd, data]" "stoi number = Inr n"
    by (auto simp: inproc_command_def split: list.splits sum.splits)
  let ?i = "unat (word_of_int n :: 64 word)"
  have i: "?i < 7" using assms False line by (auto simp: inproc_command_def Let_def split: if_splits)
  obtain op h0 where "on_stack ?i op (stacks, h0) = (r, stacks', h')"
    using assms False line i
    by (auto simp: inproc_command_def Let_def split: if_splits list.splits)
  from on_stack_one[OF _ this] i assms(2)
  have "stacks' = stacks[?i := with_base (base_of (stacks' ! ?i)) (stacks ! ?i)]" by simp
  moreover have "stoi number = Inr (int ?i)" using size_t_index[OF line(2) i] line(2) by simp
  ultimately show ?thesis using line(1) i by blast
qed simp

theorem command_touches_one_stack_witness:
  "\<exists>stacks h' r stacks' h''. inproc_stacks quiet_env inproc_defaults 4 [] = (Inr stacks, h') \<and>
     inproc_command quiet_env ''-1|sub|topic9'' (stacks, h') = (r, stacks', h'') \<and> stacks' = stacks"
proof -
  obtain stacks h' where run: "inproc_stacks quiet_env inproc_defaults 4 [] = (Inr stacks, h')"
    using sample_inproc by blast
  have len: "length stacks = 7" using inproc_endpoints[OF run] by simp
  obtain r stacks' h'' where cmd: "inproc_command quiet_env ''-1|sub|topic9'' (stacks, h') = (r, stacks', h'')"
    by (metis surj_pair)
  have "split ''-1|sub|topic9'' (CHR ''|'') = [''-1'', ''sub'', ''topic9'']"
    using split_fmt_join[of "[''-1'', ''sub'', ''topic9'']" "CHR ''|''"] by simp
  moreover have "stoi ''-1'' = Inr (-1)" by code_simp
  ultimately have "stacks' = stacks" using command_touches_one_stack[OF cmd len] by auto
  with run cmd show ?thesis by blast
qed

end
