(* ===== verification/Bridge.thy ===== *)
theory Bridge
  imports NetThreads ConvRun InprocStackMain
begin

text \<open>
  The bridge of the in-process demonstration: two groups of TCP clients joined by two net-stacks
  and a converter. The three processes are those of \<open>NetThreads\<close>, \<open>ConvThreads\<close> and \<open>NetStack\<close>; the
  topics between them deliver messages in order and perhaps not all of them (\<open>subseq\<close>).
\<close>

section \<open>What goes over the topics\<close>

definition has_topic :: "string \<Rightarrow> string list \<Rightarrow> bool" where
  "has_topic t msgs = (case msgs of [] \<Rightarrow> False | x # _ \<Rightarrow> x = t)"

definition payload :: "string list \<Rightarrow> string" where
  "payload msgs = (case msgs of _ # m # _ \<Rightarrow> m | _ \<Rightarrow> [])"

text \<open>The messages that a run of the converter has handled, and runs in which no conversion changes.\<close>

fun handled_by :: "conv_action list \<Rightarrow> string list list" where
  "handled_by [] = []"
| "handled_by (Route w msgs # as) = msgs # handled_by as"
| "handled_by (_ # as) = handled_by as"

fun keeps_map :: "conv_action \<Rightarrow> bool" where
  "keeps_map (Add _ _) = False"
| "keeps_map (Remove _) = False"
| "keeps_map _ = True"

text \<open>What has been offered to a client.\<close>

definition offered_to :: "int \<Rightarrow> history \<Rightarrow> string list" where
  "offered_to fd h = List.map_filter (\<lambda>c. case c of SysSend k msg \<Rightarrow> if k = fd then Some msg else None | _ \<Rightarrow> None) h"

lemma topic_simps [simp]:
  "\<not> has_topic t []" "has_topic t (x # ms) = (x = t)" "payload (t' # m # ms) = m"
  by (simp_all add: has_topic_def payload_def)

lemma handled_by_append: "handled_by (as @ bs) = handled_by as @ handled_by bs"
  by (induction as rule: handled_by.induct) simp_all

lemma spec_run_fixed:
  assumes "\<forall>a \<in> set as. keeps_map a"
  shows "spec_run m as = (m, map (routed_message m) (handled_by as))"
  using assms
proof (induction as rule: rev_induct)
  case (snoc a as)
  then show ?case by (cases a) (simp_all add: handled_by_append)
qed simp

lemma offered_append [simp]: "offered_to fd (h @ h') = offered_to fd h @ offered_to fd h'"
  by (simp add: offered_to_def List.map_filter_def)

lemma offered_log [simp]: "offered_to fd (log_info s h) = offered_to fd h"
  by (simp add: offered_to_def log_info_def List.map_filter_def)

lemma subseq_set: "subseq xs ys \<Longrightarrow> set xs \<subseteq> set ys"
  by (induction rule: list_emb.induct) auto

lemma subseq_blocks:
  "list_all2 prefix blocks rs \<Longrightarrow> subseq (concat blocks) (concat rs)"
  by (induction rule: list_all2_induct) (auto intro: list_emb_append_mono prefix_imp_subseq)

section \<open>The converter in the middle\<close>

lemma routed_egress:
  "filter (has_topic ''net-b-egress'') (routed_message inproc_conversions msgs) =
     (if has_topic ''net-a-ingress'' msgs \<and> 2 \<le> length msgs then [[''net-b-egress'', payload msgs]] else [])"
  by (cases msgs rule: route_key.cases)
    (auto simp: routed_message_def routed_def inproc_conversions_def receiver_topic_def)

lemma published_egress:
  "filter (has_topic ''net-b-egress'') (concat (map (routed_message inproc_conversions) ms)) =
     map (\<lambda>m. [''net-b-egress'', payload m]) (filter (\<lambda>m. has_topic ''net-a-ingress'' m \<and> 2 \<le> length m) ms)"
  by (induction ms) (simp_all add: routed_egress)

text \<open>What went in came from the one net-stack.\<close>

lemma ingress_messages:
  assumes "subseq (filter (has_topic t) ms) (map (\<lambda>(_, d). [t, d]) pieces)"
  shows "filter (\<lambda>m. has_topic t m \<and> 2 \<le> length m) ms = filter (has_topic t) ms"
    and "subseq (map payload (filter (has_topic t) ms)) (map snd pieces)"
proof -
  have "set (filter (has_topic t) ms) \<subseteq> set (map (\<lambda>(_, d). [t, d]) pieces)"
    by (rule subseq_set[OF assms])
  then have "\<forall>m \<in> set ms. has_topic t m \<longrightarrow> length m = 2" by fastforce
  then show "filter (\<lambda>m. has_topic t m \<and> 2 \<le> length m) ms = filter (has_topic t) ms"
    by (intro filter_cong) auto
  have eq: "map payload (map (\<lambda>(_, d). [t, d]) pieces) = map snd pieces" by (auto simp: case_prod_unfold)
  show "subseq (map payload (filter (has_topic t) ms)) (map snd pieces)"
    using subseq_map[OF assms, of payload] unfolding eq .
qed

lemma converter_between:
  assumes "conv_run e S as T" and "S = conv_start e sock name pubs sub rcv topics inproc_conversions h"
    and "published S = []" and "\<forall>a \<in> set as. keeps_map a"
    and "subseq (filter (has_topic ''net-a-ingress'') (handled_by as)) (map (\<lambda>(_, d). [''net-a-ingress'', d]) pieces)"
  shows "\<forall>m \<in> set (filter (has_topic ''net-b-egress'') (published T)). m = [''net-b-egress'', payload m]"
    and "subseq (map payload (filter (has_topic ''net-b-egress'') (published T))) (map snd pieces)"
    and "takes_all e (pub_socket (conv_pub S)) \<Longrightarrow> pub_open (conv_pub T) \<Longrightarrow> \<not> crashed T \<Longrightarrow> unsent T = [] \<Longrightarrow>
      map payload (filter (has_topic ''net-b-egress'') (published T)) = map payload (filter (has_topic ''net-a-ingress'') (handled_by as))"
proof -
  let ?out = "concat (map (routed_message inproc_conversions) (handled_by as))"
  have start: "unsent S = []" "cv_map (cs_conv S) = inproc_conversions" "lock_inv S"
    unfolding assms(2) by (simp_all add: unsent_def conv_start_fields lock_inv_start)
  have inv: "routes_inv S as T" "complete_inv e S as T"
    using conv_run_invariants[OF assms(1) start(3,1)] by blast+
  have spec: "spec_run (cv_map (cs_conv S)) as = (inproc_conversions, map (routed_message inproc_conversions) (handled_by as))"
    using spec_run_fixed[OF assms(4)] start(2) by simp
  have egress: "filter (has_topic ''net-b-egress'') ?out =
      map (\<lambda>m. [''net-b-egress'', payload m]) (filter (has_topic ''net-a-ingress'') (handled_by as))"
    unfolding published_egress ingress_messages(1)[OF assms(5)] ..
  obtain blocks where "published T = concat blocks" "list_all2 prefix blocks (map (routed_message inproc_conversions) (handled_by as))"
    using inv(1) spec assms(3) unfolding routes_inv_def by auto
  then have "subseq (published T) ?out" using subseq_blocks by simp
  then have sub: "subseq (filter (has_topic ''net-b-egress'') (published T))
      (map (\<lambda>m. [''net-b-egress'', payload m]) (filter (has_topic ''net-a-ingress'') (handled_by as)))"
    unfolding egress[symmetric] by (rule subseq_filter)
  then have "set (filter (has_topic ''net-b-egress'') (published T)) \<subseteq>
      set (map (\<lambda>m. [''net-b-egress'', payload m]) (filter (has_topic ''net-a-ingress'') (handled_by as)))"
    by (rule subseq_set)
  then show "\<forall>m \<in> set (filter (has_topic ''net-b-egress'') (published T)). m = [''net-b-egress'', payload m]" by auto
  have "subseq (map payload (filter (has_topic ''net-b-egress'') (published T)))
      (map payload (filter (has_topic ''net-a-ingress'') (handled_by as)))"
    using subseq_map[OF sub, of payload] by (simp add: comp_def)
  then show "subseq (map payload (filter (has_topic ''net-b-egress'') (published T))) (map snd pieces)"
    using ingress_messages(2)[OF assms(5)] subseq_order.trans by blast
  assume "takes_all e (pub_socket (conv_pub S))" "pub_open (conv_pub T)" "\<not> crashed T" "unsent T = []"
  then have "published T = ?out" using inv(2) spec assms(3) by (simp add: complete_inv_def)
  then show "map payload (filter (has_topic ''net-b-egress'') (published T)) =
      map payload (filter (has_topic ''net-a-ingress'') (handled_by as))"
    using egress by (simp add: comp_def)
qed

section \<open>The broadcasts at the other end\<close>

lemma offered_sends:
  "distinct fds \<Longrightarrow> offered_to fd (map (\<lambda>k. SysSend k msg) fds) = (if fd \<in> set fds then [msg] else [])"
  by (induction fds) (auto simp: offered_to_def List.map_filter_def)

text \<open>One message: every client is offered it once or not at all.\<close>

lemma broadcast_offers:
  assumes "srv_inv e s h"
  obtains h' where "NetStack_onReceivedMessage e [topic, msg] ((s, n), h) = (Inr (), (s, n\<lparr>ns_udpTx := ns_udpTx n + 1\<rparr>), h')"
    and "srv_inv e s h'" and "offered_to fd h' \<in> {offered_to fd h, offered_to fd h @ [msg]}"
    and "\<forall>(k, c) \<in> set (srv_clients s). \<forall>h. sent_fully e msg c h \<Longrightarrow> fd \<in> handles s \<Longrightarrow> offered_to fd h' = offered_to fd h @ [msg]"
proof -
  define h1 where "h1 = log_info (''Received message '' @ msg @ '' on topic '' @ topic) h"
  define fds where "fds = take (Suc (delivered e msg (srv_clients s) h1)) (map fst (srv_clients s))"
  define h' where "h' = h1 @ map (\<lambda>k. SysSend k msg) fds"
  note run = conjunct1[OF sendBcast_prefix[OF assms h1_def, of "[]" n], folded fds_def, folded h'_def]
  have neutral: "list_all fd_neutral (map (\<lambda>k. SysSend k msg) fds)" by (simp add: list_all_iff)
  have "open_fds e h' = open_fds e h" unfolding h'_def open_fds_append_neutral[OF neutral] by (simp add: h1_def)
  then have inv: "srv_inv e s h'" using srv_inv_cong[OF assms] by simp
  have "distinct fds" unfolding fds_def using srv_invD(1)[OF assms] by (rule distinct_take)
  then have offers: "offered_to fd h' = offered_to fd h @ (if fd \<in> set fds then [msg] else [])"
    by (simp add: h'_def h1_def offered_sends)
  show thesis
  proof (rule that[OF run inv])
    show "offered_to fd h' \<in> {offered_to fd h, offered_to fd h @ [msg]}" using offers by simp
    assume full: "\<forall>(k, c) \<in> set (srv_clients s). \<forall>h. sent_fully e msg c h" and "fd \<in> handles s"
    have "delivered e msg cs h = length cs" if "\<forall>(k, c) \<in> set cs. \<forall>h. sent_fully e msg c h" for cs h
      using that by (induction e msg cs h rule: delivered.induct) auto
    then have "set fds = fst ` set (srv_clients s)" using full by (simp add: fds_def)
    then show "offered_to fd h' = offered_to fd h @ [msg]" using offers \<open>fd \<in> handles s\<close> by simp
  qed
qed

lemma broadcasts_offer:
  assumes "srv_inv e s h" and "\<forall>m \<in> set msgs. m = [topic, payload m]"
    and "for_each (NetStack_onReceivedMessage e) msgs ((s, n), h) = (r, (s', n'), h')"
  shows "r = Inr () \<and> s' = s \<and> (\<exists>got. offered_to fd h' = offered_to fd h @ got \<and> subseq got (map payload msgs)) \<and>
     ((\<forall>(k, c) \<in> set (srv_clients s). \<forall>m h. sent_fully e m c h) \<longrightarrow> fd \<in> handles s \<longrightarrow>
       offered_to fd h' = offered_to fd h @ map payload msgs)"
  using assms
proof (induction msgs arbitrary: n h)
  case (Cons m msgs)
  have m: "m = [topic, payload m]" using Cons.prems(2) by simp
  obtain h1 where step: "NetStack_onReceivedMessage e [topic, payload m] ((s, n), h) =
      (Inr (), (s, n\<lparr>ns_udpTx := ns_udpTx n + 1\<rparr>), h1)" "srv_inv e s h1"
    and offer: "offered_to fd h1 \<in> {offered_to fd h, offered_to fd h @ [payload m]}"
      "\<forall>(k, c) \<in> set (srv_clients s). \<forall>h. sent_fully e (payload m) c h \<Longrightarrow> fd \<in> handles s \<Longrightarrow>
        offered_to fd h1 = offered_to fd h @ [payload m]"
    by (rule broadcast_offers[OF Cons.prems(1)]) blast
  have "for_each (NetStack_onReceivedMessage e) msgs ((s, n\<lparr>ns_udpTx := ns_udpTx n + 1\<rparr>), h1) = (r, (s', n'), h')"
    using Cons.prems(3) step(1) m by (metis for_each.simps(2) andThen_Inr)
  note IH = Cons.IH[OF step(2) _ this]
  have tail: "\<forall>m \<in> set msgs. m = [topic, payload m]" using Cons.prems(2) by simp
  obtain got where got: "offered_to fd h' = offered_to fd h1 @ got" "subseq got (map payload msgs)"
    using IH[OF tail] by blast
  have "\<exists>got. offered_to fd h' = offered_to fd h @ got \<and> subseq got (map payload (m # msgs))"
  proof (cases "offered_to fd h1 = offered_to fd h")
    case True
    then show ?thesis using got by (intro exI[where x = got]) auto
  next
    case False
    then show ?thesis using got offer(1) by (intro exI[where x = "payload m # got"]) simp
  qed
  moreover have "offered_to fd h' = offered_to fd h @ map payload (m # msgs)"
    if full: "\<forall>(k, c) \<in> set (srv_clients s). \<forall>m h. sent_fully e m c h" and "fd \<in> handles s"
  proof -
    have "offered_to fd h1 = offered_to fd h @ [payload m]" using offer(2) that by blast
    moreover have "offered_to fd h' = offered_to fd h1 @ map payload msgs" using IH[OF tail] that by blast
    ultimately show ?thesis by simp
  qed
  ultimately show ?case using IH[OF tail] by blast
qed auto

section \<open>From client to client\<close>

lemma data_on_topic:
  assumes "system_run e (NetStack_callbacks e) (pc0, ps0, s, n, h) as (pc, ps, s', n', h')"
    and "in_hand pc0 = []" and "\<not> failed pc" and "ns_pubTopics n = [topic]"
    and "received e h = []" and "sent_on (net_socket n) h = []"
  obtains pieces where "received e h' = pieces @ in_hand pc"
    and "sent_on (net_socket n) h' = map (\<lambda>(_, d). [topic, d]) pieces"
proof -
  have one: "relay_of [topic] pieces = map (\<lambda>(_, d). [topic, d]) pieces" for pieces
    by (induction pieces) (auto simp: relay_of_def)
  from system_run_relays[OF assms(1,2)] assms(3-6) show thesis
    by (auto simp: relays_def relaying_def one intro: that)
qed

text \<open>C15: two groups of TCP clients talk to each other through the converter, whatever the threads of
  the three processes do. If the topics deliver in order, perhaps losing messages, then every
  client of the one net-stack is offered pieces of data that were read from the clients of the
  other, in the order in which they were read, each at most once and nothing else; if
  they lose none, every process has done what it has taken and the clients keep up, each client is
  offered all of it.\<close>

theorem bridge_carries_streams:
  assumes "system_run ea (NetStack_callbacks ea) (pc0, ps0, sa, a, ha) acts (pc, ps, sa', a', ha')"
    and "in_hand pc0 = []" and "\<not> failed pc" and "ns_pubTopics a = [''net-a-ingress'']"
    and "received ea ha = []" and "sent_on (net_socket a) ha = []"
    and "conv_run ec S as T" and "S = conv_start ec sock name pubs sub rcv topics inproc_conversions hc"
    and "published S = []" and "\<forall>act \<in> set as. keeps_map act"
    and "subseq (filter (has_topic ''net-a-ingress'') (handled_by as)) (sent_on (net_socket a) ha')"
    and "subseq msgs (filter (has_topic ''net-b-egress'') (published T))"
    and "srv_inv eb sb hb" and "for_each (NetStack_onReceivedMessage eb) msgs ((sb, b), hb) = (r, (sb', b'), hb')"
    and "fd \<in> handles sb"
  shows "(\<exists>got. offered_to fd hb' = offered_to fd hb @ got \<and> subseq got (map snd (received ea ha'))) \<and>
     (filter (has_topic ''net-a-ingress'') (handled_by as) = sent_on (net_socket a) ha' \<and>
      msgs = filter (has_topic ''net-b-egress'') (published T) \<and> in_hand pc = [] \<and>
      takes_all ec (pub_socket (conv_pub S)) \<and> pub_open (conv_pub T) \<and> \<not> crashed T \<and> unsent T = [] \<and>
      (\<forall>(k, c) \<in> set (srv_clients sb). \<forall>m h. sent_fully eb m c h) \<longrightarrow>
        offered_to fd hb' = offered_to fd hb @ map snd (received ea ha'))"
proof -
  obtain pieces where pieces: "received ea ha' = pieces @ in_hand pc"
    "sent_on (net_socket a) ha' = map (\<lambda>(_, d). [''net-a-ingress'', d]) pieces"
    by (rule data_on_topic[OF assms(1-6)])
  note conv = converter_between[OF assms(7-10) assms(11)[unfolded pieces(2)]]
  have "set msgs \<subseteq> set (filter (has_topic ''net-b-egress'') (published T))" by (rule subseq_set[OF assms(12)])
  then have "\<forall>m \<in> set msgs. m = [''net-b-egress'', payload m]" using conv(1) by blast
  note offers = broadcasts_offer[OF assms(13) this assms(14), of fd]
  obtain got where got: "offered_to fd hb' = offered_to fd hb @ got" "subseq got (map payload msgs)"
    using offers by blast
  have "subseq (map payload msgs) (map payload (filter (has_topic ''net-b-egress'') (published T)))"
    by (rule subseq_map[OF assms(12)])
  then have "subseq got (map snd pieces)" using got(2) conv(2) subseq_order.trans by blast
  moreover have "subseq (map snd pieces) (map snd (received ea ha'))" unfolding pieces(1) map_append
    by (rule prefix_imp_subseq) simp
  ultimately have safe: "\<exists>got. offered_to fd hb' = offered_to fd hb @ got \<and> subseq got (map snd (received ea ha'))"
    using got(1) subseq_order.trans by blast
  have eq: "map payload (map (\<lambda>(_, d). [''net-a-ingress'', d]) pieces) = map snd pieces" by (auto simp: case_prod_unfold)
  show ?thesis
  proof (intro conjI impI, rule safe, elim conjE)
    assume all: "filter (has_topic ''net-a-ingress'') (handled_by as) = sent_on (net_socket a) ha'"
      "msgs = filter (has_topic ''net-b-egress'') (published T)" "in_hand pc = []"
      "takes_all ec (pub_socket (conv_pub S))" "pub_open (conv_pub T)" "\<not> crashed T" "unsent T = []"
      "\<forall>(k, c) \<in> set (srv_clients sb). \<forall>m h. sent_fully eb m c h"
    have "map payload msgs = map snd (received ea ha')"
      unfolding all(2) conv(3)[OF all(4-7)] unfolding all(1) pieces(2) eq using pieces(1) all(3) by simp
    then show "offered_to fd hb' = offered_to fd hb @ map snd (received ea ha')"
      using offers all(8) assms(15) by simp
  qed
qed

text \<open>One message all the way: a client of the one net-stack sends five bytes.\<close>

definition bridge_net :: NetStack where
  "bridge_net = chatty_net\<lparr>ns_pubTopics := [''net-a-ingress'']\<rparr>"

lemma bridge_net_fields:
  "pub_open (zs_publisher (ns_base bridge_net))" "net_socket bridge_net = 0" "ns_pubTopics bridge_net = [''net-a-ingress'']"
  using chatty_net_fields by (simp_all add: bridge_net_def)

definition bridge_env :: env where
  "bridge_env = quiet_env\<lparr>zmq_pollin := (\<lambda>_ _. True), zmq_frames := (\<lambda>_ _. [''net-a-ingress'', ''hello''])\<rparr>"

definition bridge_system :: conv_system where
  "bridge_system = conv_start bridge_env 0 ''conv'' [''p''] ''s'' ''r'' [''net-a-ingress''] inproc_conversions []"

lemma bridge_handle:
  "\<exists>s' n' h'. handle_fd chatty_env (NetStack_callbacks chatty_env) 4 (one_client, bridge_net, []) =
     (Inr (), s', n', h') \<and> received chatty_env h' = [(4, ''hello'')]"
  using bridge_net_fields
  by (simp add: handle_fd_def one_client_def receive_from_def core_simps chatty_env_def busy_env_def quiet_env_def
      NetStack_callbacks_def NetStack_onReceiveClientData_def ZmqStack_Publish_all_def publishMsgs_def pub_send_def
      zmq_defs Let_def MAX_PACKET_SIZE_def received_def received_by_def)

lemma bridge_play:
  "\<exists>S. play bridge_env (service_turns @ sub_turns 8) bridge_system = Some
      ([Own, Own, Own, Own] @ replicate 6 (Move SubThread) @ [Route SubThread [''net-a-ingress'', ''hello'']] @ [Move SubThread], S) \<and>
     published S = [[''net-b-egress'', ''hello'']] \<and> unsent S = [] \<and> pub_open (conv_pub S) \<and> \<not> crashed S"
  by (simp add: play_simps bridge_system_def bridge_env_def conv_start_def ConvStack_new_def ZmqStack_new_def
      Publisher_new_def Subscriber_new_def Receiver_new_def quiet_env_def service_turns_def inproc_conversions_def
      sent_on_def unsent_def List.map_filter_def)

theorem bridge_carries_streams_witness:
  "\<exists>acts sa' a' ha' as T n' hb'.
     system_run chatty_env (NetStack_callbacks chatty_env) (Scanning [4], [], one_client, bridge_net, []) acts
       (Scanning [], [], sa', a', ha') \<and>
     conv_run bridge_env bridge_system as T \<and> handled_by as = [[''net-a-ingress'', ''hello'']] \<and>
     for_each (NetStack_onReceivedMessage quiet_env) (published T) ((one_client, chatty_net), one_client_history) =
       (Inr (), (one_client, n'), hb') \<and>
     offered_to 4 hb' = [''hello'']"
proof -
  obtain s' n' h' where handle: "handle_fd chatty_env (NetStack_callbacks chatty_env) 4 (one_client, bridge_net, []) =
     (Inr (), s', n', h')" and got: "received chatty_env h' = [(4, ''hello'')]"
    using bridge_handle by blast
  obtain m where "thread_run m chatty_env (NetStack_callbacks chatty_env) (Scanning [4], one_client, bridge_net, []) =
      (Scanning [], s', n', h')"
    using handle_fd_run[of chatty_env "NetStack_callbacks chatty_env" 4 "[]" "(one_client, bridge_net, [])"] handle
    by (auto simp: ended_def)
  from thread_run_system[OF this] obtain acts where
    A: "system_run chatty_env (NetStack_callbacks chatty_env) (Scanning [4], [], one_client, bridge_net, []) acts
       (Scanning [], [], s', n', h')" by blast
  obtain T where play: "play bridge_env (service_turns @ sub_turns 8) bridge_system = Some
      ([Own, Own, Own, Own] @ replicate 6 (Move SubThread) @ [Route SubThread [''net-a-ingress'', ''hello'']] @ [Move SubThread], T)"
      (is "_ = Some (?as, T)")
    and T: "published T = [[''net-b-egress'', ''hello'']]" "unsent T = []" "pub_open (conv_pub T)" "\<not> crashed T"
    using bridge_play by blast
  note C = play_run[OF play]
  have handled: "handled_by ?as = [[''net-a-ingress'', ''hello'']]" "\<forall>act \<in> set ?as. keeps_map act"
    by (simp_all add: numeral_eq_Suc)
  have sent: "sent_on (net_socket bridge_net) h' = [[''net-a-ingress'', ''hello'']]"
    by (rule data_on_topic[OF A]) (use bridge_net_fields got in \<open>auto simp: sent_on_def List.map_filter_def\<close>)
  have inv: "srv_inv quiet_env one_client one_client_history"
    by (rule one_client_inv) simp
  obtain hb' where "NetStack_onReceivedMessage quiet_env [''net-b-egress'', ''hello''] ((one_client, chatty_net), one_client_history) =
      (Inr (), (one_client, chatty_net\<lparr>ns_udpTx := ns_udpTx chatty_net + 1\<rparr>), hb')"
    by (rule broadcast_offers[OF inv])
  then have B: "for_each (NetStack_onReceivedMessage quiet_env) (published T) ((one_client, chatty_net), one_client_history) =
      (Inr (), (one_client, chatty_net\<lparr>ns_udpTx := ns_udpTx chatty_net + 1\<rparr>), hb')"
    unfolding T(1) by simp
  have start: "published bridge_system = []" "received chatty_env [] = []" "sent_on (net_socket bridge_net) [] = []"
    by (simp_all add: bridge_system_def conv_start_def ConvStack_new_def ZmqStack_new_def Publisher_new_def zmq_defs
        bridge_env_def quiet_env_def sent_on_def List.map_filter_def)
  have takes: "takes_all bridge_env k" for k by (simp add: takes_all_def bridge_env_def quiet_env_def)
  have full: "\<forall>(k, c) \<in> set (srv_clients one_client). \<forall>m h. sent_fully quiet_env m c h"
    by (simp add: sent_fully_def quiet_env_def)
  have "offered_to 4 hb' = offered_to 4 one_client_history @ map snd (received chatty_env h')"
    using bridge_carries_streams[OF A _ _ bridge_net_fields(3) start(2,3) C bridge_system_def start(1) handled(2) _ _ inv B, of 4]
      handled(1) sent T takes full by (simp add: one_client_def)
  then have "offered_to 4 hb' = [''hello'']"
    using got by (simp add: offered_to_def one_client_history_def List.map_filter_def)
  with A C handled(1) B show ?thesis by blast
qed

end
