(* ===== verification/TcpClient.thy ===== *)
theory TcpClient
  imports SocketCore
begin

text \<open>
  \<open>common/TcpClient.h\<close>: a TCP connection to a server, the thread that receives from it, and
  what the class promises its callback recipient: every piece of data the kernel delivers is
  handed on once and in order.
\<close>

section \<open>State\<close>

record TcpClient =
  tc_sockfd :: int
  tc_stop :: bool
  tc_server :: sockaddr_in
  tc_joinable :: bool
  tc_options :: SocketOpt

definition TcpClient_init :: "SocketOpt option \<Rightarrow> sockaddr_in \<Rightarrow> TcpClient" where
  "TcpClient_init options uninitialised =
     \<lparr>tc_sockfd = INVALID_SOCKET, tc_stop = False, tc_server = uninitialised, tc_joinable = False,
      tc_options = (case options of None \<Rightarrow> SocketOpt_init | Some opt \<Rightarrow> opt)\<rparr>"

section \<open>connectTo, sendMsg, finish\<close>

text \<open>
  \<open>connectTo\<close>: a descriptor left by an earlier call is forgotten at once; each failed call
  returns with the new one still in \<open>m_sockfd\<close>. The host is a C string: for a null pointer
  \<open>getaddrinfo\<close>, given neither node nor service, fails, and printing it with \<open>%s\<close> is undefined.
\<close>

definition connectTo ::
  "env \<Rightarrow> string option \<Rightarrow> 16 word \<Rightarrow> TcpClient \<Rightarrow> history \<Rightarrow> SocketRet outcome \<times> TcpClient \<times> history" where
  "connectTo e remoteIp remotePort t h =
     (let t = t\<lparr>tc_sockfd := INVALID_SOCKET\<rparr>;
          (result, h) = core_Initialize e h in
      if result \<noteq> 0 then
        (Inr (failure (snprintf (''Error: Socket initialization failed: '' @ show_int result))), t, h)
      else
      let (fd, h) = core_Socket e AF_INET SOCK_STREAM 0 h;
          t = t\<lparr>tc_sockfd := fd\<rparr> in
      if fd = INVALID_SOCKET then
        (Inr (failure (snprintf (''Error: Failed to create socket: '' @ show_int (errno_of e h)))), t, h)
      else
      let (result, h) = core_SetSockOpt e fd SO_RCVBUF (m_rxBufSize (tc_options t)) h in
      if result < 0 then
        (Inr (failure (snprintf (''Error: setsockopt(SO_REUSEADDR) failed: '' @ show_int (errno_of e h)))), t, h)
      else
      let (result, h) = core_SetSockOpt e fd SO_SNDBUF (m_txBufSize (tc_options t)) h in
      if result < 0 then
        (Inr (failure (snprintf (''Error: setsockopt(SO_SNDBUF) failed: '' @ show_int (errno_of e h)))), t, h)
      else
      (case remoteIp of
         None \<Rightarrow> (Inl (Undefined ''%s of a null pointer''), t, h)
       | Some host \<Rightarrow>
         let ((result, ip), h) = lookupHost e host (sin_addr (tc_server t)) h;
             t = t\<lparr>tc_server := (tc_server t)\<lparr>sin_addr := ip\<rparr>\<rparr> in
         if result \<noteq> 0 then
           (Inr (failure (snprintf (''Failed to resolve hostname '' @ host))), t, h)
         else
         let t = t\<lparr>tc_server := (tc_server t)\<lparr>sin_port := htons remotePort\<rparr>\<rparr>;
             (connectRet, h) = core_Connect e fd (tc_server t) h in
         if connectRet = -1 then
           (Inr (failure (snprintf (''Error: connect() failed errno '' @ show_int (errno_of e h)))), t, h)
         else if tc_joinable t then (Inl (Terminated ''assignment to a joinable std::thread''), t, h)
         else (Inr success, t\<lparr>tc_joinable := True\<rparr>, h)))"

definition TcpClient_sendMsg :: "env \<Rightarrow> string \<Rightarrow> TcpClient \<Rightarrow> history \<Rightarrow> SocketRet \<times> history" where
  "TcpClient_sendMsg e msg t h =
     (let (numBytesSent, h) = core_Send e (tc_sockfd t) msg h in
      if numBytesSent < 0 then
        (failure (snprintf (''Error: send() failed: '' @ show_int (errno_of e h))), h)
      else if nat numBytesSent < length msg then
        (failure (snprintf (''Only '' @ show_int numBytesSent @ '' bytes out of '' @
           show_nat (length msg) @ '' was sent to client'')), h)
      else (success, h))"

definition TcpClient_finish :: "env \<Rightarrow> TcpClient \<Rightarrow> history \<Rightarrow> TcpClient \<times> history" where
  "TcpClient_finish e t h =
     (let t = t\<lparr>tc_stop := True, tc_joinable := False\<rparr>;
          h = (if tc_sockfd t \<noteq> INVALID_SOCKET then snd (core_Close e (tc_sockfd t) h) else h)
      in (t\<lparr>tc_sockfd := INVALID_SOCKET\<rparr>, h))"

definition TcpClient_delete :: "env \<Rightarrow> TcpClient \<Rightarrow> history \<Rightarrow> history" where
  "TcpClient_delete e t h = snd (TcpClient_finish e t h)"

section \<open>The receive thread\<close>

type_synonym 'c cl_state = "TcpClient \<times> 'c \<times> history"

record 'c client_callbacks =
  onReceiveData :: "string \<Rightarrow> 'c cl_state \<Rightarrow> unit outcome \<times> 'c cl_state"
  onDisconnect :: "SocketRet \<Rightarrow> 'c cl_state \<Rightarrow> unit outcome \<times> 'c cl_state"

text \<open>
  The body of \<open>ReceiveTask\<close>'s loop. \<open>True\<close> is "go on with the loop", \<open>False\<close> a \<open>break\<close>.
\<close>

definition receive_pass :: "env \<Rightarrow> 'c client_callbacks \<Rightarrow> 'c cl_state \<Rightarrow> bool outcome \<times> 'c cl_state" where
  "receive_pass e cb st =
     (case st of (t, c, h) \<Rightarrow>
      (case FD_SET (tc_sockfd t) {} of
         Inl err \<Rightarrow> (Inl err, t, c, h)
       | Inr fds \<Rightarrow>
         let ((selectRet, fds), h) = core_Select e (tc_sockfd t + 1) fds h in
         if selectRet \<le> 0 then (Inr (\<not> tc_stop t), t, c, h)
         else if tc_sockfd t \<in> fds then
           let ((numOfBytesReceived, data), h) = core_Recv e (tc_sockfd t) MAX_PACKET_SIZE h in
           if numOfBytesReceived < 1 then
             let t = t\<lparr>tc_stop := True\<rparr>;
                 ret = failure (if numOfBytesReceived = 0 then ''Server closed connection''
                                else snprintf (''Error: recv() failed: '' @ show_int (errno_of e h)))
             in andThen (onDisconnect cb ret (t, c, h)) (\<lambda>_ st. (Inr False, st))
           else andThen (onReceiveData cb data (t, c, h)) (\<lambda>_ st. (Inr True, st))
         else (Inr True, t, c, h)))"

text \<open>
  \<open>ReceiveTask\<close> for at most \<open>fuel\<close> iterations: \<open>True\<close> when the loop has ended, \<open>False\<close> when
  it is still running.
\<close>

fun ReceiveTask :: "nat \<Rightarrow> env \<Rightarrow> 'c client_callbacks \<Rightarrow> 'c cl_state \<Rightarrow> bool outcome \<times> 'c cl_state" where
  "ReceiveTask 0 e cb st = (Inr (tc_stop (fst st)), st)"
| "ReceiveTask (Suc fuel) e cb st =
     (if tc_stop (fst st) then (Inr True, st)
      else andThen (receive_pass e cb st)
             (\<lambda>go st. if go then ReceiveTask fuel e cb st else (Inr True, st)))"

section \<open>The contract of the callback recipient\<close>

text \<open>
  A recipient whose record of the data it has been given can be read off its state and the
  history: data extends the record by one entry, the disconnection leaves it, and neither
  touches the client or reads a socket. Calls of the socket interface leave the record alone.
\<close>

locale stream_listener =
  fixes cb :: "'c client_callbacks" and record_of :: "'c \<Rightarrow> history \<Rightarrow> string list"
  assumes data_law:
      "onReceiveData cb data (t, c, h) = (Inr (), t', c', h') \<Longrightarrow>
         t' = t \<and> record_of c' h' = record_of c h @ [data] \<and> received e h' = received e h"
    and disconnect_law:
      "onDisconnect cb ret (t, c, h) = (Inr (), t', c', h') \<Longrightarrow>
         t' = t \<and> record_of c' h' = record_of c h \<and> received e h' = received e h"
    and socket_law:
      "record_of c (h @ [SysSelect n fds]) = record_of c h"
      "record_of c (h @ [SysRecv fd len]) = record_of c h"
begin

text \<open>The record has grown by exactly what was received in the meantime.\<close>

definition in_step :: "env \<Rightarrow> string list \<Rightarrow> (int \<times> string) list \<Rightarrow> 'c cl_state \<Rightarrow> bool" where
  "in_step e rec0 rcv0 st \<longleftrightarrow> (case st of (t, c, h) \<Rightarrow>
     \<exists>new. received e h = rcv0 @ new \<and> record_of c h = rec0 @ map snd new)"

lemma in_step_select: "in_step e r0 k0 (t, c, h) \<Longrightarrow> in_step e r0 k0 (t', c, h @ [SysSelect n fds])"
  by (simp add: in_step_def socket_law received_snoc)

lemma in_step_recv_none:
  "in_step e r0 k0 (t, c, h) \<Longrightarrow> received_by e h (SysRecv fd len) = [] \<Longrightarrow>
     in_step e r0 k0 (t', c, h @ [SysRecv fd len])"
  by (simp add: in_step_def socket_law received_snoc)

lemma in_step_data:
  assumes "in_step e r0 k0 (t, c, h)" and "received_by e h (SysRecv fd len) = [(fd, data)]"
    and "onReceiveData cb data (t, c, h @ [SysRecv fd len]) = (Inr (), t', c', h')"
  shows "in_step e r0 k0 (t', c', h') \<and> t' = t"
proof -
  from data_law[OF assms(3), of e] have eff: "t' = t"
    "record_of c' h' = record_of c h @ [data]" "received e h' = received e h @ [(fd, data)]"
    by (simp_all add: socket_law received_snoc assms(2))
  from assms(1) obtain new where "received e h = k0 @ new" "record_of c h = r0 @ map snd new"
    by (auto simp: in_step_def)
  with eff have "received e h' = k0 @ (new @ [(fd, data)])"
    "record_of c' h' = r0 @ map snd (new @ [(fd, data)])" by simp_all
  with eff(1) show ?thesis unfolding in_step_def by blast
qed

lemma in_step_disconnect:
  "in_step e r0 k0 (t, c, h) \<Longrightarrow> onDisconnect cb ret (t, c, h) = (Inr (), t', c', h') \<Longrightarrow>
     in_step e r0 k0 (t', c', h') \<and> t' = t"
  using disconnect_law[of ret t c h t' c' h' e] by (simp add: in_step_def)

lemma receive_pass_in_step:
  assumes step: "in_step e r0 k0 (t, c, h)" and run: "receive_pass e cb (t, c, h) = (Inr go, t', c', h')"
  shows "in_step e r0 k0 (t', c', h') \<and> tc_sockfd t' = tc_sockfd t \<and> (\<not> tc_stop t \<longrightarrow> tc_stop t' = (\<not> go))"
proof -
  let ?fd = "tc_sockfd t" and ?h1 = "h @ [SysSelect (tc_sockfd t + 1) {tc_sockfd t}]"
  let ?t = "t\<lparr>tc_stop := True\<rparr>" and ?h2 = "?h1 @ [SysRecv (tc_sockfd t) MAX_PACKET_SIZE]"
  have h1: "in_step e r0 k0 (t, c, ?h1)" by (rule in_step_select[OF step])
  from run consider
      (idle) "t' = t" "c' = c" "h' = ?h1" "\<not> tc_stop t \<longrightarrow> go"
    | (gone) ret where "received_by e ?h1 (SysRecv ?fd MAX_PACKET_SIZE) = []" "\<not> go"
        "onDisconnect cb ret (?t, c, ?h2) = (Inr (), t', c', h')"
    | (data) data where "received_by e ?h1 (SysRecv ?fd MAX_PACKET_SIZE) = [(?fd, data)]" "go"
        "onReceiveData cb data (t, c, ?h2) = (Inr (), t', c', h')"
    by (auto simp: receive_pass_def FD_SET_def core_simps Let_def received_by_def andThen_ok_iff min_is_0
        split: if_splits option.splits)
  then show ?thesis
  proof cases
    case idle
    then show ?thesis using h1 by simp
  next
    case gone
    have "in_step e r0 k0 (?t, c, ?h2)" by (rule in_step_recv_none[OF h1 gone(1)])
    from in_step_disconnect[OF this gone(3)] show ?thesis using gone(2) by auto
  next
    case data
    from in_step_data[OF h1 data(1) data(3)] show ?thesis using data(2) by auto
  qed
qed

lemma ReceiveTask_in_step:
  "in_step e r0 k0 (t, c, h) \<Longrightarrow> ReceiveTask fuel e cb (t, c, h) = (Inr fin, t', c', h') \<Longrightarrow>
     in_step e r0 k0 (t', c', h') \<and> fin = tc_stop t'"
proof (induction fuel arbitrary: t c h)
  case 0
  then show ?case by auto
next
  case (Suc fuel)
  show ?case
  proof (cases "tc_stop t")
    case True
    then show ?thesis using Suc.prems by auto
  next
    case False
    then obtain go t1 c1 h1 where pass: "receive_pass e cb (t, c, h) = (Inr go, t1, c1, h1)"
      and rest: "(if go then ReceiveTask fuel e cb (t1, c1, h1) else (Inr True, t1, c1, h1)) = (Inr fin, t', c', h')"
      using Suc.prems(2) by (auto simp: andThen_ok_iff)
    note one = receive_pass_in_step[OF Suc.prems(1) pass]
    show ?thesis
    proof (cases go)
      case True
      then show ?thesis using Suc.IH[of t1 c1 h1] one rest by simp
    next
      case False
      then show ?thesis using one rest \<open>\<not> tc_stop t\<close> by auto
    qed
  qed
qed

end

section \<open>Reconnecting\<close>

lemma connectTo_stop:
  assumes "connectTo e host port t h = (Inr ret, t', h')"
  shows "tc_stop t' = tc_stop t" and "m_success ret \<Longrightarrow> \<not> tc_joinable t \<and> tc_joinable t'"
    and "\<not> m_success ret \<Longrightarrow> tc_joinable t' = tc_joinable t"
  using assms
  by (auto simp: connectTo_def core_simps lookupHost_def Let_def split: if_splits option.splits list.splits prod.splits)

end
