(* ===== verification/NetDriver.thy ===== *)
theory NetDriver
  imports TcpClient Config
begin

text \<open>
  \<open>net-driver/NetDriver.cpp\<close>: a TCP client that sends the lines of its standard input and
  logs what it receives. The application keeps no state of its own; its record of received
  data is its log.
\<close>

section \<open>ClientApp\<close>

definition ClientApp_new ::
  "env \<Rightarrow> sockaddr_in \<Rightarrow> string option \<Rightarrow> 16 word \<Rightarrow> history \<Rightarrow> unit outcome \<times> TcpClient \<times> history" where
  "ClientApp_new e uninitialised remoteAddr port h =
     (case connectTo e remoteAddr port (TcpClient_init None uninitialised) h of
        (Inl err, t, h) \<Rightarrow> (Inl err, t, h)
      | (Inr ret, t, h) \<Rightarrow>
          (Inr (), t,
           if m_success ret
           then log_info (''Connecting to '' @ (case remoteAddr of Some a \<Rightarrow> a | None \<Rightarrow> []) @ '':'' @ show_nat (unat port)) h
           else log_error (''Error: '' @ m_msg ret) h))"

definition ClientApp_sendMsg :: "env \<Rightarrow> string \<Rightarrow> TcpClient \<Rightarrow> history \<Rightarrow> history" where
  "ClientApp_sendMsg e data t h =
     (let (ret, h) = TcpClient_sendMsg e data t h
      in if m_success ret then h else log_error (''Send Error: '' @ m_msg ret) h)"

definition ClientApp_onReceiveData :: "string \<Rightarrow> unit cl_state \<Rightarrow> unit outcome \<times> unit cl_state" where
  "ClientApp_onReceiveData data st = (case st of (t, c, h) \<Rightarrow> (Inr (), t, c, log_info (''Received: '' @ data) h))"

definition ClientApp_onDisconnect :: "SocketRet \<Rightarrow> unit cl_state \<Rightarrow> unit outcome \<times> unit cl_state" where
  "ClientApp_onDisconnect ret st = (case st of (t, c, h) \<Rightarrow> (Inr (), t, c, log_info ''Disconnected'' h))"

definition ClientApp_callbacks :: "unit client_callbacks" where
  "ClientApp_callbacks = \<lparr>onReceiveData = ClientApp_onReceiveData, onDisconnect = ClientApp_onDisconnect\<rparr>"

text \<open>The data reported in the log.\<close>

fun reported_line :: "call \<Rightarrow> string list" where
  "reported_line (Log Info m) =
     (if take 10 m = ''Received: '' then [drop 10 m] else [])"
| "reported_line _ = []"

definition reported :: "history \<Rightarrow> string list" where
  "reported h = concat (map reported_line h)"

interpretation driver_listener: stream_listener ClientApp_callbacks "\<lambda>_. reported"
  by unfold_locales
     (auto simp: ClientApp_callbacks_def ClientApp_onReceiveData_def ClientApp_onDisconnect_def
       reported_def log_info_def received_snoc)

section \<open>main\<close>

record DriverConfig =
  drv_addr :: "string option"
  drv_port :: "16 word"
  drv_size :: "64 word"
  drv_name :: string

definition driver_defaults :: DriverConfig where
  "driver_defaults = \<lparr>drv_addr = None, drv_port = 0, drv_size = 1472, drv_name = ''udp-driver''\<rparr>"

text \<open>The \<open>switch\<close> has no \<open>default\<close>: \<open>-l\<close> is accepted and ignored.\<close>

definition driver_option :: "char \<Rightarrow> DriverConfig handler" where
  "driver_option c =
     (if c = CHR ''a'' then set_text (\<lambda>v cfg. cfg\<lparr>drv_addr := Some v\<rparr>)
      else if c = CHR ''p'' then set_stoul (\<lambda>v cfg. cfg\<lparr>drv_port := ucast v\<rparr>)
      else if c = CHR ''n'' then set_text (\<lambda>v cfg. cfg\<lparr>drv_name := v\<rparr>)
      else if c = CHR ''s'' then set_stoul (\<lambda>v cfg. cfg\<lparr>drv_size := v\<rparr>)
      else if c = CHR 0x3F then usage_exit
      else set_text (\<lambda>_ cfg. cfg))"

text \<open>
  The fill of the \<open>max\<close> command: \<open>size - (name.size() + 1)\<close> in 64-bit unsigned arithmetic, and
  \<open>std::string(n, 'X')\<close>, which throws past \<open>max_size()\<close>.
\<close>

definition string_max_size :: nat where "string_max_size = 2 ^ 63 - 2"

definition max_fill :: "DriverConfig \<Rightarrow> string outcome" where
  "max_fill cfg =
     (let n = drv_size cfg - (of_nat (length (drv_name cfg)) + 1)
      in if string_max_size < unat n then Inl (StdException ''length_error'')
         else Inr (replicate (unat n) (CHR ''X'')))"

text \<open>One line of input; \<open>True\<close> is \<open>break\<close>.\<close>

definition driver_line :: "env \<Rightarrow> DriverConfig \<Rightarrow> TcpClient \<Rightarrow> string \<Rightarrow> history \<Rightarrow> bool outcome \<times> history" where
  "driver_line e cfg t raw h =
     (if raw = ''quit'' then (Inr True, h)
      else case (if raw = ''max'' then max_fill cfg else Inr raw) of
             Inl err \<Rightarrow> (Inl err, h)
           | Inr raw \<Rightarrow> (Inr False, ClientApp_sendMsg e (drv_name cfg @ '':'' @ raw) t h))"

text \<open>The input loop for at most \<open>fuel\<close> lines: \<open>True\<close> when it has been left.\<close>

fun driver_loop :: "nat \<Rightarrow> env \<Rightarrow> DriverConfig \<Rightarrow> TcpClient \<Rightarrow> string list \<Rightarrow> history \<Rightarrow> bool outcome \<times> history" where
  "driver_loop 0 e cfg t stdin h = (Inr False, h)"
| "driver_loop (Suc fuel) e cfg t stdin h =
     (let (raw, stdin) = read_line stdin
      in andThen (driver_line e cfg t raw h)
           (\<lambda>leave h. if leave then (Inr True, h) else driver_loop fuel e cfg t stdin h))"

text \<open>\<open>main\<close>, the receive thread aside; \<open>delete app\<close> destroys the client, which finishes it (\<open>TcpClient_delete\<close>).\<close>

definition driver_main ::
  "nat \<Rightarrow> env \<Rightarrow> sockaddr_in \<Rightarrow> (char \<times> string) list \<Rightarrow> string list \<Rightarrow> history \<Rightarrow> bool outcome \<times> history" where
  "driver_main fuel e uninitialised opts stdin h =
     (case parse_options driver_option opts driver_defaults of
        (Inl err, _) \<Rightarrow> (Inl err, h)
      | (Inr _, cfg) \<Rightarrow>
          (case ClientApp_new e uninitialised (drv_addr cfg) (drv_port cfg) h of
             (Inl err, t, h) \<Rightarrow> (Inl err, h)
           | (Inr _, t, h) \<Rightarrow>
               andThen (driver_loop fuel e cfg t stdin h)
                 (\<lambda>left h. (Inr left, if left then TcpClient_delete e t h else h))))"

section \<open>Properties\<close>

text \<open>C19: nothing is lost, repeated or reordered between the server and the application. The
  data the receive thread has logged is exactly the data its \<open>recv\<close> calls have delivered, in
  their order, however long the thread runs; and when it has ended, \<open>m_stop\<close> is set.\<close>

theorem client_reports_all_received:
  assumes "ReceiveTask fuel e ClientApp_callbacks (t, (), h) = (Inr fin, t', (), h')"
  shows "\<exists>new. received e h' = received e h @ new \<and> reported h' = reported h @ map snd new \<and>
     fin = tc_stop t'"
proof -
  have "driver_listener.in_step e (reported h) (received e h) (t, (), h)"
    by (simp add: driver_listener.in_step_def)
  from driver_listener.ReceiveTask_in_step[OF this assms] show ?thesis
    by (auto simp: driver_listener.in_step_def)
qed

text \<open>A server that sends two pieces and then closes the connection.\<close>

definition talking_env :: env where
  "talking_env = quiet_env\<lparr>int_result := (\<lambda>h c. case c of SysSelect _ _ \<Rightarrow> 1 | _ \<Rightarrow> quiet_int h c),
     ready_fds := (\<lambda>_. {3}),
     recv_bytes := (\<lambda>h _. if length h < 2 then Some ''one'' else if length h < 5 then Some ''two'' else Some [])\<rparr>"

definition connected_client :: TcpClient where
  "connected_client = (TcpClient_init None \<lparr>sin_addr = (0, 0, 0, 0), sin_port = 0\<rparr>)
     \<lparr>tc_sockfd := 3, tc_joinable := True\<rparr>"

lemma talking_run:
  "\<exists>t' h'. ReceiveTask 3 talking_env ClientApp_callbacks (connected_client, (), []) = (Inr True, t', (), h') \<and>
     received talking_env h' = [(3, ''one''), (3, ''two'')]"
  by (simp add: numeral_3_eq_3 receive_pass_def talking_env_def connected_client_def TcpClient_init_def FD_SET_def FD_SETSIZE_def
      core_simps ClientApp_callbacks_def ClientApp_onReceiveData_def ClientApp_onDisconnect_def log_info_def
      MAX_PACKET_SIZE_def received_def received_by_def quiet_env_def)

theorem client_reports_all_received_witness:
  "\<exists>t' h'. ReceiveTask 3 talking_env ClientApp_callbacks (connected_client, (), []) = (Inr True, t', (), h') \<and>
     reported h' = [''one'', ''two''] \<and> tc_stop t'"
proof -
  obtain t' h' where run: "ReceiveTask 3 talking_env ClientApp_callbacks (connected_client, (), []) = (Inr True, t', (), h')"
    "received talking_env h' = [(3, ''one''), (3, ''two'')]"
    using talking_run by blast
  from client_reports_all_received[OF run(1)] run show ?thesis by (auto simp: reported_def)
qed

lemma max_fill_length:
  fixes cfg :: DriverConfig
  assumes "length (drv_name cfg) < 2 ^ 63"
  shows "unat (drv_size cfg - (of_nat (length (drv_name cfg)) + 1)) =
     (if length (drv_name cfg) + 1 \<le> unat (drv_size cfg)
      then unat (drv_size cfg) - (length (drv_name cfg) + 1)
      else 2 ^ 64 + unat (drv_size cfg) - (length (drv_name cfg) + 1))"
proof -
  have "unat (drv_size cfg) < 2 ^ LENGTH(64)" by (rule unsigned_less)
  moreover have "unat (of_nat (length (drv_name cfg) + 1) :: 64 word) = length (drv_name cfg) + 1"
    using assms by (simp only: unat_of_nat) simp
  then have n: "unat (of_nat (length (drv_name cfg)) + 1 :: 64 word) = length (drv_name cfg) + 1"
    by (simp add: add.commute)
  ultimately show ?thesis using n by (auto simp: unat_sub_if_size word_size)
qed

text \<open>The \<open>max\<close> command sends one packet of exactly the configured size whenever name and
  colon fit it. When they do not, the subtraction wraps around and the program ends with
  \<open>std::length_error\<close> before it sends anything.\<close>

theorem max_line_sends_size:
  assumes "length (drv_name cfg) < 2 ^ 63" and "unat (drv_size cfg) \<le> string_max_size"
  shows "if length (drv_name cfg) + 1 \<le> unat (drv_size cfg)
     then \<exists>data. driver_line e cfg t ''max'' h = (Inr False, ClientApp_sendMsg e data t h) \<and>
            length data = unat (drv_size cfg)
     else driver_line e cfg t ''max'' h = (Inl (StdException ''length_error''), h)"
  using assms(2) max_fill_length[OF assms(1)] assms(1)
  by (auto simp: driver_line_def max_fill_def Let_def string_max_size_def)

theorem max_line_sends_size_witness:
  "(\<exists>data. driver_line quiet_env driver_defaults connected_client ''max'' [] =
        (Inr False, ClientApp_sendMsg quiet_env data connected_client []) \<and> length data = 1472) \<and>
   driver_line quiet_env (driver_defaults\<lparr>drv_size := 5\<rparr>) connected_client ''max'' [] =
     (Inl (StdException ''length_error''), [])"
  using max_line_sends_size[of driver_defaults quiet_env connected_client "[]"]
    max_line_sends_size[of "driver_defaults\<lparr>drv_size := 5\<rparr>" quiet_env connected_client "[]"]
  by (simp add: driver_defaults_def string_max_size_def)

text \<open>A \<open>TcpClient\<close> serves one connection only. \<open>m_stop\<close> is never reset, so once the
  server has closed the connection, or \<open>finish\<close> was called, a \<open>connectTo\<close> that reports success
  starts a thread that ends at once without receiving; and while the old thread has not been
  joined, no \<open>connectTo\<close> reports success at all.\<close>

theorem reconnect_never_receives:
  assumes "connectTo e host port t h = (Inr ret, t', h')" and "m_success ret" and "tc_stop t"
  shows "\<not> tc_joinable t \<and> ReceiveTask fuel e cb (t', c, h') = (Inr True, t', c, h')"
proof -
  have "tc_stop t'" using connectTo_stop(1)[OF assms(1)] assms(3) by simp
  then have "ReceiveTask fuel e cb (t', c, h') = (Inr True, t', c, h')" by (cases fuel) simp_all
  then show ?thesis using connectTo_stop(2)[OF assms(1,2)] by simp
qed

theorem reconnect_never_receives_witness:
  "\<exists>t1 h1 t2 h2. TcpClient_finish quiet_env connected_client [] = (t1, h1) \<and>
     connectTo quiet_env (Some ''localhost'') 7000 t1 h1 = (Inr success, t2, h2) \<and>
     ReceiveTask 1000 quiet_env ClientApp_callbacks (t2, (), h2) = (Inr True, t2, (), h2)"
proof -
  obtain t1 h1 where fin: "TcpClient_finish quiet_env connected_client [] = (t1, h1)"
    by (cases "TcpClient_finish quiet_env connected_client []")
  then have t1: "tc_stop t1" "\<not> tc_joinable t1" by (auto simp: TcpClient_finish_def Let_def)
  have "\<exists>t2 h2. connectTo quiet_env (Some ''localhost'') 7000 t1 h1 = (Inr success, t2, h2)"
    using fin by (auto simp: connectTo_def TcpClient_finish_def connected_client_def TcpClient_init_def core_simps
        lookupHost_def Let_def quiet_env_def next_fd_def INVALID_SOCKET_def)
  then obtain t2 h2 where conn: "connectTo quiet_env (Some ''localhost'') 7000 t1 h1 = (Inr success, t2, h2)"
    by blast
  have "ReceiveTask 1000 quiet_env ClientApp_callbacks (t2, (), h2) = (Inr True, t2, (), h2)"
    by (rule conjunct2[OF reconnect_never_receives[OF conn _ t1(1)]]) simp
  with fin conn show ?thesis by (intro exI conjI)
qed

end
