(* ===== verification/Spec2Isabelle.thy ===== *)
theory Spec2Isabelle
  imports ZmqStackMain ConvStackMain NetStackMain NetThreads ConvRun Bridge InprocStackMain NetDriver
begin

text \<open>
  Verification of \<open>zmq-playground\<close>: services that talk over ZeroMQ topics through an XPUB/XSUB
  proxy, a bridge from TCP clients to topics, a converter between topics, and a TCP test
  driver. This theory imports the whole development, says what it holds, and has the properties
  that span components.

  The program. A publisher sends two-part messages (topic, payload) to the proxy; a subscriber
  thread polls its socket and hands messages to its service. \<open>ZmqStack\<close> (\<open>common/ZmqStack\<close>) is the
  base service: a publisher, a subscriber, and optionally a receiver (PULL) and a sender (PUSH).
  \<open>ConvStack\<close> publishes what it receives under other topics. \<open>NetStack\<close> owns a \<open>TcpServer\<close>: data of
  TCP clients is published, messages from the topics are broadcast to the clients. \<open>Proxy\<close> runs
  libzmq's steerable proxy. Each has a \<open>main\<close> that reads options and a YAML file. The driver is a
  \<open>TcpClient\<close>.

  How it is modelled. Everything outside \<open>src/\<close> (kernel sockets, libzmq, the logger, yaml-cpp,
  getopt) is reached by calls. A run is described by its history, the list of calls made, and what
  each call answers is a function of the history before it: the record \<open>env\<close>, on which nothing is
  assumed. Statements about the outside appear as hypotheses where they are needed: \<open>posix_fds\<close>
  (the kernel does not hand out an open descriptor), that a REQ socket refuses a request only
  while a reply is outstanding, that a port on which the metrics server listens cannot be bound.
  An operation that may throw returns \<open>error + 'a\<close>: \<open>ZmqError\<close>, another standard exception, undefined behaviour of C++, or the end of
  the process. Objects are records passed and returned; \<open>m_mutex\<close> regions are single steps.

  The theories, each with the source it translates:
  \<^item> \<open>Prelude\<close>: outcomes, loops that may throw, decimal printing, association lists.
  \<^item> \<open>Util\<close> (\<open>common/Util.h\<close>): \<open>split\<close> against the reference \<open>delim_fields\<close>, \<open>getContainerInstance\<close>.
  \<^item> \<open>Environment\<close>: addresses, calls, \<open>env\<close>, open descriptors and received data of a history.
  \<^item> \<open>SocketCore\<close> (\<open>common/SocketCommon.h\<close>, \<open>SocketCore.h\<close>, \<open>AddrLookup.h\<close>), Linux branches.
  \<^item> \<open>TcpServer\<close> (\<open>common/TcpServer.h\<close>): every method and the thread \<open>serverTask\<close>. \<open>ServerSpec\<close>: its
    invariant \<open>srv_inv\<close>, the contract \<open>connection_listener\<close> of the callback recipient, and the
    step relation \<open>server_step\<close> of the thread among the owner's operations, between descriptors.
  \<^item> \<open>ServerThread\<close>: \<open>serverTask\<close> cut into atomic actions (\<open>thread_move\<close>), with its program counter
    \<open>pc\<close>. \<open>ServerThreads\<close>: the transition system \<open>system_step\<close> of these actions, of broadcasts, of
    \<open>sendClientMessage\<close> in two halves, of the stop request and of \<open>finish\<close>; the invariant at every
    point, and the protocol \<open>conn_spec\<close> of the notifications. \<open>ServerSafety\<close>: no call on a closed
    descriptor, the end of the thread after a stop request, and that the runs of \<open>server_step\<close>
    are runs of \<open>system_step\<close>. \<open>NetThreads\<close> rests the properties of the \<open>NetStack\<close> on them.
  \<^item> \<open>TcpClient\<close> (\<open>common/TcpClient.h\<close>) with the contract \<open>stream_listener\<close>; \<open>NetDriver\<close>
    (\<open>net-driver/NetDriver.cpp\<close>) interprets it and adds the driver's \<open>main\<close>.
  \<^item> \<open>Publisher\<close>, \<open>Sender\<close>, \<open>Subscriber\<close>, \<open>Receiver\<close>, \<open>HealthStatus\<close> (\<open>common/\<close>): the classes of the
    same names. The contracts \<open>message_target\<close>, \<open>pull_target\<close> (what a service owes the thread that
    delivers to it) and \<open>health_service\<close> are interpreted by the services. \<open>HealthStatus\<close> has the life
    of the endpoint and the handler of \<open>/healthz\<close>.
  \<^item> \<open>ZmqStack\<close>, \<open>ConvStack\<close>, \<open>NetStack\<close>: the three services. \<open>NetStack\<close> interprets
    \<open>connection_listener\<close> with its set of clients.
  \<^item> \<open>ConvThread\<close>: the converter with its threads at the grain at which they interleave. The loops
    \<open>Run\<close> of \<open>Subscriber\<close> and \<open>Receiver\<close> are cut into actions (\<open>worker_move\<close>; \<open>point\<close> is the program
    counter), the region under \<open>m_mutex\<close> into its lookup and one action per topic (\<open>look_up\<close>,
    \<open>send_next\<close>), and the owner's constructors, \<open>Stop\<close> and destructor into theirs (\<open>owner_move\<close>,
    \<open>phase\<close>); \<open>conv_step\<close> interleaves them. \<open>ConvThreads\<close>: its invariants (\<open>lock_inv\<close>, \<open>routes_inv\<close>) and
    the specification \<open>spec_run\<close>, a map with a list of publications. \<open>ConvSafety\<close>: mutual exclusion,
    the refinement, the survival of a converter in service, the races with construction and
    destruction. \<open>ConvStop\<close>: fair executions (\<open>execution\<close>, \<open>fair\<close>), and that \<open>Stop\<close> returns.
    \<open>ConvLoop\<close> and \<open>ConvRun\<close>: the actions, run alone, are the loops of \<open>Subscriber\<close> and \<open>Receiver\<close>
    (the locale \<open>worker_loop\<close>, interpreted for both).
  \<^item> \<open>Bridge\<close>: a net-stack, the converter and another net-stack, with topics between them that keep
    the order and may lose messages.
  \<^item> \<open>Proxy\<close> (\<open>zmq-proxy/\<close>): the control channel, the statistics and the main loop.
  \<^item> \<open>Config\<close>: what the \<open>main\<close> functions share (options, the YAML file, the metrics exposer, waiting for
    the signal); \<open>ZmqStackMain\<close>, \<open>ConvStackMain\<close>, \<open>NetStackMain\<close>, \<open>InprocStackMain\<close>: each \<open>main\<close> from the
    options to the destructors.

  What is shown. Between any two actions of the server thread, table, \<open>fd_set\<close>, open descriptors and
  the service's set of clients agree but for the client in hand; no call is made on a closed
  descriptor; client data is published once and in order; the notifications refine the life of
  a connection; a stop request ends the thread; and the actions, run alone, are \<open>serverTask\<close>.
  Broadcasts reach a prefix of the clients; each error branch is stated. The
  converter publishes exactly what its map says, and keeps doing so whatever the order in which
  its threads and its owner act: the publications are those of the map at the moments at which
  the lock was taken, block by block; no exception leaves its threads while it is in service;
  under a fair scheduler \<open>Stop\<close> returns. Through two net-stacks and the converter data goes from
  client to client in order and at most once. What may go wrong around it is stated too: messages that
  arrive before the constructor is done, or while \<open>Stop\<close> or the destructor runs.
  Subscriber and receiver threads of all services end only in an orderly way; counters, health and
  subscription filters are related to what was delivered.
  Sender, publisher and proxy keep their schedules; the mains read their options without
  undefined behaviour, but for one malformed option of the converter, and end in order after a
  signal. Splitting, numbers, addresses, statistics and
  topic names are read back exactly. Several properties state what the code does where this is
  surprising (a server that cannot be restarted, a send that races with the removal of its client, gauges
  that grow without traffic, a stack whose port is taken).

  Bounds. Loops of threads and commands take a number of iterations, \<open>fuel\<close>, and say whether they
  have ended; the properties hold for every fuel, and only the ones on the order of a shutdown are
  about loops that have ended. After a stop request the server thread takes at most \<open>5 * clients + 11\<close> more actions; a thread of the converter that is
  told to stop makes finitely many, measured by the number of topics it still has to send. Messages
  have any length; \<open>recv\<close> stores at most \<open>MAX_PACKET_SIZE\<close> bytes; counters are words of their width.

  Not modelled: the HTTP and metrics servers themselves (they are calls), timing (the kernel's
  calls are taken to return), memory exhaustion, data races as such (\<open>m_isConnected\<close>, \<open>m_stop\<close> before
  a restart, ZMQ sockets shared by threads), spdlog's patterns and levels, the labels of metrics,
  prompts on standard output, the interleaving of a subscriber thread with the constructor and
  destructor of \<open>ZmqStack\<close> and \<open>NetStack\<close> (it is modelled for \<open>ConvStack\<close>, whose lock and members it
  matters for), and the deployment files. In the mains the state of a service is
  changed by the main thread only; the effects of its other threads are in the theories of the
  threads.
\<close>

section \<open>Properties across components\<close>



definition bridge_conv :: ConvStack where
  "bridge_conv = (fst sample_converter)\<lparr>cv_map := inproc_conversions\<rparr>"

text \<open>Two groups of TCP clients talk to each other through the converter. What a client of
  the one net-stack sends goes out on its ingress topic; the converter, given that message and
  the conversions of the in-process demonstration, sends it once, on the other stack's egress
  topic; the other net-stack, given that, offers the same bytes to its clients in table order.\<close>

theorem bridge_end_to_end:
  assumes "NetStack_onReceiveClientData e fd data (sa, a, h) = (Inr (), sa', a', h1)"
    and "ns_pubTopics a = [''net-a-ingress'']"
    and "ConvStack_onReceivedMessage e [''net-a-ingress'', data] (v, h2) = (Inr (), v', h3)"
    and "cv_map v = inproc_conversions"
    and "srv_inv e sb h4" and "h5 = log_info (''Received message '' @ data @ '' on topic net-b-egress'') h4"
  shows "sent_on (net_socket a) h1 = sent_on (net_socket a) h @ [[''net-a-ingress'', data]] \<and>
     sent_on (conv_socket v) h3 = sent_on (conv_socket v) h2 @ [[''net-b-egress'', data]] \<and>
     NetStack_onReceivedMessage e [''net-b-egress'', data] ((sb, b), h4) =
       (Inr (), (sb, b\<lparr>ns_udpTx := ns_udpTx b + 1\<rparr>), 
        h5 @ map (\<lambda>fd. SysSend fd data) (take (Suc (delivered e data (srv_clients sb) h5)) (map fst (srv_clients sb))))"
proof -
  have "sent_on (net_socket a) h1 = sent_on (net_socket a) h @ [[''net-a-ingress'', data]]"
    using onReceiveClientData_ok(6)[OF assms(1)] assms(2) by simp
  moreover have "sent_on (conv_socket v) h3 = sent_on (conv_socket v) h2 @ [[''net-b-egress'', data]]"
    using onReceivedMessage_ok(1)[OF assms(3)] assms(4)
    by (simp add: routed_message_def routed_def inproc_conversions_def)
  ultimately show ?thesis 
    using sendBcast_prefix[OF assms(5), of h5 data "''net-b-egress''" "[]" b] assms(6) by simp
qed

theorem bridge_end_to_end_witness:
  "\<exists>sa' a' h1 v' h3. NetStack_onReceiveClientData quiet_env 4 ''hello'' (one_client, bridge_net, []) = (Inr (), sa', a', h1) \<and>
     ConvStack_onReceivedMessage quiet_env [''net-a-ingress'', ''hello''] (bridge_conv, []) = (Inr (), v', h3) \<and>
     sent_on (net_socket bridge_net) h1 = [[''net-a-ingress'', ''hello'']] \<and>
     sent_on (conv_socket bridge_conv) h3 = [[''net-b-egress'', ''hello'']]"
proof -
  have net: "ns_pubTopics bridge_net = [''net-a-ingress'']" "pub_open (zs_publisher (ns_base bridge_net))"
    using chatty_net_fields by (simp_all add: bridge_net_def)
  have conv: "cv_map bridge_conv = inproc_conversions" "pub_open (zs_publisher (cv_base bridge_conv))"
    using sample_converter_fields by (simp_all add: bridge_conv_def)
  have "\<exists>a' h1. NetStack_onReceiveClientData quiet_env 4 ''hello'' (one_client, bridge_net, []) = (Inr (), one_client, a', h1)"
    using net by (simp add: NetStack_onReceiveClientData_def ZmqStack_Publish_all_def publishMsgs_def pub_send_def
        zmq_defs quiet_env_def Let_def)
  then obtain a' h1 where data: "NetStack_onReceiveClientData quiet_env 4 ''hello'' (one_client, bridge_net, []) =
      (Inr (), one_client, a', h1)" by blast
  obtain v' h3 where routed: "ConvStack_onReceivedMessage quiet_env [''net-a-ingress'', ''hello''] (bridge_conv, []) = (Inr (), v', h3)"
    using quiet_onReceivedMessage[OF conv(2), of "[''net-a-ingress'', ''hello'']" "[]"] by auto
  have inv: "srv_inv quiet_env one_client one_client_history" by (rule one_client_inv) simp
  from bridge_end_to_end[OF data net(1) routed conv(1) inv refl]
  have "sent_on (net_socket bridge_net) h1 = [[''net-a-ingress'', ''hello'']]"
    "sent_on (conv_socket bridge_conv) h3 = [[''net-b-egress'', ''hello'']]" by simp_all
  with data routed show ?thesis by blast
qed

text \<open>C35: reading a command line ends well in all six programs. Whatever the options and their
  arguments are, the loop over \<open>getopt\<close> ends with the options read, with a standard exception from
  a number that cannot be read, or with the usage and exit code 1. For the converter this
  holds when each argument of \<open>-P\<close> has two parts; the first that has not makes it undefined.\<close>

theorem command_lines_end_well:
  assumes "\<forall>(c, optarg) \<in> set copts. c = CHR ''P'' \<longrightarrow> 2 \<le> length (split optarg (CHR ''|''))"
  shows "option_end (fst (parse_options zmq_option opts zcfg)) \<and>
     option_end (fst (parse_options net_option opts ncfg)) \<and>
     option_end (fst (parse_options inproc_option opts icfg)) \<and>
     option_end (fst (parse_options driver_option opts dcfg)) \<and>
     option_end (fst (parse_options proxy_option opts pcfg)) \<and>
     option_end (fst (parse_options conv_option copts ccfg)) \<and>
     (length (split bad (CHR ''|'')) < 2 \<longrightarrow> parse_options conv_option copts ccfg = (Inr (), ccfg') \<longrightarrow>
        \<not> defined (fst (parse_options conv_option (copts @ (CHR ''P'', bad) # opts') ccfg)))"
proof (intro conjI impI)
  show "option_end (fst (parse_options zmq_option opts zcfg))"
    by (rule parse_options_end) (simp add: zmq_option_def)
  show "option_end (fst (parse_options net_option opts ncfg))"
    by (rule parse_options_end) (simp add: net_option_def)
  show "option_end (fst (parse_options inproc_option opts icfg))"
    by (rule parse_options_end) (simp add: inproc_option_def)
  show "option_end (fst (parse_options driver_option opts dcfg))"
    by (rule parse_options_end) (simp add: driver_option_def)
  show "option_end (fst (parse_options proxy_option opts pcfg))"
    by (rule parse_options_end) (simp add: proxy_option_def)
  have parts: "option_end (fst (conv_option_P optarg cfg)) = (2 \<le> length (split optarg (CHR ''|'')))"
    "defined (fst (conv_option_P optarg cfg)) = (2 \<le> length (split optarg (CHR ''|'')))" for optarg cfg
    by (simp_all add: conv_option_P_def split: list.split)
  show "option_end (fst (parse_options conv_option copts ccfg))"
    by (rule parse_options_end) (use assms parts(1) in \<open>auto simp: conv_option_def\<close>)
  assume bad: "length (split bad (CHR ''|'')) < 2"
    and run: "parse_options conv_option copts ccfg = (Inr (), ccfg')"
  obtain r t where step: "conv_option_P bad ccfg' = (r, t)" by (metis surj_pair)
  then have "\<not> defined r" using parts(2)[of bad ccfg'] bad by simp
  then obtain what where "r = Inl (Undefined what)" by (auto simp: defined_def split: sum.splits error.splits)
  then show "\<not> defined (fst (parse_options conv_option (copts @ (CHR ''P'', bad) # opts') ccfg))"
    using run step by (simp add: parse_options_def for_each_append conv_option_def)
qed

theorem command_lines_end_well_witness:
  "option_end (fst (parse_options zmq_option [(CHR ''l'', ''trace''), (CHR ''?'', [])] zmq_defaults)) \<and>
   option_end (fst (parse_options conv_option [(CHR ''P'', ''in|out'')] conv_defaults)) \<and>
   \<not> defined (fst (parse_options conv_option [(CHR ''P'', ''in|out''), (CHR ''P'', ''in'')] conv_defaults))"
proof -
  have parts: "split ''in|out'' (CHR ''|'') = [''in'', ''out'']" "split ''in'' (CHR ''|'') = [''in'']" by code_simp+
  let ?opts = "[(CHR ''P'', ''in|out'')]"
  have good: "\<forall>(c, optarg) \<in> set ?opts. c = CHR ''P'' \<longrightarrow> 2 \<le> length (split optarg (CHR ''|''))" using parts by simp
  obtain cfg where run: "parse_options conv_option ?opts conv_defaults = (Inr (), cfg)"
    using parts by (simp add: parse_options_def conv_option_def conv_option_P_def)
  have "length (split ''in'' (CHR ''|'')) < 2" using parts by simp
  then show ?thesis
    using command_lines_end_well[OF good, where opts = "[(CHR ''l'', ''trace''), (CHR ''?'', [])]" and zcfg = zmq_defaults
        and ccfg = conv_defaults and bad = "''in''" and ccfg' = cfg and opts' = "[]"] run by simp
qed

text \<open>C40: the end of standard input ends none of the interactive programs. Their loops ask
  whether the line is \<open>quit\<close> but never whether there was one: at the end of the input the stacks
  go round for ever without any effect, and the driver sends its name and a colon again and
  again.\<close>

theorem end_of_input_never_quits:
  "zmq_interactive fuel e name [] zst = (Inr False, zst) \<and>
   conv_interactive fuel e name [] cst = (Inr False, cst) \<and>
   inproc_interactive fuel e [] ist = (Inr False, ist) \<and>
   fst (driver_loop fuel e cfg t [] h) = Inr False"
proof -
  have "zmq_command e name [] zst = (Inr (), zst)" for zst
    by (cases zst) (simp add: zmq_command_def)
  then have "zmq_interactive fuel e name [] zst = (Inr False, zst)"
    by (induction fuel arbitrary: zst) simp_all
  moreover have "conv_command e name [] cst = (Inr (), cst)" for cst
    by (cases cst) (simp add: conv_command_def)
  then have "conv_interactive fuel e name [] cst = (Inr False, cst)"
    by (induction fuel arbitrary: cst) simp_all
  moreover have "inproc_command e [] ist = (Inr (), ist)" for ist
    by (cases ist) (simp add: inproc_command_def)
  then have "inproc_interactive fuel e [] ist = (Inr False, ist)"
    by (induction fuel arbitrary: ist) simp_all
  moreover have "fst (driver_loop fuel e cfg t [] h) = Inr False"
    by (induction fuel arbitrary: h) (simp_all add: driver_line_def)
  ultimately show ?thesis by blast
qed

end
